(* ===== verification/Prelude.thy ===== *)
theory Prelude
  imports Complex_Main "HOL-Library.Word" "HOL-Library.AList" "HOL-Library.Multiset"
    "HOL-Library.Sublist" "HOL-Library.Char_ord" "HOL-Library.List_Lexorder"
begin

unbundle bit_operations_syntax

text \<open>
  Shared material of the development: the collections that carry the component proofs, the
  types of the model, 64-bit signed integers, the byte-string searches of
  \<^verbatim>\<open>std::string\<close>, and \<^verbatim>\<open>std::unordered_map\<close> as an association list with distinct keys
  together with the interface (a locale) the components use it through.
\<close>

named_theorems um_simps \<open>lookups in an unordered map after an operation\<close>
named_theorems um_invars \<open>operations keep the keys of an unordered map distinct\<close>
named_theorems frame_simps \<open>fields an operation leaves alone\<close>

section \<open>Types\<close>

text \<open>
  A \<^verbatim>\<open>std::string\<close> is a sequence of bytes, and so is \<^typ>\<open>string\<close>. An \<^verbatim>\<open>int64_t\<close> is an
  \<^typ>\<open>int\<close> kept in range by \<open>wrap64\<close>, the environment of the process a map.
\<close>

type_synonym i64 = int
type_synonym environ = "string \<rightharpoonup> string"
type_synonym ('k, 'v) umap = "('k \<times> 'v) list"

abbreviation NL :: char where
  "NL \<equiv> CHR 0x0A"

abbreviation CR :: char where
  "CR \<equiv> CHR 0x0D"

abbreviation CRLF :: string where
  "CRLF \<equiv> [CR, NL]"

abbreviation TAB :: char where
  "TAB \<equiv> CHR 0x09"

abbreviation DQ :: char where
  "DQ \<equiv> CHR 0x22"

abbreviation BSL :: char where
  "BSL \<equiv> CHR 0x5C"

section \<open>64-bit signed integers\<close>

definition in_i64 :: "int \<Rightarrow> bool" where
  "in_i64 x \<longleftrightarrow> - (2 ^ 63) \<le> x \<and> x < 2 ^ 63"

definition wrap64 :: "int \<Rightarrow> int" where
  "wrap64 x = signed_take_bit 63 x"

definition add64 :: "int \<Rightarrow> int \<Rightarrow> int" where
  "add64 x y = wrap64 (x + y)"

text \<open>Readings of the clock between two times.\<close>

definition times :: "i64 \<Rightarrow> (nat \<Rightarrow> i64) \<Rightarrow> i64 \<Rightarrow> bool" where
  "times T clk T' \<longleftrightarrow> T \<le> T' \<and> (\<forall>i. T \<le> clk i \<and> clk i \<le> T' \<and> in_i64 (clk i))"

lemma in_i64_wrap64 [simp]: "in_i64 (wrap64 x)"
  using signed_take_bit_int_greater_eq_minus_exp [of 63 x] signed_take_bit_int_less_exp [of 63 x]
  by (simp add: in_i64_def wrap64_def)

lemma in_i64_add64 [simp]: "in_i64 (add64 x y)"
  by (simp add: add64_def)

lemma wrap64_id [simp]: "in_i64 x \<Longrightarrow> wrap64 x = x"
  unfolding in_i64_def wrap64_def by (rule signed_take_bit_int_eq_self) auto

lemma in_i64_small: "\<bar>x\<bar> \<le> 9223372036854775807 \<Longrightarrow> in_i64 x"
  unfolding in_i64_def by auto

lemma in_i64_0 [simp]: "in_i64 0"
  by (simp add: in_i64_def)

lemma in_i64_1 [simp]: "in_i64 1"
  by (simp add: in_i64_def)

lemma wrap64_wrap_add_left [simp]: "wrap64 (wrap64 x + y) = wrap64 (x + y)"
  unfolding wrap64_def
  by (metis signed_take_bit_add signed_take_bit_signed_take_bit min.idem)

lemma wrap64_wrap_add_right [simp]: "wrap64 (x + wrap64 y) = wrap64 (x + y)"
  by (metis add.commute wrap64_wrap_add_left)

lemma add64_assoc: "add64 (add64 x y) z = add64 x (add64 y z)"
  by (simp add: add64_def add.assoc)

lemma add64_commute: "add64 x y = add64 y x"
  by (simp add: add64_def add.commute)

lemma add64_left_commute: "add64 x (add64 y z) = add64 y (add64 x z)"
  by (metis add64_assoc add64_commute)

lemmas add64_ac = add64_assoc add64_commute add64_left_commute

lemma add64_0 [simp]: "in_i64 x \<Longrightarrow> add64 x 0 = x" "in_i64 x \<Longrightarrow> add64 0 x = x"
  by (simp_all add: add64_def)

lemma add64_exact: "in_i64 (x + y) \<Longrightarrow> add64 x y = x + y"
  by (simp add: add64_def)

section \<open>Searching in byte strings\<close>

text \<open>
  \<open>str_find p s\<close> is \<^verbatim>\<open>s.find(p)\<close>: the least position at which \<open>p\<close> occurs, \<open>None\<close> for
  \<^verbatim>\<open>npos\<close>. \<open>chr_find\<close> is the search for one character, \<open>contains\<close> the test
  \<^verbatim>\<open>s.find(p) != npos\<close>, \<open>starts_with\<close> the test \<^verbatim>\<open>s.rfind(p, 0) == 0\<close>.
\<close>

fun str_find :: "string \<Rightarrow> string \<Rightarrow> nat option" where
  "str_find p [] = (if p = [] then Some 0 else None)"
| "str_find p (c # s) = (if prefix p (c # s) then Some 0 else map_option Suc (str_find p s))"

fun chr_find :: "char \<Rightarrow> string \<Rightarrow> nat option" where
  "chr_find c [] = None"
| "chr_find c (x # s) = (if x = c then Some 0 else map_option Suc (chr_find c s))"

definition contains :: "string \<Rightarrow> string \<Rightarrow> bool" where
  "contains s p \<longleftrightarrow> str_find p s \<noteq> None"

abbreviation starts_with :: "string \<Rightarrow> string \<Rightarrow> bool" where
  "starts_with s p \<equiv> prefix p s"

lemma chr_find_None: "chr_find c s = None \<longleftrightarrow> c \<notin> set s"
  by (induction s) auto

lemma chr_find_append: "c \<notin> set s \<Longrightarrow> chr_find c (s @ c # t) = Some (length s)"
  by (induction s) auto

lemma chr_find_Some:
  "chr_find c s = Some n \<Longrightarrow> n < length s \<and> s ! n = c \<and> c \<notin> set (take n s)"
  by (induction s arbitrary: n) (auto split: if_splits)

lemma str_find_Some: "str_find p s = Some n \<Longrightarrow> prefix p (drop n s) \<and> n + length p \<le> length s"
proof (induction s arbitrary: n)
  case Nil
  then show ?case by (auto split: if_splits)
next
  case (Cons c s)
  then show ?case
    by (auto split: if_splits dest: prefix_length_le)
qed

lemma str_find_None: "str_find p s = None \<longleftrightarrow> (\<forall>xs ys. s \<noteq> xs @ p @ ys)"
proof (induction s)
  case Nil
  then show ?case by auto
next
  case (Cons c s)
  show ?case
  proof (cases "prefix p (c # s)")
    case True
    then show ?thesis by (auto simp: prefix_def) (metis append_Nil)
  next
    case False
    then have "(\<forall>xs ys. c # s \<noteq> xs @ p @ ys) \<longleftrightarrow> (\<forall>xs ys. s \<noteq> xs @ p @ ys)"
      by (auto simp: Cons_eq_append_conv prefix_def)
    then show ?thesis using False Cons.IH by simp
  qed
qed

lemma str_find_extend: "str_find p s = Some n \<Longrightarrow> str_find p (s @ t) = Some n"
proof (induction s arbitrary: n)
  case Nil
  then show ?case by (cases t) (auto split: if_splits)
next
  case (Cons c s)
  show ?case
  proof (cases "prefix p (c # s)")
    case True
    then have "prefix p (c # s @ t)" using prefix_prefix [of p "c # s" t] by simp
    then show ?thesis using Cons.prems True by simp
  next
    case False
    then obtain m where m: "str_find p s = Some m" "n = Suc m" using Cons.prems by auto
    have "length p \<le> length s" using str_find_Some [OF m(1)] by simp
    then have "\<not> prefix p (c # s @ t)" using False prefix_length_prefix [of p "(c # s) @ t" "c # s"] by auto
    then show ?thesis using Cons.IH [OF m(1)] m(2) by simp
  qed
qed

lemma str_find_two: "CR \<notin> set l \<Longrightarrow> str_find CRLF (l @ CRLF @ t) = Some (length l)"
  by (induction l) auto

text \<open>A substring test is what the library calls \<open>sublist\<close>.\<close>

lemma contains_sublist: "contains s p \<longleftrightarrow> sublist p s"
  unfolding contains_def sublist_def using str_find_None [of p s] by auto

section \<open>Unordered maps\<close>

text \<open>
  \<^verbatim>\<open>std::unordered_map\<close> as the association list of its entries in iteration order. The C++
  standard leaves that order open; every theorem below is about all lists with distinct keys, so
  about every iteration order. \<open>um_emplace\<close> is \<^verbatim>\<open>try_emplace\<close> (an entry that exists stays),
  \<open>um_put\<close> is \<^verbatim>\<open>m[k] = v\<close>, \<open>um_get\<close> is the read of \<^verbatim>\<open>m[k]\<close> with its default.
\<close>

abbreviation um_find :: "('k, 'v) umap \<Rightarrow> 'k \<Rightarrow> 'v option" where
  "um_find \<equiv> map_of"

definition um_count :: "('k, 'v) umap \<Rightarrow> 'k \<Rightarrow> bool" where
  "um_count m k \<longleftrightarrow> um_find m k \<noteq> None"

definition um_put :: "'k \<Rightarrow> 'v \<Rightarrow> ('k, 'v) umap \<Rightarrow> ('k, 'v) umap" where
  "um_put k v m = AList.update k v m"

definition um_emplace :: "'k \<Rightarrow> 'v \<Rightarrow> ('k, 'v) umap \<Rightarrow> ('k, 'v) umap" where
  "um_emplace k v m = (if um_count m k then m else um_put k v m)"

definition um_erase :: "'k \<Rightarrow> ('k, 'v) umap \<Rightarrow> ('k, 'v) umap" where
  "um_erase k m = AList.delete k m"

definition um_get :: "'v \<Rightarrow> ('k, 'v) umap \<Rightarrow> 'k \<Rightarrow> 'v" where
  "um_get d m k = (case um_find m k of None \<Rightarrow> d | Some v \<Rightarrow> v)"

definition um_inv :: "('k, 'v) umap \<Rightarrow> bool" where
  "um_inv m \<longleftrightarrow> distinct (map fst m)"

lemma um_find_put: "um_find (um_put k v m) = (um_find m)(k \<mapsto> v)"
  by (simp add: um_put_def update_conv' fun_eq_iff)

lemma um_find_erase: "um_find (um_erase k m) = (um_find m)(k := None)"
  by (simp add: um_erase_def delete_conv' fun_eq_iff)

lemma um_find_put_at [um_simps]: "um_find (um_put k v m) x = (if x = k then Some v else um_find m x)"
  by (simp add: um_find_put)

lemma um_find_erase_at [um_simps]: "um_find (um_erase k m) x = (if x = k then None else um_find m x)"
  by (simp add: um_find_erase)

lemma um_find_emplace_at [um_simps]:
  "um_find (um_emplace k v m) x = (if x = k \<and> um_find m k = None then Some v else um_find m x)"
  by (simp add: um_emplace_def um_count_def um_find_put)

lemma um_get_put [um_simps]: "um_get d (um_put k v m) x = (if x = k then v else um_get d m x)"
  by (simp add: um_get_def um_find_put)

lemma um_get_erase [um_simps]: "um_get d (um_erase k m) x = (if x = k then d else um_get d m x)"
  by (simp add: um_get_def um_find_erase)

lemma um_inv_Nil [um_invars, simp]: "um_inv []"
  by (simp add: um_inv_def)

lemma um_inv_put [um_invars]: "um_inv m \<Longrightarrow> um_inv (um_put k v m)"
  by (simp add: um_inv_def um_put_def distinct_update)

lemma um_inv_erase [um_invars]: "um_inv m \<Longrightarrow> um_inv (um_erase k m)"
  by (simp add: um_inv_def um_erase_def distinct_delete)

lemma um_inv_emplace [um_invars]: "um_inv m \<Longrightarrow> um_inv (um_emplace k v m)"
  by (simp add: um_emplace_def um_inv_put)

lemma um_put_keys: "fst ` set (um_put k v m) = insert k (fst ` set m)"
  by (simp add: um_put_def dom_update)

lemma um_erase_keys: "fst ` set (um_erase k m) = fst ` set m - {k}"
  using arg_cong [OF delete_keys [of k m], of set] by (simp add: um_erase_def)

lemma um_emplace_keys: "fst ` set (um_emplace k v m) = insert k (fst ` set m)"
  by (auto simp: um_emplace_def um_count_def um_put_keys map_of_eq_None_iff)

lemma um_find_in_set: "um_inv m \<Longrightarrow> um_find m k = Some v \<longleftrightarrow> (k, v) \<in> set m"
  by (simp add: um_inv_def map_of_eq_Some_iff)

lemma um_count_iff: "um_count m k \<longleftrightarrow> k \<in> fst ` set m"
  by (simp add: um_count_def map_of_eq_None_iff)

lemma um_put_length:
  "length (um_put k v m) = (if um_find m k = None then Suc (length m) else length m)"
  by (induction m) (auto simp: um_put_def)

lemma um_erase_length_le: "length (um_erase k m) \<le> length m"
  by (simp add: um_erase_def length_delete_le)

text \<open>
  The interface of a map as its clients use it. It is provided by a single unordered map here and
  by the sharded index of the store later; what a client may conclude from it is proved once.
\<close>

locale finmap_iface =
  fixes find :: "'m \<Rightarrow> 'k \<Rightarrow> 'v option"
    and put :: "'k \<Rightarrow> 'v \<Rightarrow> 'm \<Rightarrow> 'm"
    and erase :: "'k \<Rightarrow> 'm \<Rightarrow> 'm"
    and inv :: "'m \<Rightarrow> bool"
  assumes find_put: "inv m \<Longrightarrow> find (put k v m) = (find m)(k \<mapsto> v)"
    and find_erase: "inv m \<Longrightarrow> find (erase k m) = (find m)(k := None)"
    and inv_put: "inv m \<Longrightarrow> inv (put k v m)"
    and inv_erase: "inv m \<Longrightarrow> inv (erase k m)"
begin

lemma inv_fold_put: "inv m \<Longrightarrow> inv (fold (\<lambda>(k, v). put k v) kvs m)"
  by (induction kvs arbitrary: m) (auto simp: inv_put)

lemma find_fold_put:
  "inv m \<Longrightarrow> find (fold (\<lambda>(k, v). put k v) kvs m) = find m ++ map_of (rev kvs)"
proof (induction kvs arbitrary: m)
  case Nil
  then show ?case by simp
next
  case (Cons p kvs)
  obtain k v where p: "p = (k, v)" by force
  have "find (fold (\<lambda>(k, v). put k v) (p # kvs) m) = find (put k v m) ++ map_of (rev kvs)"
    using Cons.IH [OF inv_put [OF Cons.prems]] by (simp add: p)
  also have "\<dots> = find m ++ map_of (rev (p # kvs))"
    unfolding find_put [OF Cons.prems] by (rule ext) (simp add: p map_add_def split: option.split)
  finally show ?case .
qed

lemma find_fold_put_distinct:
  assumes "inv m" and "distinct (map fst kvs)"
  shows "find (fold (\<lambda>(k, v). put k v) kvs m) = find m ++ map_of kvs"
proof -
  have "map_of (rev kvs) = map_of kvs"
    using assms(2) by (simp add: map_of_inject_set rev_map [symmetric])
  then show ?thesis using find_fold_put [OF assms(1)] by simp
qed

lemma find_put_erase: "inv m \<Longrightarrow> find (put k v (erase k m)) = (find m)(k \<mapsto> v)"
  by (simp add: find_put find_erase inv_erase)

end

interpretation um: finmap_iface um_find um_put um_erase um_inv
  by unfold_locales (simp_all only: um_find_put um_find_erase um_inv_put um_inv_erase)

end
