(* ===== verification/Common.thy ===== *)
theory Common
  imports Prelude
begin

text \<open>
  The helpers of \<^verbatim>\<open>src/src/common.hpp\<close> and \<^verbatim>\<open>src/src/base62.hpp\<close>: environment access,
  decimal printing into a fixed buffer, the base-62 code alphabet; the number readers of the C
  library they and the other files call (\<^verbatim>\<open>strtoll\<close>, \<^verbatim>\<open>strtoul\<close>, \<^verbatim>\<open>std::stoll\<close>), and the
  FNV-1a hashes that choose a shard.
\<close>

section \<open>Decimal printing: itoa\<close>

definition digit_chr :: "nat \<Rightarrow> char" where
  "digit_chr d = char_of (48 + d)"

text \<open>
  The \<^verbatim>\<open>do \<dots> while (v)\<close> loop fills \<^verbatim>\<open>tmp[24]\<close> from its end; the accumulator is the part
  of the buffer already written.
\<close>

function (sequential) itoa_loop :: "64 word \<Rightarrow> string \<Rightarrow> string" where
  "itoa_loop v tmp =
     (let tmp' = digit_chr (unat (v mod 10)) # tmp; v' = v div 10
      in if v' \<noteq> 0 then itoa_loop v' tmp' else tmp')"
  by pat_completeness auto
termination
  by (relation "measure (\<lambda>(v, tmp). unat v)") (auto simp: unat_div unat_gt_0 div_eq_0_iff intro!: div_less_dividend)

declare itoa_loop.simps [simp del]

text \<open>
  \<open>itoa b n\<close> appends \<open>n\<close> to \<open>b\<close>. The unsigned magnitude is computed as in the source,
  \<^verbatim>\<open>(uint64_t)(-(n + 1)) + 1\<close>, which does not overflow at the smallest value.
\<close>

definition itoa :: "string \<Rightarrow> i64 \<Rightarrow> string" where
  "itoa b n =
     (let v = (if n < 0 then word_of_int (- (n + 1)) + 1 else word_of_int n);
          tmp = itoa_loop v [];
          tmp' = (if n < 0 then CHR ''-'' # tmp else tmp)
      in b @ tmp')"

text \<open>\<^verbatim>\<open>std::to_string\<close> of a signed integer prints the same digits.\<close>

definition to_string :: "int \<Rightarrow> string" where
  "to_string n = itoa [] n"

section \<open>Reading numbers: strtoll, strtoul, stoll\<close>

text \<open>\<^verbatim>\<open>isspace\<close> of the C locale.\<close>

definition c_isspace :: "char \<Rightarrow> bool" where
  "c_isspace c \<longleftrightarrow> c = CHR '' '' \<or> (let n = of_char c :: nat in 9 \<le> n \<and> n \<le> 13)"

definition digit_val :: "char \<Rightarrow> nat option" where
  "digit_val c =
     (let n = of_char c :: nat
      in if 48 \<le> n \<and> n \<le> 57 then Some (n - 48)
         else if 97 \<le> n \<and> n \<le> 122 then Some (n - 87)
         else if 65 \<le> n \<and> n \<le> 90 then Some (n - 55)
         else None)"

text \<open>The longest run of digits below the base, as a value and the number of digits read.\<close>

fun read_digits :: "int \<Rightarrow> int \<Rightarrow> nat \<Rightarrow> string \<Rightarrow> int \<times> nat" where
  "read_digits base acc n [] = (acc, n)"
| "read_digits base acc n (c # s) =
     (case digit_val c of
        None \<Rightarrow> (acc, n)
      | Some d \<Rightarrow>
          if int d < base then read_digits base (acc * base + int d) (Suc n) s else (acc, n))"

definition skip_space :: "string \<Rightarrow> string" where
  "skip_space s = dropWhile c_isspace s"

definition read_sign :: "string \<Rightarrow> bool \<times> string" where
  "read_sign s =
     (case s of
        [] \<Rightarrow> (False, [])
      | c # t \<Rightarrow> if c = CHR ''-'' then (True, t) else if c = CHR ''+'' then (False, t) else (False, s))"

text \<open>\<^verbatim>\<open>strtoll(s, nullptr, 10)\<close>: 0 when there is no number, the nearest bound when it is out of range.\<close>

definition clamp_i64 :: "int \<Rightarrow> int" where
  "clamp_i64 x = max (- (2 ^ 63)) (min (2 ^ 63 - 1) x)"

definition strtoll :: "string \<Rightarrow> i64" where
  "strtoll s =
     (let (neg, t) = read_sign (skip_space s); (v, n) = read_digits 10 0 0 t
      in clamp_i64 (if neg then - v else v))"

text \<open>\<^verbatim>\<open>std::stoll\<close> throws where \<open>strtoll\<close> reads no digit or is out of range: \<open>None\<close>.\<close>

definition stoll :: "string \<Rightarrow> i64 option" where
  "stoll s =
     (let (neg, t) = read_sign (skip_space s); (v, n) = read_digits 10 0 0 t;
          x = (if neg then - v else v)
      in if n = 0 \<or> \<not> in_i64 x then None else Some x)"

text \<open>
  \<^verbatim>\<open>strtoul(s, nullptr, 16)\<close> on a 64-bit \<^verbatim>\<open>unsigned long\<close>: an optional sign (a negative
  number wraps around) and an optional \<^verbatim>\<open>0x\<close> in front of a hexadecimal digit.
\<close>

definition skip_0x :: "string \<Rightarrow> string" where
  "skip_0x s =
     (case s of
        a # b # c # t \<Rightarrow>
          if a = CHR ''0'' \<and> (b = CHR ''x'' \<or> b = CHR ''X'') \<and>
             (case digit_val c of None \<Rightarrow> False | Some d \<Rightarrow> d < 16) then c # t else s
      | _ \<Rightarrow> s)"

definition strtoul16 :: "string \<Rightarrow> 64 word" where
  "strtoul16 s =
     (let (neg, t) = read_sign (skip_space s); (v, n) = read_digits 16 0 0 (skip_0x t)
      in if v \<ge> 2 ^ 64 then - 1 else if neg then - word_of_int v else word_of_int v)"

section \<open>Environment\<close>

definition env_i64 :: "environ \<Rightarrow> string \<Rightarrow> i64 \<Rightarrow> i64" where
  "env_i64 env k def =
     (case env k of None \<Rightarrow> def | Some v \<Rightarrow> if v = [] then def else strtoll v)"

definition env_str :: "environ \<Rightarrow> string \<Rightarrow> string \<Rightarrow> string" where
  "env_str env k def = (case env k of None \<Rightarrow> def | Some v \<Rightarrow> if v \<noteq> [] then v else def)"

definition track_hits :: "environ \<Rightarrow> bool" where
  "track_hits env \<longleftrightarrow> env_i64 env ''TRACK_HITS'' 1 \<noteq> 0"

section \<open>Base 62\<close>

definition ALPHABET :: string where
  "ALPHABET = ''0123456789abcdefghijklmnopqrstuvwxyzABCDEFGHIJKLMNOPQRSTUVWXYZ''"

definition CODE_LEN :: nat where
  "CODE_LEN = 8"

definition MAX_INSTANCES :: nat where
  "MAX_INSTANCES = 62"

text \<open>The loop \<^verbatim>\<open>while (n)\<close> fills \<^verbatim>\<open>buf[12]\<close> from its end.\<close>

function (sequential) base62_loop :: "64 word \<Rightarrow> string \<Rightarrow> string" where
  "base62_loop n buf =
     (if n \<noteq> 0 then base62_loop (n div 62) (ALPHABET ! unat (n mod 62) # buf) else buf)"
  by pat_completeness auto
termination
  by (relation "measure (\<lambda>(n, buf). unat n)") (auto simp: unat_div unat_gt_0 intro!: div_less_dividend)

declare base62_loop.simps [simp del]

definition base62_encode :: "64 word \<Rightarrow> string" where
  "base62_encode n = (if n = 0 then ''0'' else base62_loop n [])"

section \<open>FNV-1a\<close>

definition NUM_SHARDS :: nat where
  "NUM_SHARDS = 256"

fun fnv32 :: "32 word \<Rightarrow> string \<Rightarrow> 32 word" where
  "fnv32 h [] = h"
| "fnv32 h (b # code) = fnv32 ((h XOR of_char b) * 16777619) code"

definition shard_of :: "string \<Rightarrow> nat" where
  "shard_of code = unat (fnv32 2166136261 code AND (of_nat NUM_SHARDS - 1))"

fun alpha_idx_from :: "nat \<Rightarrow> string \<Rightarrow> char \<Rightarrow> int" where
  "alpha_idx_from i [] c = -1"
| "alpha_idx_from i (a # as) c = (if a = c then int i else alpha_idx_from (Suc i) as c)"

definition alpha_idx :: "char \<Rightarrow> int" where
  "alpha_idx c = alpha_idx_from 0 ALPHABET c"

section \<open>Printing and reading decimal numbers\<close>

text \<open>The digits of a natural number, most significant first: what the print loop computes.\<close>

fun dec_digits :: "nat \<Rightarrow> string" where
  "dec_digits n = (if n < 10 then [digit_chr n] else dec_digits (n div 10) @ [digit_chr (n mod 10)])"

declare dec_digits.simps [simp del]

lemma itoa_loop_dec_digits: "itoa_loop v tmp = dec_digits (unat v) @ tmp"
proof (induction v tmp rule: itoa_loop.induct)
  case (1 v tmp)
  have z: "v div 10 = 0 \<longleftrightarrow> unat v < 10"
    by (simp add: unat_eq_zero [symmetric] unat_div div_eq_0_iff)
  show ?case
  proof (cases "v div 10 = 0")
    case True
    then show ?thesis using z
      by (simp add: itoa_loop.simps [of v tmp] dec_digits.simps [of "unat v"] unat_mod)
  next
    case False
    then have "itoa_loop (v div 10) (digit_chr (unat (v mod 10)) # tmp)
        = dec_digits (unat (v div 10)) @ digit_chr (unat (v mod 10)) # tmp"
      using "1" by simp
    then show ?thesis using False z
      by (simp add: itoa_loop.simps [of v tmp] dec_digits.simps [of "unat v"] unat_mod unat_div)
  qed
qed

lemma digit_val_chr [simp]: "d < 10 \<Longrightarrow> digit_val (digit_chr d) = Some d"
  by (simp add: digit_val_def digit_chr_def)

lemma digit_chr_range: "d < 10 \<Longrightarrow> 48 \<le> (of_char (digit_chr d) :: nat) \<and> of_char (digit_chr d) \<le> (57 :: nat)"
  by (simp add: digit_chr_def)

lemma dec_digits_set: "c \<in> set (dec_digits n) \<Longrightarrow> \<exists>d < 10. c = digit_chr d"
proof (induction n rule: dec_digits.induct)
  case (1 n)
  then show ?case
    by (subst (asm) (2) dec_digits.simps) (fastforce split: if_splits simp del: mod_less_divisor
        intro: mod_less_divisor [of 10 n, simplified])
qed

lemma dec_digits_Nil [simp]: "dec_digits n \<noteq> []"
  by (subst dec_digits.simps) simp

lemma read_digits_dec_digits:
  "read_digits 10 acc k (dec_digits n @ s)
     = read_digits 10 (acc * 10 ^ length (dec_digits n) + int n) (k + length (dec_digits n)) s"
proof (induction n arbitrary: s acc k rule: dec_digits.induct)
  case (1 n)
  show ?case
  proof (cases "n < 10")
    case True
    then show ?thesis by (simp add: dec_digits.simps [of n])
  next
    case False
    have split: "dec_digits n = dec_digits (n div 10) @ [digit_chr (n mod 10)]"
      using False by (simp add: dec_digits.simps [of n])
    have "int n = int (n div 10) * 10 + int (n mod 10)"
      by presburger
    then show ?thesis
      using "1.IH" [OF False, of acc k "digit_chr (n mod 10) # s"]
      by (simp add: split algebra_simps)
  qed
qed

lemma dec_digits_length: "n < 10 ^ k \<Longrightarrow> 0 < k \<Longrightarrow> length (dec_digits n) \<le> k"
proof (induction n arbitrary: k rule: dec_digits.induct)
  case (1 n)
  show ?case
  proof (cases "n < 10")
    case True
    with "1.prems" show ?thesis by (simp add: dec_digits.simps [of n])
  next
    case False
    obtain j where j: "k = Suc j" "0 < j"
    proof (cases k)
      case 0
      with "1.prems" show ?thesis by simp
    next
      case (Suc j)
      with "1.prems" False have "j \<noteq> 0" by (intro notI) simp
      with Suc that show ?thesis by simp
    qed
    then have "n div 10 < 10 ^ j" using "1.prems" by (simp add: less_mult_imp_div_less)
    then have "length (dec_digits (n div 10)) \<le> j" using "1.IH" False j by simp
    then show ?thesis using False j by (simp add: dec_digits.simps [of n])
  qed
qed

lemma length_to_string: "length (to_string n) \<le> 21"
proof -
  have "unat w < 10 ^ 20" for w :: "64 word" using unsigned_less [where 'a = nat, of w] by simp
  then have "length (dec_digits (unat w)) \<le> 20" for w :: "64 word" by (intro dec_digits_length) simp_all
  from this [of "word_of_int n"] this [of "word_of_int (- (n + 1)) + 1"] show ?thesis
    by (simp add: to_string_def itoa_def itoa_loop_dec_digits Let_def)
qed

text \<open>\<open>itoa\<close> as a sign and digits.\<close>

lemma itoa_magnitude:
  assumes "in_i64 n"
  shows "unat (if n < 0 then word_of_int (- (n + 1)) + 1 else word_of_int n :: 64 word) = nat \<bar>n\<bar>"
proof -
  have w: "(if n < 0 then word_of_int (- (n + 1)) + 1 else word_of_int n :: 64 word) = word_of_int \<bar>n\<bar>"
    by simp
  have r: "0 \<le> \<bar>n\<bar>" "\<bar>n\<bar> < 2 ^ 64"
    using assms unfolding in_i64_def by (auto simp: abs_if)
  have "uint (word_of_int \<bar>n\<bar> :: 64 word) = \<bar>n\<bar> mod 2 ^ 64"
    by (simp add: uint_word_of_int)
  also have "\<dots> = \<bar>n\<bar>"
    using r by (rule mod_pos_pos_trivial)
  finally show ?thesis
    unfolding w unat_eq_nat_uint by simp
qed

lemma itoa_eq:
  "in_i64 n \<Longrightarrow> itoa b n = b @ (if n < 0 then [CHR ''-''] else []) @ dec_digits (nat \<bar>n\<bar>)"
  using itoa_magnitude [of n] by (auto simp: itoa_def itoa_loop_dec_digits Let_def)

lemma itoa_nonempty [simp]: "itoa b n \<noteq> []"
  by (simp add: itoa_def itoa_loop_dec_digits Let_def)

lemma itoa_append: "itoa b n = b @ itoa [] n"
  by (simp add: itoa_def Let_def)

lemma itoa_chars: "c \<in> set (itoa [] n) \<Longrightarrow> c = CHR ''-'' \<or> (\<exists>d < 10. c = digit_chr d)"
  by (auto simp: itoa_def itoa_loop_dec_digits Let_def dest: dec_digits_set split: if_splits)

lemma digit_chr_neq:
  "d < 10 \<Longrightarrow> digit_chr d \<noteq> c" if "of_char c < (48 :: nat) \<or> of_char c > (57 :: nat)"
  using that digit_chr_range [of d] by auto

text \<open>A printed number holds no character that frames a log line, a command or a header.\<close>

lemma itoa_avoids:
  assumes "of_char c < (45 :: nat) \<or> of_char c > (57 :: nat)"
  shows "c \<notin> set (itoa [] n)"
proof
  assume "c \<in> set (itoa [] n)"
  then consider "c = CHR ''-''" | d where "d < 10" "c = digit_chr d"
    using itoa_chars by blast
  then show False
    using assms by cases (auto dest: digit_chr_range)
qed

lemma c_isspace_digit: "d < 10 \<Longrightarrow> \<not> c_isspace (digit_chr d)"
  using digit_chr_range [of d] by (auto simp: c_isspace_def Let_def)

lemma dec_digits_Cons: "\<exists>d t. dec_digits n = digit_chr d # t \<and> d < 10"
  using dec_digits_Nil [of n] dec_digits_set [of _ n] by (cases "dec_digits n") auto

text \<open>The scan both number readers start with: sign, value, digits read.\<close>

lemma read_number_itoa:
  assumes "in_i64 n"
  shows "\<exists>t. read_sign (skip_space (itoa [] n @ s)) = (n < 0, t)
           \<and> read_digits 10 0 0 t = read_digits 10 \<bar>n\<bar> (length (dec_digits (nat \<bar>n\<bar>))) s"
proof -
  obtain d r where d: "dec_digits (nat \<bar>n\<bar>) = digit_chr d # r" "d < 10"
    using dec_digits_Cons by blast
  have sp: "\<not> c_isspace (CHR ''-'')" by (simp add: c_isspace_def)
  have "digit_chr d \<noteq> CHR ''-''" "digit_chr d \<noteq> CHR ''+''"
    using digit_chr_range [OF d(2)] by auto
  then have "read_sign (skip_space (itoa [] n @ s)) = (n < 0, dec_digits (nat \<bar>n\<bar>) @ s)"
    using assms d sp by (auto simp: itoa_eq skip_space_def read_sign_def c_isspace_digit)
  then show ?thesis
    by (auto simp: read_digits_dec_digits)
qed

definition no_digit :: "string \<Rightarrow> bool" where
  "no_digit s \<longleftrightarrow> (case s of [] \<Rightarrow> True | c # _ \<Rightarrow> (case digit_val c of None \<Rightarrow> True | Some d \<Rightarrow> \<not> d < 10))"

lemma read_digits_no_digit: "no_digit s \<Longrightarrow> read_digits 10 acc k s = (acc, k)"
  by (cases s) (auto simp: no_digit_def split: option.splits)

lemma clamp_i64_id: "in_i64 n \<Longrightarrow> clamp_i64 n = n"
  by (simp add: clamp_i64_def in_i64_def)

lemma strtoll_itoa: "in_i64 n \<Longrightarrow> no_digit s \<Longrightarrow> strtoll (itoa [] n @ s) = n"
  using read_number_itoa [of n s]
  by (auto simp: strtoll_def read_digits_no_digit Let_def clamp_i64_id)

lemma strtoll_itoa_Nil [simp]: "in_i64 n \<Longrightarrow> strtoll (itoa [] n) = n"
  using strtoll_itoa [of n "[]"] by (simp add: no_digit_def)

lemma stoll_itoa: "in_i64 n \<Longrightarrow> no_digit s \<Longrightarrow> stoll (itoa [] n @ s) = Some n"
  using read_number_itoa [of n s]
  by (auto simp: stoll_def read_digits_no_digit Let_def)

lemma stoll_to_string [simp]: "in_i64 n \<Longrightarrow> stoll (to_string n) = Some n"
  using stoll_itoa [of n "[]"] by (simp add: no_digit_def to_string_def)

lemma in_i64_strtoll [simp]: "in_i64 (strtoll s)"
  by (auto simp: strtoll_def clamp_i64_def in_i64_def Let_def split: prod.split)

lemma itoa_length: "in_i64 n \<Longrightarrow> length (itoa [] n) \<le> 20"
proof -
  assume n: "in_i64 n"
  have "nat \<bar>n\<bar> < 10 ^ 19"
    using n unfolding in_i64_def by (auto simp: abs_if nat_less_iff)
  then have "length (dec_digits (nat \<bar>n\<bar>)) \<le> 19"
    by (rule dec_digits_length) simp
  then show ?thesis using n by (auto simp: itoa_eq abs_if split: if_splits)
qed

section \<open>The code alphabet\<close>

lemma ALPHABET_length [simp]: "length ALPHABET = 62"
  by (simp add: ALPHABET_def)

lemma ALPHABET_distinct: "distinct ALPHABET"
  by code_simp

lemma ALPHABET_nth_inj: "i < 62 \<Longrightarrow> j < 62 \<Longrightarrow> ALPHABET ! i = ALPHABET ! j \<longleftrightarrow> i = j"
  using nth_eq_iff_index_eq [OF ALPHABET_distinct] by simp

lemma alpha_idx_from_nth:
  "distinct as \<Longrightarrow> k < length as \<Longrightarrow> alpha_idx_from i as (as ! k) = int (i + k)"
  by (induction as arbitrary: i k) (auto simp: nth_Cons split: nat.splits)

lemma alpha_idx_nth [simp]: "k < 62 \<Longrightarrow> alpha_idx (ALPHABET ! k) = int k"
  unfolding alpha_idx_def using alpha_idx_from_nth [OF ALPHABET_distinct, of k 0] by simp

lemma alpha_idx_from_range: "alpha_idx_from i as c = -1 \<or> int i \<le> alpha_idx_from i as c \<and>
    alpha_idx_from i as c < int (i + length as)"
proof (induction as arbitrary: i)
  case Nil
  then show ?case by simp
next
  case (Cons a as)
  show ?case using Cons [of "Suc i"] by auto
qed

lemma alpha_idx_range: "-1 \<le> alpha_idx c" "alpha_idx c < 62"
  using alpha_idx_from_range [of 0 ALPHABET c] by (auto simp: alpha_idx_def)

text \<open>The value of a base-62 numeral, to state that the encoder is injective.\<close>

definition base62_value :: "string \<Rightarrow> int" where
  "base62_value s = foldl (\<lambda>acc c. acc * 62 + alpha_idx c) 0 s"

lemma foldl_base62:
  "foldl (\<lambda>acc c. acc * 62 + alpha_idx c) a s = a * 62 ^ length s + base62_value s"
  unfolding base62_value_def
proof (induction s rule: rev_induct)
  case Nil
  then show ?case by simp
next
  case (snoc x s)
  then show ?case by (simp add: algebra_simps)
qed

lemma base62_value_Cons: "base62_value (c # s) = alpha_idx c * 62 ^ length s + base62_value s"
  using foldl_base62 [of "alpha_idx c" s] by (simp add: base62_value_def)

lemma base62_loop_value: "base62_value (base62_loop n buf) = uint n * 62 ^ length buf + base62_value buf"
proof (induction n buf rule: base62_loop.induct)
  case (1 n buf)
  show ?case
  proof (cases "n = 0")
    case True
    then show ?thesis by (simp add: base62_loop.simps)
  next
    case False
    let ?q = "uint n div 62" and ?r = "uint n mod 62" and ?c = "ALPHABET ! unat (n mod 62)"
    have "unat (n mod 62) < 62"
      by (simp add: unat_mod)
    then have c: "alpha_idx ?c = ?r"
      by (simp add: unat_mod zmod_int)
    have "base62_value (base62_loop n buf) = ?q * 62 ^ Suc (length buf) + base62_value (?c # buf)"
      using "1.IH" [OF False] False by (simp add: base62_loop.simps [of n buf] uint_div)
    also have "\<dots> = (?q * 62 + ?r) * 62 ^ length buf + base62_value buf"
      unfolding base62_value_Cons c by (simp only: power_Suc distrib_right mult.assoc add.assoc)
    also have "?q * 62 + ?r = uint n"
      by (rule div_mult_mod_eq)
    finally show ?thesis .
  qed
qed

lemma base62_loop_length: "uint n < 62 ^ k \<Longrightarrow> length (base62_loop n buf) \<le> k + length buf"
proof (induction n buf arbitrary: k rule: base62_loop.induct)
  case (1 n buf)
  show ?case
  proof (cases "n = 0")
    case True
    then show ?thesis by (simp add: base62_loop.simps)
  next
    case False
    then have "uint n \<noteq> 0" using word_uint_eqI [of n 0] by fastforce
    then have pos: "0 < uint n" using uint_ge_0 [of n] by linarith
    with "1.prems" obtain j where j: "k = Suc j"
      by (cases k) auto
    have "uint n < 62 * 62 ^ j" using "1.prems" by (simp add: j)
    then have "uint n div 62 < 62 ^ j" by linarith
    then have "uint (n div 62) < 62 ^ j" by (simp add: uint_div)
    then show ?thesis
      using False "1.IH" [of j] by (simp add: base62_loop.simps [of n buf] j)
  qed
qed

section \<open>Shards\<close>

lemma shard_of_less: "shard_of code < NUM_SHARDS"
proof -
  have "unat (fnv32 2166136261 code AND 255) \<le> unat (255 :: 32 word)"
    by (rule word_and_le1 [THEN word_le_nat_alt [THEN iffD1]])
  then show ?thesis by (simp add: shard_of_def NUM_SHARDS_def)
qed

section \<open>Properties\<close>

text \<open>
  \<^verbatim>\<open>itoa\<close> appends at most 20 characters for every 64-bit integer, so the 24-byte buffer of
  the source suffices, and \<^verbatim>\<open>strtoll\<close> and \<^verbatim>\<open>std::stoll\<close> read the number back, the smallest one included.
\<close>

lemma itoa_round_trip:
  assumes "in_i64 n"
  shows "\<exists>ds. itoa b n = b @ ds \<and> length ds \<le> 20 \<and> strtoll ds = n \<and> stoll ds = Some n"
proof (intro exI conjI)
  show "itoa b n = b @ itoa [] n" by (rule itoa_append)
  show "length (itoa [] n) \<le> 20" using assms by (rule itoa_length)
  show "strtoll (itoa [] n) = n" using assms by simp
  show "stoll (itoa [] n) = Some n" using stoll_to_string [OF assms] by (simp add: to_string_def)
qed

text \<open>
  \<^verbatim>\<open>base62_encode\<close> needs at most 11 characters for every 64-bit number, so the 12-byte buffer
  of the source suffices, and two numbers never share an encoding.
\<close>

lemma base62_encode_injective:
  "length (base62_encode n) \<le> 11 \<and> (base62_encode n = base62_encode m \<longleftrightarrow> n = m)"
proof
  have "uint n < 2 ^ 64" using uint_lt2p [of n] by simp
  also have "(2 :: int) ^ 64 \<le> 62 ^ 11" by simp
  finally show "length (base62_encode n) \<le> 11"
    using base62_loop_length [of n 11 "[]"] by (simp add: base62_encode_def)
  have v: "base62_value (base62_encode k) = uint k" for k
    using base62_loop_value [of k "[]"]
    by (simp add: base62_encode_def) (simp add: base62_value_def alpha_idx_def ALPHABET_def)
  show "base62_encode n = base62_encode m \<longleftrightarrow> n = m"
    using v [of n] v [of m] word_uint_eqI [of n m] by auto
qed

end
