(* ===== verification/Double.thy ===== *)
theory Double
  imports Common "HOL-Library.Log_Nat"
begin

text \<open>
  The \<^verbatim>\<open>double\<close> of the language, as far as \<^verbatim>\<open>src/src/app.cpp\<close>, \<^verbatim>\<open>src/src/ratelimit.cpp\<close> and
  \<^verbatim>\<open>src/src/metrics.cpp\<close> use it: binary64 values with rounding to nearest, comparison, the
  operations and conversions of the sources, and the number readers \<^verbatim>\<open>strtod\<close> and \<^verbatim>\<open>atof\<close>.
\<close>

section \<open>Values and operations\<close>

text \<open>
  A \<^verbatim>\<open>double\<close> is a rational, an infinity (\<open>True\<close>: the negative one) or not a number; the sign of
  zero is dropped, since nothing the program computes depends on it. Every operation gives the
  exact result rounded to 53 bits, ties to even, with gradual underflow and overflow to infinity.
\<close>

datatype dbl = Fin rat | Infin bool | NaN

definition expo :: "rat \<Rightarrow> int" where
  "expo q =
     (let (a, b) = quotient_of q; k = bitlen a - bitlen b in if 2 powi k \<le> q then k else k - 1)"

definition half_even :: "rat \<Rightarrow> int" where
  "half_even x =
     (let f = \<lfloor>x\<rfloor>; d = x - of_int f
      in if d < 1 / 2 \<or> d = 1 / 2 \<and> even f then f else f + 1)"

definition ulp :: "rat \<Rightarrow> int" where
  "ulp q = max (expo q - 52) (- 1074)"

definition rnd :: "rat \<Rightarrow> dbl" where
  "rnd q =
     (if q = 0 then Fin 0
      else let u = ulp \<bar>q\<bar>; v = of_int (half_even (\<bar>q\<bar> / 2 powi u)) * 2 powi u
           in if 2 ^ 1024 \<le> v then Infin (q < 0) else Fin (if q < 0 then - v else v))"

definition dlt :: "dbl \<Rightarrow> dbl \<Rightarrow> bool" where
  "dlt x y =
     (case (x, y) of
        (Fin p, Fin q) \<Rightarrow> p < q
      | (Fin _, Infin n) \<Rightarrow> \<not> n
      | (Infin n, Fin _) \<Rightarrow> n
      | (Infin m, Infin n) \<Rightarrow> m \<and> \<not> n
      | _ \<Rightarrow> False)"

definition dle :: "dbl \<Rightarrow> dbl \<Rightarrow> bool" where
  "dle x y \<longleftrightarrow> dlt x y \<or> x = y \<and> x \<noteq> NaN"

definition dadd :: "dbl \<Rightarrow> dbl \<Rightarrow> dbl" where
  "dadd x y =
     (case (x, y) of
        (Fin p, Fin q) \<Rightarrow> rnd (p + q)
      | (Fin _, Infin n) \<Rightarrow> Infin n
      | (Infin n, Fin _) \<Rightarrow> Infin n
      | (Infin m, Infin n) \<Rightarrow> if m = n then Infin m else NaN
      | _ \<Rightarrow> NaN)"

definition dneg :: "dbl \<Rightarrow> dbl" where
  "dneg x = (case x of Fin q \<Rightarrow> Fin (- q) | Infin n \<Rightarrow> Infin (\<not> n) | NaN \<Rightarrow> NaN)"

definition dsub :: "dbl \<Rightarrow> dbl \<Rightarrow> dbl" where
  "dsub x y = dadd x (dneg y)"

definition dmul :: "dbl \<Rightarrow> dbl \<Rightarrow> dbl" where
  "dmul x y =
     (case (x, y) of
        (Fin p, Fin q) \<Rightarrow> rnd (p * q)
      | (Fin p, Infin n) \<Rightarrow> if p = 0 then NaN else Infin ((p < 0) \<noteq> n)
      | (Infin n, Fin p) \<Rightarrow> if p = 0 then NaN else Infin ((p < 0) \<noteq> n)
      | (Infin m, Infin n) \<Rightarrow> Infin (m \<noteq> n)
      | _ \<Rightarrow> NaN)"

text \<open>Division by a positive constant, the only kind there is.\<close>

definition ddiv :: "dbl \<Rightarrow> rat \<Rightarrow> dbl" where
  "ddiv x c = (case x of Fin p \<Rightarrow> rnd (p / c) | Infin n \<Rightarrow> Infin n | NaN \<Rightarrow> NaN)"

text \<open>\<^verbatim>\<open>std::min\<close> and \<^verbatim>\<open>std::max\<close>, which return their first argument when a comparison fails.\<close>

definition dmin :: "dbl \<Rightarrow> dbl \<Rightarrow> dbl" where
  "dmin x y = (if dlt y x then y else x)"

definition dmax :: "dbl \<Rightarrow> dbl \<Rightarrow> dbl" where
  "dmax x y = (if dlt x y then y else x)"

text \<open>Conversions: from an integer, rounded; to \<^verbatim>\<open>int64_t\<close>, towards zero, undefined (\<open>None\<close>) out of range.\<close>

definition of_i64 :: "int \<Rightarrow> dbl" where
  "of_i64 n = rnd (of_int n)"

definition trunc :: "rat \<Rightarrow> int" where
  "trunc q = (if q < 0 then - \<lfloor>- q\<rfloor> else \<lfloor>q\<rfloor>)"

definition to_i64 :: "dbl \<Rightarrow> i64 option" where
  "to_i64 x =
     (case x of Fin q \<Rightarrow> if in_i64 (trunc q) then Some (trunc q) else None | _ \<Rightarrow> None)"

section \<open>Rounding\<close>

lemma powi_pos [simp]: "0 < (2 :: rat) powi k"
  by simp

lemma powi_nat: "0 \<le> k \<Longrightarrow> (2 :: rat) powi k = 2 ^ nat k"
  by (simp add: power_int_def)

lemma powi_less_iff: "(2 :: rat) powi j < 2 powi k \<longleftrightarrow> j < k"
  using power_int_strict_increasing [of j k "2 :: rat"] power_int_increasing [of k j "2 :: rat"] by (cases "j < k") auto

lemma expo_bounds:
  assumes "0 < q"
  shows "2 powi expo q \<le> q" "q < 2 powi (expo q + 1)"
proof -
  obtain a b where ab: "quotient_of q = (a, b)" by (cases "quotient_of q")
  have b: "0 < b" using quotient_of_denom_pos [OF ab] .
  have q: "q = of_int a / of_int b" using quotient_of_div [OF ab] .
  have a: "0 < a" using assms b by (simp add: q zero_less_divide_iff)
  let ?la = "bitlen a" and ?lb = "bitlen b"
  have l: "0 < ?la" "0 < ?lb" using a b bitlen_eq_zero_iff [of a] bitlen_eq_zero_iff [of b] bitlen_nonneg [of a] bitlen_nonneg [of b] by linarith+
  have ba: "2 powi (?la - 1) \<le> (of_int a :: rat)" "(of_int a :: rat) < 2 powi ?la"
    using bitlen_bounds [OF a] l(1) by (simp_all add: powi_nat)
  have bb: "2 powi (?lb - 1) \<le> (of_int b :: rat)" "(of_int b :: rat) < 2 powi ?lb"
    using bitlen_bounds [OF b] l(2) by (simp_all add: powi_nat)
  let ?k = "?la - ?lb"
  have b0: "(0 :: rat) < of_int b" using b by simp
  have hi: "q < 2 powi (?k + 1)"
  proof -
    have "(of_int a :: rat) < 2 powi (?k + 1) * 2 powi (?lb - 1)" using ba(2) by (simp flip: power_int_add)
    also have "\<dots> \<le> 2 powi (?k + 1) * of_int b" using bb(1) by simp
    finally show ?thesis using b0 by (simp add: q field_simps)
  qed
  have lo: "2 powi (?k - 1) \<le> q"
  proof -
    have "2 powi (?k - 1) * of_int b \<le> 2 powi (?k - 1) * (2 powi ?lb :: rat)" using bb(2) by simp
    also have "\<dots> \<le> of_int a" using ba(1) by (simp flip: power_int_add)
    finally show ?thesis using b0 by (simp add: q field_simps)
  qed
  show "2 powi expo q \<le> q" "q < 2 powi (expo q + 1)"
    using hi lo by (auto simp: expo_def ab Let_def)
qed

lemma half_even_int [simp]: "half_even (of_int m) = m"
  by (simp add: half_even_def)

text \<open>The finite values of the type: at most 53 bits, above the smallest exponent, below the largest.\<close>

definition rep :: "rat \<Rightarrow> bool" where
  "rep q \<longleftrightarrow> \<bar>q\<bar> < 2 ^ 1024 \<and> (\<exists>m u. q = of_int m * 2 powi u \<and> \<bar>m\<bar> < 2 ^ 53 \<and> - 1074 \<le> u)"

lemma rep_minus [simp]: "rep (- q) = rep q"
proof -
  have "rep (- x)" if r: "rep x" for x
  proof -
    obtain m u where "x = of_int m * 2 powi u" "\<bar>m\<bar> < 2 ^ 53" "- 1074 \<le> u" "\<bar>x\<bar> < 2 ^ 1024"
      using r unfolding rep_def by blast
    then have "- x = of_int (- m) * 2 powi u" "\<bar>- m\<bar> < 2 ^ 53" "- 1074 \<le> u" "\<bar>- x\<bar> < 2 ^ 1024" by simp_all
    then show ?thesis unfolding rep_def by blast
  qed
  from this [of q] this [of "- q"] show ?thesis by auto
qed

lemma rep_abs [simp]: "rep \<bar>q\<bar> = rep q"
  by (simp add: abs_if)

lemma rnd_exact:
  assumes "rep q"
  shows "rnd q = Fin q"
proof (cases "q = 0")
  case False
  let ?a = "\<bar>q\<bar>"
  obtain m u where r: "?a = of_int m * 2 powi u" "\<bar>m\<bar> < 2 ^ 53" "- 1074 \<le> u"
    using assms rep_abs [of q] unfolding rep_def by blast
  have a: "0 < ?a" using False by simp
  have "2 powi expo ?a \<le> ?a" using a by (rule expo_bounds)
  also have "?a < 2 powi (53 + u)"
  proof -
    have "(of_int m :: rat) < 2 ^ 53" using r(2) by (metis abs_less_iff of_int_less_iff of_int_numeral of_int_power)
    then have "?a < 2 ^ 53 * 2 powi u" unfolding r(1) by (intro mult_strict_right_mono) simp_all
    then show ?thesis by (simp add: power_int_add)
  qed
  finally have "expo ?a < 53 + u" by (simp add: powi_less_iff)
  then have u: "ulp ?a \<le> u" using r(3) by (simp add: ulp_def)
  let ?w = "ulp ?a"
  have "?a / 2 powi ?w = of_int (m * 2 ^ nat (u - ?w))"
    using u by (simp add: r(1) power_int_diff powi_nat [symmetric])
  then have "of_int (half_even (?a / 2 powi ?w)) * 2 powi ?w = ?a"
    by (metis half_even_int nonzero_eq_divide_eq powi_pos less_irrefl)
  then show ?thesis using False assms by (auto simp: rnd_def Let_def rep_def)
qed (simp add: rnd_def)

lemma half_even_bounds:
  assumes "of_int m \<le> x" and "x \<le> of_int n"
  shows "m \<le> half_even x" "half_even x \<le> n"
proof -
  have f: "m \<le> \<lfloor>x\<rfloor>" "\<lfloor>x\<rfloor> \<le> n" using assms by (simp_all add: le_floor_iff) linarith
  have "half_even x = \<lfloor>x\<rfloor>" if "\<lfloor>x\<rfloor> = n"
  proof -
    have "x = of_int n" using that assms(2) of_int_floor_le [of x] by simp
    then show ?thesis by simp
  qed
  moreover have "half_even x = \<lfloor>x\<rfloor> \<or> half_even x = \<lfloor>x\<rfloor> + 1" by (simp add: half_even_def Let_def)
  ultimately show "m \<le> half_even x" "half_even x \<le> n" using f by linarith+
qed

lemma rnd_rep:
  assumes "rnd q = Fin v"
  shows "rep v" "0 \<le> q \<Longrightarrow> 0 \<le> v"
proof -
  show rv: "rep v"
  proof (cases "q = 0")
    case True
    then have "v = 0" using assms by (simp add: rnd_def)
    then show ?thesis by (auto simp: rep_def intro!: exI [of _ 0])
  next
    case False
    let ?a = "\<bar>q\<bar>"
    let ?u = "ulp ?a"
    let ?m = "half_even (?a / 2 powi ?u)"
    let ?v = "of_int ?m * 2 powi ?u :: rat"
    have v: "v = (if q < 0 then - ?v else ?v)" "?v < 2 ^ 1024" using assms False by (auto simp: rnd_def Let_def split: if_splits)
    have "?a < 2 powi (expo ?a + 1)" using False by (intro expo_bounds) simp
    also have "\<dots> \<le> 2 powi (53 + ?u)" by (rule power_int_increasing) (simp_all add: ulp_def)
    finally have "?a / 2 powi ?u \<le> of_int (2 ^ 53)" by (simp add: field_simps power_int_add)
    then have m: "0 \<le> ?m" "?m \<le> 2 ^ 53" using half_even_bounds [of 0 "?a / 2 powi ?u" "2 ^ 53"] by simp_all
    have u: "- 1074 \<le> ?u" by (simp add: ulp_def)
    have "rep ?v"
    proof (cases "?m = 2 ^ 53")
      case True
      have "?v = of_int (2 ^ 52) * 2 powi (?u + 1)" by (simp add: True power_int_add)
      moreover have "\<bar>2 ^ 52 :: int\<bar> < 2 ^ 53" "- 1074 \<le> ?u + 1" "\<bar>?v\<bar> < 2 ^ 1024" using u v(2) m(1) by (simp_all add: abs_mult)
      ultimately show ?thesis unfolding rep_def by blast
    next
      case False
      have "\<bar>?m\<bar> < 2 ^ 53" "\<bar>?v\<bar> < 2 ^ 1024" using False m v(2) by (simp_all add: abs_mult)
      then show ?thesis unfolding rep_def using u by blast
    qed
    then show ?thesis unfolding v(1) by (simp only: rep_minus if_cancel split: if_split) simp
  qed
  show "0 \<le> v" if "0 \<le> q"
  proof (cases "q = 0")
    case False
    have "0 \<le> half_even (\<bar>q\<bar> / 2 powi ulp \<bar>q\<bar>)" using half_even_bounds(1) [of 0 _ "\<lceil>\<bar>q\<bar> / 2 powi ulp \<bar>q\<bar>\<rceil>"] by simp
    then show ?thesis using assms that False by (auto simp: rnd_def Let_def split: if_splits)
  qed (use assms in \<open>simp add: rnd_def\<close>)
qed

lemma rep_int: "\<bar>n\<bar> < 2 ^ 53 \<Longrightarrow> rep (of_int n)"
proof -
  assume n: "\<bar>n\<bar> < 2 ^ 53"
  then have "\<bar>of_int n :: rat\<bar> < 2 ^ 53" by (metis of_int_abs of_int_less_iff of_int_numeral of_int_power)
  then have "\<bar>of_int n :: rat\<bar> < 2 ^ 1024" by (rule less_trans) simp
  moreover have "of_int n = (of_int n * 2 powi 0 :: rat)" by simp
  ultimately show ?thesis using n unfolding rep_def by (metis neg_le_0_iff_le zero_le_numeral)
qed

lemma of_i64_exact: "\<bar>n\<bar> < 2 ^ 53 \<Longrightarrow> of_i64 n = Fin (of_int n)"
  by (simp add: of_i64_def rnd_exact rep_int)

text \<open>Taking a whole number from a larger value below \<open>2\<^sup>5\<^sup>3\<close> loses nothing.\<close>

lemma rep_sub_int:
  assumes "rep q" and "0 \<le> n" and "of_int n \<le> q" and "q < 2 ^ 53"
  shows "rep (q - of_int n)"
proof -
  obtain m u where q: "q = of_int m * 2 powi u" "\<bar>m\<bar> < 2 ^ 53" "- 1074 \<le> u" using assms(1) unfolding rep_def by blast
  show ?thesis
  proof (cases "0 \<le> u")
    case True
    let ?k = "m * 2 ^ nat u - n"
    have e: "q - of_int n = of_int ?k" using True by (simp add: q(1) powi_nat)
    have "(0 :: rat) \<le> of_int n" using assms(2) by simp
    then have "q - of_int n < 2 ^ 53" "0 \<le> q - of_int n" using assms(3,4) by linarith+
    then have "(of_int ?k :: rat) < of_int (2 ^ 53)" "(0 :: rat) \<le> of_int ?k" unfolding e by simp_all
    then have "\<bar>?k\<bar> < 2 ^ 53" unfolding of_int_less_iff of_int_0_le_iff by linarith
    then show ?thesis unfolding e by (rule rep_int)
  next
    case False
    let ?k = "m - n * 2 ^ nat (- u)"
    have "(2 :: rat) powi u * 2 ^ nat (- u) = 1" using False by (simp add: powi_nat [symmetric] power_int_add [symmetric])
    then have e: "q - of_int n = of_int ?k * 2 powi u" by (simp add: q(1) algebra_simps)
    have "(0 :: rat) \<le> of_int ?k * 2 powi u" using assms(3) unfolding e [symmetric] by simp
    then have "(0 :: rat) \<le> of_int ?k" by (simp only: zero_le_mult_iff) (use powi_pos [of u] in linarith)
    then have "0 \<le> ?k" by (simp only: of_int_0_le_iff)
    moreover have "?k \<le> m" using assms(2) by simp
    ultimately have k: "\<bar>?k\<bar> < 2 ^ 53" using q(2) by linarith
    have "(0 :: rat) \<le> of_int n" using assms(2) by simp
    then have "\<bar>q - of_int n\<bar> < 2 ^ 53" using assms(3,4) by linarith
    then have "\<bar>q - of_int n\<bar> < 2 ^ 1024" by (rule less_trans) simp
    then show ?thesis unfolding rep_def using e k q(3) by blast
  qed
qed

section \<open>Reading numbers: strtod and atof\<close>

definition lower :: "char \<Rightarrow> char" where
  "lower c = (let n = of_char c :: nat in if 65 \<le> n \<and> n \<le> 90 then char_of (n + 32) else c)"

definition word_prefix :: "string \<Rightarrow> string \<Rightarrow> bool" where
  "word_prefix w s \<longleftrightarrow> prefix w (map lower s)"

text \<open>Digits with at most one point among them; \<open>None\<close> when there is no digit.\<close>

definition read_mant :: "int \<Rightarrow> string \<Rightarrow> (rat \<times> string) option" where
  "read_mant base s =
     (let (v1, n1) = read_digits base 0 0 s;
          t = drop n1 s;
          point = (t \<noteq> [] \<and> hd t = CHR ''.'');
          (v, n2) = (if point then read_digits base v1 0 (tl t) else (v1, 0))
      in if n1 + n2 = 0 then None
         else Some (of_int v / of_int base ^ n2, if point then drop n2 (tl t) else t))"

text \<open>The exponent: a letter, an optional sign and at least one digit, else nothing.\<close>

definition read_expo :: "char \<Rightarrow> string \<Rightarrow> int \<times> string" where
  "read_expo c s =
     (if s \<noteq> [] \<and> lower (hd s) = c then
        (let (neg, t) = read_sign (tl s); (v, n) = read_digits 10 0 0 t
         in if n = 0 then (0, s) else (if neg then - v else v, drop n t))
      else (0, s))"

definition is_hex :: "string \<Rightarrow> bool" where
  "is_hex s \<longleftrightarrow> word_prefix ''0x'' s \<and> read_mant 16 (drop 2 s) \<noteq> None"

definition read_number :: "string \<Rightarrow> (dbl \<times> string) option" where
  "read_number s =
     (if word_prefix ''infinity'' s then Some (Infin False, drop 8 s)
      else if word_prefix ''inf'' s then Some (Infin False, drop 3 s)
      else if word_prefix ''nan'' s then
        (let t = drop 3 s; u = dropWhile (\<lambda>c. digit_val c \<noteq> None \<or> c = CHR ''_'') (tl t)
         in Some (NaN, if t \<noteq> [] \<and> hd t = CHR ''('' \<and> u \<noteq> [] \<and> hd u = CHR '')'' then tl u else t))
      else if is_hex s then
        (let (m, t) = the (read_mant 16 (drop 2 s)); (e, t) = read_expo CHR ''p'' t
         in Some (rnd (m * 2 powi e), t))
      else
        (case read_mant 10 s of
           None \<Rightarrow> None
         | Some (m, t) \<Rightarrow> let (e, t) = read_expo CHR ''e'' t in Some (rnd (m * 10 powi e), t)))"

text \<open>\<^verbatim>\<open>strtod\<close> gives the value and the unread rest, \<open>None\<close> when it reads nothing.\<close>

definition strtod :: "string \<Rightarrow> (dbl \<times> string) option" where
  "strtod s =
     (let (neg, t) = read_sign (skip_space s)
      in map_option (\<lambda>(x, r). (if neg then dneg x else x, r)) (read_number t))"

definition atof :: "string \<Rightarrow> dbl" where
  "atof s = (case strtod s of None \<Rightarrow> Fin 0 | Some (x, r) \<Rightarrow> x)"

text \<open>A printed integer below \<open>2\<^sup>5\<^sup>3\<close> is read back exactly, if what follows does not continue it.\<close>

definition no_number :: "string \<Rightarrow> bool" where
  "no_number s \<longleftrightarrow> no_digit s \<and> (s = [] \<or> hd s \<noteq> CHR ''.'' \<and> lower (hd s) \<noteq> CHR ''e'' \<and> lower (hd s) \<noteq> CHR ''x'')"

lemma lower_digit: "d < 10 \<Longrightarrow> lower (digit_chr d) = digit_chr d"
  by (simp add: lower_def digit_chr_def)

lemma dec_digits_no_hex:
  assumes "no_number s"
  shows "\<not> word_prefix ''0x'' (dec_digits n @ s)"
proof
  assume h: "word_prefix ''0x'' (dec_digits n @ s)"
  obtain d t where d: "dec_digits n = digit_chr d # t" "d < 10" using dec_digits_Cons by blast
  show False
  proof (cases t)
    case Nil
    then show ?thesis using h d assms by (cases s) (auto simp: word_prefix_def no_number_def)
  next
    case (Cons c u)
    then have "c \<in> set (dec_digits n)" using d by simp
    then obtain e where e: "c = digit_chr e" "e < 10" using dec_digits_set by blast
    have "digit_chr e \<noteq> CHR ''x''" using digit_chr_neq [of "CHR ''x''" e] e(2) by simp
    then show ?thesis using h d Cons e lower_digit by (simp add: word_prefix_def)
  qed
qed

lemma word_prefix_digits: "\<not> word_prefix (c # w) (dec_digits n @ s)" if "of_char c > (57 :: nat)"
proof -
  obtain d t where d: "dec_digits n = digit_chr d # t" "d < 10" using dec_digits_Cons by blast
  then show ?thesis using that digit_chr_neq [of c d] lower_digit [of d] by (auto simp: word_prefix_def)
qed

lemma read_mant_digits:
  assumes "no_number s"
  shows "read_mant 10 (dec_digits n @ s) = Some (of_nat n, s)"
proof -
  have "read_digits 10 0 0 (dec_digits n @ s) = (int n, length (dec_digits n))"
    using assms by (simp add: read_digits_dec_digits read_digits_no_digit no_number_def)
  then show ?thesis using assms by (cases s) (simp_all add: read_mant_def no_number_def)
qed

lemma read_number_digits:
  assumes "no_number s"
  shows "read_number (dec_digits n @ s) = Some (rnd (of_nat n), s)"
proof -
  have "\<not> is_hex (dec_digits n @ s)" using dec_digits_no_hex [OF assms] by (simp add: is_hex_def)
  moreover have "read_expo CHR ''e'' s = (0, s)" using assms by (auto simp: read_expo_def no_number_def)
  ultimately show ?thesis using read_mant_digits [OF assms, of n]
    by (simp add: read_number_def word_prefix_digits)
qed

lemma strtod_itoa:
  assumes "\<bar>n\<bar> < 2 ^ 53" and "no_number s"
  shows "strtod (itoa [] n @ s) = Some (Fin (of_int n), s)"
proof -
  have i: "in_i64 n" using assms(1) by (simp add: in_i64_def) linarith
  obtain d r where d: "dec_digits (nat \<bar>n\<bar>) = digit_chr d # r" "d < 10" using dec_digits_Cons by blast
  have "digit_chr d \<noteq> CHR ''-''" "digit_chr d \<noteq> CHR ''+''" using digit_chr_range [OF d(2)] by auto
  moreover have "\<not> c_isspace (CHR ''-'')" by (simp add: c_isspace_def)
  ultimately have sg: "read_sign (skip_space (itoa [] n @ s)) = (n < 0, dec_digits (nat \<bar>n\<bar>) @ s)"
    using i d by (auto simp: itoa_eq skip_space_def read_sign_def c_isspace_digit)
  have "rnd (of_nat (nat \<bar>n\<bar>)) = Fin (of_int \<bar>n\<bar>)"
    using rnd_exact [OF rep_int, of "\<bar>n\<bar>"] assms(1) by (simp add: of_nat_nat)
  then show ?thesis using read_number_digits [OF assms(2)] sg by (simp add: strtod_def dneg_def)
qed

end
