(* ===== verification/Json.thy ===== *)
theory Json
  imports Double
begin

text \<open>
  The small JSON reader of \<^verbatim>\<open>src/src/app.cpp\<close> (structs \<^verbatim>\<open>J\<close> and \<^verbatim>\<open>Jp\<close>, \<^verbatim>\<open>jparse\<close>), that it always
  ends, and that it reads back what a plain printer of JSON values writes.
\<close>

section \<open>Definitions\<close>

datatype J = J_NUL | J_NUM dbl | J_STR string | J_ARR "J list" | J_OBJ "(string \<times> J) list" | J_BOOL bool

definition j_find :: "string \<Rightarrow> J \<Rightarrow> J option" where
  "j_find k j = (case j of J_OBJ kvs \<Rightarrow> map_of kvs k | _ \<Rightarrow> None)"

text \<open>
  The parser state is the unread part of the input. Each reader gives its value and the rest, or
  \<open>None\<close> where the source clears \<^verbatim>\<open>ok\<close>.
\<close>

definition jws :: "string \<Rightarrow> string" where
  "jws s = dropWhile (\<lambda>c. c = CHR '' '' \<or> c = CHR 0x09 \<or> c = NL \<or> c = CHR 0x0D) s"

definition lit :: "string \<Rightarrow> string \<Rightarrow> string option" where
  "lit w s = (if prefix w s then Some (drop (length w) s) else None)"

fun jstr_loop :: "string \<Rightarrow> string \<Rightarrow> (string \<times> string) option" where
  "jstr_loop out [] = None"
| "jstr_loop out (c # s) =
     (if c = DQ then Some (out, s)
      else if c = BSL \<and> s \<noteq> [] then
        (let d = hd s
         in if d = CHR ''n'' then jstr_loop (out @ [NL]) (tl s)
            else if d = CHR ''r'' then jstr_loop (out @ [CHR 0x0D]) (tl s)
            else if d = CHR ''t'' then jstr_loop (out @ [CHR 0x09]) (tl s)
            else if d = CHR ''u'' then
              (if 4 < length s then jstr_loop (out @ [CHR ''?'']) (drop 5 s) else jstr_loop out (tl s))
            else jstr_loop (out @ [d]) (tl s))
      else jstr_loop (out @ [c]) s)"

definition jstr :: "string \<Rightarrow> (string \<times> string) option" where
  "jstr s = (if s = [] \<or> hd s \<noteq> DQ then None else jstr_loop [] (tl s))"

definition jnum :: "string \<Rightarrow> (J \<times> string) option" where
  "jnum s = map_option (\<lambda>(d, r). (J_NUM d, r)) (strtod s)"

text \<open>
  Values, arrays and objects call each other; \<open>n\<close> bounds the depth of the calls. The outer
  \<open>None\<close> is a bound that was too small.
\<close>

fun jval :: "nat \<Rightarrow> string \<Rightarrow> (J \<times> string) option option"
and jarr_loop :: "nat \<Rightarrow> J list \<Rightarrow> string \<Rightarrow> (J \<times> string) option option"
and jobj_loop :: "nat \<Rightarrow> (string \<times> J) list \<Rightarrow> string \<Rightarrow> (J \<times> string) option option"
where
  "jval 0 s = None"
| "jval (Suc n) s =
     (case jws s of
        [] \<Rightarrow> Some None
      | c # r \<Rightarrow>
          if c = CHR ''{'' then
            (let r = jws r in if r \<noteq> [] \<and> hd r = CHR ''}'' then Some (Some (J_OBJ [], tl r)) else jobj_loop n [] r)
          else if c = CHR ''['' then
            (let r = jws r in if r \<noteq> [] \<and> hd r = CHR '']'' then Some (Some (J_ARR [], tl r)) else jarr_loop n [] r)
          else if c = DQ then Some (map_option (\<lambda>(x, r). (J_STR x, r)) (jstr (c # r)))
          else if c = CHR ''t'' then Some (map_option (\<lambda>r. (J_BOOL True, r)) (lit ''true'' (c # r)))
          else if c = CHR ''f'' then Some (map_option (\<lambda>r. (J_BOOL False, r)) (lit ''false'' (c # r)))
          else if c = CHR ''n'' then Some (map_option (\<lambda>r. (J_NUL, r)) (lit ''null'' (c # r)))
          else Some (jnum (c # r)))"
| "jarr_loop 0 acc s = None"
| "jarr_loop (Suc n) acc s =
     (case jval n s of
        None \<Rightarrow> None
      | Some None \<Rightarrow> Some None
      | Some (Some (v, s)) \<Rightarrow>
          (let acc = acc @ [v]; s = jws s
           in if s \<noteq> [] \<and> hd s = CHR '','' then jarr_loop n acc (tl s)
              else if s \<noteq> [] \<and> hd s = CHR '']'' then Some (Some (J_ARR acc, tl s))
              else Some None))"
| "jobj_loop 0 acc s = None"
| "jobj_loop (Suc n) acc s =
     (case jstr (jws s) of
        None \<Rightarrow> Some None
      | Some (k, s) \<Rightarrow>
          (let s = jws s
           in if s = [] \<or> hd s \<noteq> CHR '':'' then Some None
              else
                (case jval n (tl s) of
                   None \<Rightarrow> None
                 | Some None \<Rightarrow> Some None
                 | Some (Some (v, s)) \<Rightarrow>
                     (let acc = acc @ [(k, v)]; s = jws s
                      in if s \<noteq> [] \<and> hd s = CHR '','' then jobj_loop n acc (tl s)
                         else if s \<noteq> [] \<and> hd s = CHR ''}'' then Some (Some (J_OBJ acc, tl s))
                         else Some None))))"

definition jparse :: "string \<Rightarrow> J option" where
  "jparse s =
     (case jval (2 * length s + 1) s of
        Some (Some (j, r)) \<Rightarrow> if jws r = [] then Some j else None
      | _ \<Rightarrow> None)"

section \<open>The depth bound is enough\<close>

lemma jws_length: "length (jws s) \<le> length s"
  by (simp add: jws_def length_dropWhile_le)

lemma jstr_loop_length: "jstr_loop out s = Some (x, r) \<Longrightarrow> length r < length s"
proof (induction out s rule: jstr_loop.induct)
  case (2 out c s)
  have t: "length (tl s) \<le> length s" "length (drop 5 s) \<le> length s" by simp_all
  show ?case using 2 t by (fastforce simp: Let_def split: if_splits)
qed simp

lemma jstr_length: "jstr s = Some (x, r) \<Longrightarrow> length r < length s"
  using jstr_loop_length [of "[]" "tl s" x r] by (cases s) (auto simp: jstr_def split: if_splits)

lemma read_digits_count: "read_digits b a k s = (v, n) \<Longrightarrow> k \<le> n \<and> n \<le> k + length s"
proof (induction s arbitrary: a k)
  case (Cons c s)
  show ?case
  proof (cases "\<exists>d. digit_val c = Some d \<and> int d < b")
    case True
    then obtain d where "digit_val c = Some d" "int d < b" by blast
    then have "read_digits b (a * b + int d) (Suc k) s = (v, n)" using Cons.prems by simp
    from Cons.IH [OF this] show ?thesis by simp
  next
    case False
    then show ?thesis using Cons.prems by (auto split: option.splits if_splits)
  qed
qed simp

lemma read_mant_length: "read_mant b s = Some (m, r) \<Longrightarrow> length r < length s"
proof -
  assume a: "read_mant b s = Some (m, r)"
  obtain v1 n1 where d1: "read_digits b 0 0 s = (v1, n1)" by (cases "read_digits b 0 0 s")
  let ?t = "drop n1 s"
  obtain v n2 where d2: "read_digits b v1 0 (tl ?t) = (v, n2)" by (cases "read_digits b v1 0 (tl ?t)")
  have c: "n1 \<le> length s" "n2 \<le> length (tl ?t)" using read_digits_count [OF d1] read_digits_count [OF d2] by simp_all
  show ?thesis
  proof (cases "?t \<noteq> [] \<and> hd ?t = CHR ''.''")
    case True
    have "n1 < length s" using True by auto
    moreover have "r = drop n2 (tl ?t)" using a True by (auto simp: read_mant_def d1 d2 Let_def split: if_splits)
    ultimately show ?thesis by simp
  next
    case False
    then have "r = ?t" "n1 \<noteq> 0" using a by (auto simp: read_mant_def d1 Let_def split: if_splits)
    then show ?thesis using c by simp
  qed
qed

lemma read_sign_length: "read_sign s = (b, r) \<Longrightarrow> length r \<le> length s"
  by (cases s) (auto simp: read_sign_def split: if_splits)

lemma read_expo_length: "read_expo c s = (e, r) \<Longrightarrow> length r \<le> length s"
proof -
  assume a: "read_expo c s = (e, r)"
  obtain b t where t: "read_sign (tl s) = (b, t)" by (cases "read_sign (tl s)")
  have "length t \<le> length s" using read_sign_length [OF t] by simp
  moreover have "r = s \<or> (\<exists>n. r = drop n t)" using a by (auto simp: read_expo_def t Let_def split: if_splits prod.splits)
  ultimately show ?thesis by auto
qed

lemma read_number_length:
  assumes "read_number s = Some (x, r)"
  shows "length r < length s"
proof -
  have w: "word_prefix w s \<Longrightarrow> length w \<le> length s" for w
    unfolding word_prefix_def by (drule prefix_length_le) simp
  show ?thesis
  proof (cases "word_prefix ''inf'' s \<or> word_prefix ''infinity'' s \<or> word_prefix ''nan'' s")
    case True
    let ?t = "drop 3 s"
    have l: "3 \<le> length s" using True w [of "''inf''"] w [of "''infinity''"] w [of "''nan''"] by auto
    have u: "length (tl (dropWhile P (tl ?t))) \<le> length ?t" for P
      using length_dropWhile_le [of P "tl ?t"] by simp
    have "r = drop 8 s \<or> r = ?t \<or> (\<exists>P. r = tl (dropWhile P (tl ?t)))"
      using assms True by (auto simp: read_number_def Let_def split: if_splits)
    then show ?thesis
    proof (elim disjE exE)
      fix P assume "r = tl (dropWhile P (tl ?t))"
      then have "length r \<le> length ?t" using u by simp
      then show ?thesis using l by simp
    qed (use l in simp_all)
  next
    case False
    show ?thesis
    proof (cases "is_hex s")
      case True
      obtain m t e where m: "read_mant 16 (drop 2 s) = Some (m, t)" "read_expo CHR ''p'' t = (e, r)"
        using True False assms by (auto simp: read_number_def is_hex_def split: prod.splits)
      show ?thesis using read_mant_length [OF m(1)] read_expo_length [OF m(2)] by simp
    next
      case hex: False
      obtain m t e where m: "read_mant 10 s = Some (m, t)" "read_expo CHR ''e'' t = (e, r)"
        using False hex assms by (auto simp: read_number_def split: prod.splits option.splits)
      show ?thesis using read_mant_length [OF m(1)] read_expo_length [OF m(2)] by simp
    qed
  qed
qed

lemma strtod_length:
  assumes "strtod s = Some (x, r)"
  shows "length r < length s"
proof -
  obtain b t where t: "read_sign (skip_space s) = (b, t)" by (cases "read_sign (skip_space s)")
  have "length t \<le> length s"
    using read_sign_length [OF t] length_dropWhile_le [of c_isspace s] by (simp add: skip_space_def)
  moreover obtain y where "read_number t = Some (y, r)" using assms by (auto simp: strtod_def t)
  ultimately show ?thesis using read_number_length [of t y r] by simp
qed

lemma jnum_length: "jnum s = Some (j, r) \<Longrightarrow> length r < length s"
  using strtod_length by (auto simp: jnum_def)

lemma lit_length: "lit w s = Some r \<Longrightarrow> w \<noteq> [] \<Longrightarrow> length r < length s"
  by (cases w) (auto simp: lit_def split: if_splits dest!: prefix_length_le)

lemma jws_Cons_length: "jws s = c # r \<Longrightarrow> length r < length s"
  using jws_length [of s] by simp

lemma jval_shrinks:
  "jval n s = Some (Some (j, r)) \<Longrightarrow> length r < length s"
  "jarr_loop n acc s = Some (Some (j, r)) \<Longrightarrow> length r < length s"
  "jobj_loop n acc' s = Some (Some (j, r)) \<Longrightarrow> length r < length s"
proof (induction n s and n acc s and n acc' s arbitrary: j r and j r and j r rule: jval_jarr_loop_jobj_loop.induct)
  case (2 n s)
  show ?case
  proof (cases "jws s")
    case (Cons c t)
    have t: "length (jws t) \<le> length t" "length t < length s" using jws_length jws_Cons_length [OF Cons] by simp_all
    have tl: "length (tl (jws t)) \<le> length t" using t(1) by simp
    show ?thesis
    proof (cases "c = CHR ''{'' \<or> c = CHR ''[''")
      case True
      then show ?thesis using 2 Cons t tl by (fastforce simp: Let_def split: if_splits)
    next
      case False
      have "length (c # t) \<le> length s" using jws_length [of s] Cons by simp
      moreover have "length r < length (c # t)"
        using 2(3) Cons False jstr_length [of "c # t"] lit_length [of _ "c # t"] jnum_length [of "c # t"]
        by (auto split: if_splits)
      ultimately show ?thesis by simp
    qed
  qed (use 2 in simp)
next
  case (4 n acc s)
  obtain v s1 where v: "jval n s = Some (Some (v, s1))" using 4(3) by (auto split: option.splits)
  have l: "length s1 < length s" using 4(1) [OF v] .
  have t: "length (tl (jws s1)) \<le> length s1" using jws_length [of s1] by simp
  consider "jarr_loop n (acc @ [v]) (tl (jws s1)) = Some (Some (j, r))" "jws s1 \<noteq> [] \<and> hd (jws s1) = CHR '',''" | "r = tl (jws s1)"
    using 4(3) v by (auto simp: Let_def split: if_splits)
  then show ?case
  proof cases
    case 1
    have "length r < length (tl (jws s1))" by (rule 4(2) [OF v refl refl refl refl 1(2,1)])
    then show ?thesis using l t by simp
  qed (use l t in simp)
next
  case (6 n acc s)
  obtain k s0 where k: "jstr (jws s) = Some (k, s0)" using 6(3) by (auto split: option.splits)
  obtain v s1 where v: "jval n (tl (jws s0)) = Some (Some (v, s1))" "\<not> (jws s0 = [] \<or> hd (jws s0) \<noteq> CHR '':'')"
    using 6(3) k by (auto simp: Let_def split: option.splits if_splits)
  have l0: "length (tl (jws s0)) \<le> length s" using jstr_length [OF k] jws_length [of s] jws_length [of s0] by simp
  have l: "length s1 < length (tl (jws s0))" using 6(1) [OF k refl refl v(2,1)] .
  have t: "length (tl (jws s1)) \<le> length s1" using jws_length [of s1] by simp
  consider "jobj_loop n (acc @ [(k, v)]) (tl (jws s1)) = Some (Some (j, r))" "jws s1 \<noteq> [] \<and> hd (jws s1) = CHR '',''" | "r = tl (jws s1)"
    using 6(3) k v by (auto simp: Let_def split: if_splits)
  then show ?case
  proof cases
    case 1
    have "length r < length (tl (jws s1))" by (rule 6(2) [OF k refl refl v(2,1) refl refl refl refl 1(2,1)])
    then show ?thesis using l t l0 by simp
  qed (use l t l0 in simp)
qed simp_all

lemma jval_bounded:
  "2 * length s < n \<Longrightarrow> jval n s \<noteq> None"
  "2 * length s + 1 < n \<Longrightarrow> jarr_loop n acc s \<noteq> None"
  "2 * length s + 1 < n \<Longrightarrow> jobj_loop n acc' s \<noteq> None"
proof (induction n s and n acc s and n acc' s rule: jval_jarr_loop_jobj_loop.induct)
  case (2 n s)
  show ?case
  proof (cases "jws s")
    case (Cons c t)
    have "2 * length (jws t) + 1 < n" using 2(3) jws_length [of t] jws_Cons_length [OF Cons] by simp
    note len = this
    have o: "jobj_loop n [] (jws t) \<noteq> None" if "c = CHR ''{''" "\<not> (jws t \<noteq> [] \<and> hd (jws t) = CHR ''}'')"
      by (rule 2(1) [OF Cons that(1) refl that(2) len])
    have a: "jarr_loop n [] (jws t) \<noteq> None" if "c \<noteq> CHR ''{''" "c = CHR ''[''" "\<not> (jws t \<noteq> [] \<and> hd (jws t) = CHR '']'')"
      by (rule 2(2) [OF Cons that(1,2) refl that(3) len])
    show ?thesis
    proof (cases "c = CHR ''{''")
      case True
      then show ?thesis using o by (cases "jws t \<noteq> [] \<and> hd (jws t) = CHR ''}''") (simp_all add: Cons Let_def)
    next
      case False
      then show ?thesis using a by (cases "jws t \<noteq> [] \<and> hd (jws t) = CHR '']''") (simp_all add: Cons Let_def)
    qed
  qed simp
next
  case (4 n acc s)
  have "jval n s \<noteq> None" using 4(1,3) by simp
  then consider "jval n s = Some None" | v s1 where "jval n s = Some (Some (v, s1))" by force
  then show ?case
  proof cases
    case (2 w s1)
    show ?thesis
    proof (cases "jws s1 \<noteq> [] \<and> hd (jws s1) = CHR '',''")
      case True
      have "length (tl (jws s1)) < length s1" using True jws_length [of s1] by (cases "jws s1") simp_all
      then have "2 * length (tl (jws s1)) + 1 < n" using 4(3) jval_shrinks(1) [OF 2] by simp
      then have "jarr_loop n (acc @ [w]) (tl (jws s1)) \<noteq> None" by (rule 4(2) [OF 2 refl refl refl refl True])
      then show ?thesis using 2 True by (simp add: Let_def)
    qed (auto simp: 2 Let_def)
  qed simp
next
  case (6 n acc s)
  show ?case
  proof (cases "jstr (jws s)")
    case (Some p)
    obtain k s0 where k: "jstr (jws s) = Some (k, s0)" using Some by (cases p) simp
    show ?thesis
    proof (cases "jws s0 = [] \<or> hd (jws s0) \<noteq> CHR '':''")
      case False
      have l0: "length (tl (jws s0)) < length s" using False jstr_length [OF k] jws_length [of s] jws_length [of s0] by simp
      then have "2 * length (tl (jws s0)) < n" using 6(3) by simp
      then have "jval n (tl (jws s0)) \<noteq> None" by (rule 6(1) [OF k refl refl False])
      then consider "jval n (tl (jws s0)) = Some None" | v s1 where "jval n (tl (jws s0)) = Some (Some (v, s1))" by force
      then show ?thesis
      proof cases
        case (2 w s1)
        show ?thesis
        proof (cases "jws s1 \<noteq> [] \<and> hd (jws s1) = CHR '',''")
          case True
          have "length (tl (jws s1)) < length s1" using True jws_length [of s1] by (cases "jws s1") simp_all
          then have "2 * length (tl (jws s1)) + 1 < n" using 6(3) l0 jval_shrinks(1) [OF 2] by simp
          then have "jobj_loop n (acc @ [(k, w)]) (tl (jws s1)) \<noteq> None"
            by (rule 6(2) [OF k refl refl False 2 refl refl refl refl True])
          then show ?thesis using k False 2 True by (simp add: Let_def)
        qed (auto simp: k False 2 Let_def)
      qed (use k False in \<open>simp add: Let_def\<close>)
    qed (simp add: k Let_def)
  qed simp
qed simp_all

section \<open>Printing and parsing back\<close>

text \<open>The plain way to print a value: only quotes and backslashes are escaped, and numbers are whole.\<close>

definition jquote :: "string \<Rightarrow> string" where
  "jquote s = concat (map (\<lambda>c. if c = DQ \<or> c = BSL then [BSL, c] else [c]) s)"

fun comma_sep :: "string list \<Rightarrow> string" where
  "comma_sep [] = []"
| "comma_sep [x] = x"
| "comma_sep (x # y # ys) = x @ CHR '','' # comma_sep (y # ys)"

fun jprint :: "J \<Rightarrow> string" where
  "jprint J_NUL = ''null''"
| "jprint (J_BOOL b) = (if b then ''true'' else ''false'')"
| "jprint (J_NUM x) = (case x of Fin q \<Rightarrow> itoa [] \<lfloor>q\<rfloor> | _ \<Rightarrow> ''null'')"
| "jprint (J_STR s) = DQ # jquote s @ [DQ]"
| "jprint (J_ARR js) = CHR ''['' # comma_sep (map jprint js) @ '']''"
| "jprint (J_OBJ kvs) = CHR ''{'' # comma_sep (map (\<lambda>(k, v). DQ # jquote k @ DQ # CHR '':'' # jprint v) kvs) @ ''}''"

fun whole :: "J \<Rightarrow> bool" where
  "whole (J_NUM x) = (case x of Fin q \<Rightarrow> q = of_int \<lfloor>q\<rfloor> \<and> \<bar>\<lfloor>q\<rfloor>\<bar> < 2 ^ 53 | _ \<Rightarrow> False)"
| "whole (J_ARR js) = list_all whole js"
| "whole (J_OBJ kvs) = list_all (\<lambda>(k, v). whole v) kvs"
| "whole _ = True"

lemma jws_id: "s = [] \<or> hd s \<notin> {CHR '' '', CHR 0x09, NL, CHR 0x0D} \<Longrightarrow> jws s = s"
  by (cases s) (auto simp: jws_def)

lemma jstr_loop_quote: "jstr_loop out (jquote x @ DQ # r) = Some (out @ x, r)"
  by (induction x arbitrary: out) (auto simp: jquote_def)

lemma jstr_quote: "jstr (DQ # jquote x @ DQ # r) = Some (x, r)"
  by (simp add: jstr_def jstr_loop_quote)

definition closes :: "string \<Rightarrow> bool" where
  "closes s \<longleftrightarrow> s = [] \<or> hd s \<in> {CHR '','', CHR '']'', CHR ''}'', CHR '' '', CHR 0x09, NL, CHR 0x0D}"

lemma closes_no_number: "closes s \<Longrightarrow> no_number s"
  by (cases s) (auto simp: closes_def no_number_def no_digit_def digit_val_def lower_def)

lemma itoa_hd:
  "itoa [] n = c # r \<Longrightarrow> c = CHR ''-'' \<or> (\<exists>d < 10. c = digit_chr d)"
  using itoa_chars [of c n] by simp

lemma digit_chr_chars: "d < 10 \<Longrightarrow> digit_chr d \<in> set ''0123456789''"
proof -
  have "list_all (\<lambda>d. digit_chr d \<in> set ''0123456789'') [0..<10]" by code_simp
  then show "d < 10 \<Longrightarrow> digit_chr d \<in> set ''0123456789''" unfolding list_all_iff by auto
qed

lemma jprint_hd:
  assumes "whole j"
  shows "jprint j \<noteq> []" "hd (jprint j) \<in> set ''ntf-0123456789[{'' \<or> hd (jprint j) = DQ"
proof -
  have i: "hd (itoa [] n) \<in> insert (CHR ''-'') (set ''0123456789'')" for n
  proof -
    have "hd (itoa [] n) = CHR ''-'' \<or> (\<exists>d < 10. hd (itoa [] n) = digit_chr d)"
      using itoa_hd [of n "hd (itoa [] n)" "tl (itoa [] n)"] by simp
    then show ?thesis using digit_chr_chars by (metis insertI1 insertI2)
  qed
  have "jprint j \<noteq> [] \<and> (hd (jprint j) \<in> set ''ntf-0123456789[{'' \<or> hd (jprint j) = DQ)"
  proof (cases j)
    case (J_NUM x)
    then obtain q where "x = Fin q" using assms by (cases x) simp_all
    then show ?thesis using J_NUM i [of "\<lfloor>q\<rfloor>"] by (simp, blast)
  qed auto
  then show "jprint j \<noteq> []" "hd (jprint j) \<in> set ''ntf-0123456789[{'' \<or> hd (jprint j) = DQ" by blast+
qed

lemma jws_jprint: "whole j \<Longrightarrow> jws (jprint j @ s) = jprint j @ s"
  using jprint_hd [of j] by (intro jws_id) auto

lemma comma_sep_Cons: "comma_sep (x # xs) = x @ (if xs = [] then [] else CHR '','' # comma_sep xs)"
  by (cases xs) simp_all

definition reads_back :: "J \<Rightarrow> bool" where
  "reads_back j \<longleftrightarrow>
     (\<forall>n s. 2 * length (jprint j) < n \<longrightarrow> closes s \<longrightarrow> jval n (jprint j @ s) = Some (Some (j, s)))"

lemma reads_backD:
  "reads_back j \<Longrightarrow> 2 * length (jprint j) < n \<Longrightarrow> closes s \<Longrightarrow> jval n (jprint j @ s) = Some (Some (j, s))"
  by (simp add: reads_back_def)

lemma reads_backI:
  assumes "\<And>m s. closes s \<Longrightarrow> jval (Suc m) (jprint j @ s) = Some (Some (j, s))"
  shows "reads_back j"
  unfolding reads_back_def
proof (intro allI impI)
  fix n s
  assume "2 * length (jprint j) < n" and "closes s"
  then show "jval n (jprint j @ s) = Some (Some (j, s))" using assms [of s "n - 1"] by (cases n) simp_all
qed

lemma closes_simps [simp]: "closes []" "closes (CHR '','' # s)" "closes (CHR '']'' # s)" "closes (CHR ''}'' # s)"
  by (simp_all add: closes_def)

lemma jws_closes [simp]: "jws (CHR '','' # s) = CHR '','' # s" "jws (CHR '']'' # s) = CHR '']'' # s"
    "jws (CHR ''}'' # s) = CHR ''}'' # s" "jws (DQ # s) = DQ # s" "jws (CHR '':'' # s) = CHR '':'' # s"
    "jws (CHR ''['' # s) = CHR ''['' # s" "jws (CHR ''{'' # s) = CHR ''{'' # s"
  by (simp_all add: jws_def)

lemma jarr_loop_print:
  assumes "list_all reads_back js" and "js \<noteq> []" and "2 * length (comma_sep (map jprint js)) + 1 < n"
  shows "jarr_loop n acc (comma_sep (map jprint js) @ CHR '']'' # s) = Some (Some (J_ARR (acc @ js), s))"
  using assms
proof (induction js arbitrary: n acc)
  case (Cons j js)
  let ?rest = "if js = [] then CHR '']'' # s else CHR '','' # comma_sep (map jprint js) @ CHR '']'' # s"
  obtain m where n: "n = Suc m" using Cons.prems(3) by (cases n) simp_all
  have t: "comma_sep (map jprint (j # js)) @ CHR '']'' # s = jprint j @ ?rest" by (simp add: comma_sep_Cons)
  have v: "jval m (jprint j @ ?rest) = Some (Some (j, ?rest))"
    using Cons.prems(1,3) by (intro reads_backD) (simp_all add: n comma_sep_Cons split: if_splits)
  show ?case
  proof (cases "js = []")
    case True
    then show ?thesis using v by (simp add: n)
  next
    case False
    have "jarr_loop m (acc @ [j]) (comma_sep (map jprint js) @ CHR '']'' # s) = Some (Some (J_ARR ((acc @ [j]) @ js), s))"
      using Cons.prems(1,3) False by (intro Cons.IH) (simp_all add: n comma_sep_Cons)
    then show ?thesis unfolding t using v False by (simp add: n)
  qed
qed simp

definition jmember :: "string \<times> J \<Rightarrow> string" where
  "jmember kv = DQ # jquote (fst kv) @ DQ # CHR '':'' # jprint (snd kv)"

lemma jprint_OBJ: "jprint (J_OBJ kvs) = CHR ''{'' # comma_sep (map jmember kvs) @ ''}''"
proof -
  have "(\<lambda>(k, v). DQ # jquote k @ DQ # CHR '':'' # jprint v) = jmember" by (auto simp: jmember_def fun_eq_iff)
  then show ?thesis by simp
qed

lemma jobj_loop_print:
  assumes "list_all (\<lambda>(k, v). reads_back v) kvs" and "kvs \<noteq> []" and "2 * length (comma_sep (map jmember kvs)) + 1 < n"
  shows "jobj_loop n acc (comma_sep (map jmember kvs) @ CHR ''}'' # s) = Some (Some (J_OBJ (acc @ kvs), s))"
  using assms
proof (induction kvs arbitrary: n acc)
  case (Cons kv kvs)
  obtain k v where kv: "kv = (k, v)" by force
  let ?rest = "if kvs = [] then CHR ''}'' # s else CHR '','' # comma_sep (map jmember kvs) @ CHR ''}'' # s"
  obtain m where n: "n = Suc m" using Cons.prems(3) by (cases n) simp_all
  have t: "comma_sep (map jmember (kv # kvs)) @ CHR ''}'' # s = DQ # jquote k @ DQ # CHR '':'' # jprint v @ ?rest"
    by (simp add: comma_sep_Cons jmember_def kv)
  have v: "jval m (jprint v @ ?rest) = Some (Some (v, ?rest))"
    using Cons.prems(1,3) by (intro reads_backD) (simp_all add: n comma_sep_Cons jmember_def kv split: if_splits)
  show ?case
  proof (cases "kvs = []")
    case True
    then show ?thesis unfolding t using v by (simp add: n kv jstr_quote)
  next
    case False
    have "jobj_loop m (acc @ [(k, v)]) (comma_sep (map jmember kvs) @ CHR ''}'' # s) = Some (Some (J_OBJ ((acc @ [(k, v)]) @ kvs), s))"
      using Cons.prems(1,3) False by (intro Cons.IH) (simp_all add: n kv comma_sep_Cons jmember_def)
    then show ?thesis unfolding t using v False by (simp add: n kv jstr_quote)
  qed
qed simp

lemma jws_jprint_Cons: "whole j \<Longrightarrow> \<exists>c r. jws (jprint j @ s) = c # r \<and> jprint j @ s = c # r \<and> (c \<in> set ''ntf-0123456789[{'' \<or> c = DQ)"
  using jprint_hd [of j] jws_jprint [of j s] by (cases "jprint j") auto

lemma jprint_reads_back: "whole j \<Longrightarrow> reads_back j"
proof (induction j rule: jprint.induct)
  case (3 x)
  obtain q where q: "x = Fin q" "q = of_int \<lfloor>q\<rfloor>" "\<bar>\<lfloor>q\<rfloor>\<bar> < 2 ^ 53" using 3 by (cases x) auto
  have "jval n (jprint (J_NUM x) @ s) = Some (Some (J_NUM x, s))" if n: "2 * length (jprint (J_NUM x)) < n" and s: "closes s" for n s
  proof -
    obtain m where m: "n = Suc m" using n by (cases n) simp_all
    obtain c r where c: "jws (jprint (J_NUM x) @ s) = c # r" "jprint (J_NUM x) @ s = c # r"
      using jws_jprint_Cons [OF 3] by blast
    have "itoa [] \<lfloor>q\<rfloor> = c # tl (itoa [] \<lfloor>q\<rfloor>)" using c(2) q(1) by (cases "itoa [] \<lfloor>q\<rfloor>") simp_all
    then have "c = CHR ''-'' \<or> (\<exists>d < 10. c = digit_chr d)" by (rule itoa_hd)
    then have "c \<in> insert (CHR ''-'') (set ''0123456789'')" using digit_chr_chars by (metis insertI1 insertI2)
    then have k: "c \<notin> {CHR ''{'', CHR ''['', DQ, CHR ''t'', CHR ''f'', CHR ''n''}" by auto
    have "jnum (c # r) = Some (J_NUM (Fin (of_int \<lfloor>q\<rfloor>)), s)"
      using strtod_itoa [OF q(3) closes_no_number [OF s]] c(2) q(1) by (simp add: jnum_def)
    then show ?thesis using k c(1) q(1,2) by (simp add: m)
  qed
  then show ?case by (simp add: reads_back_def)
next
  case (4 x)
  show ?case by (rule reads_backI) (simp add: jstr_quote)
next
  case (5 js)
  have js: "list_all reads_back js" using 5 by (auto simp: list_all_iff)
  have "jval n (jprint (J_ARR js) @ s) = Some (Some (J_ARR js, s))" if n: "2 * length (jprint (J_ARR js)) < n" for n s
  proof -
    obtain m where m: "n = Suc m" "2 * length (comma_sep (map jprint js)) + 1 < m" using n by (cases n) simp_all
    show ?thesis
    proof (cases js)
      case Nil
      then show ?thesis by (simp add: m)
    next
      case (Cons j ks)
      let ?t = "comma_sep (map jprint js) @ CHR '']'' # s"
      obtain u where u: "?t = jprint j @ u" by (simp add: Cons comma_sep_Cons)
      have "whole j" using 5 Cons by simp
      from jws_jprint_Cons [OF this, of u] obtain c r
        where c: "jws ?t = ?t" "?t = c # r" "c \<in> set ''ntf-0123456789[{'' \<or> c = DQ" unfolding u by (metis (no_types))
      then have "c \<noteq> CHR '']''" by auto
      have "jarr_loop m [] ?t = Some (Some (J_ARR js, s))" using jarr_loop_print [OF js _ m(2), of "[]" s] Cons by simp
      then show ?thesis using c(1,2) \<open>c \<noteq> CHR '']''\<close> m(1) by (simp add: Let_def)
    qed
  qed
  then show ?case by (simp add: reads_back_def)
next
  case (6 kvs)
  have kvs: "list_all (\<lambda>(k, v). reads_back v) kvs" using 6 by (fastforce simp: list_all_iff)
  have "jval n (jprint (J_OBJ kvs) @ s) = Some (Some (J_OBJ kvs, s))" if n: "2 * length (jprint (J_OBJ kvs)) < n" for n s
  proof -
    obtain m where m: "n = Suc m" "2 * length (comma_sep (map jmember kvs)) + 1 < m" using n unfolding jprint_OBJ by (cases n) simp_all
    show ?thesis
    proof (cases kvs)
      case Nil
      then show ?thesis by (simp add: m)
    next
      case (Cons kv ks)
      let ?t = "comma_sep (map jmember kvs) @ CHR ''}'' # s"
      obtain u where u: "?t = DQ # u" by (simp add: Cons comma_sep_Cons jmember_def)
      have "jobj_loop m [] ?t = Some (Some (J_OBJ kvs, s))" using jobj_loop_print [OF kvs _ m(2), of "[]" s] Cons by simp
      then show ?thesis unfolding jprint_OBJ using u m(1) by (simp add: Let_def)
    qed
  qed
  then show ?case by (simp add: reads_back_def)
qed (auto intro!: reads_backI simp: lit_def jws_def)

lemma jparse_jprint: "whole j \<Longrightarrow> jparse (jprint j) = Some j"
  using reads_backD [OF jprint_reads_back, of j "2 * length (jprint j) + 1" "[]"] by (simp add: jparse_def closes_def jws_def)

text \<open>
  C11: The request parser reads back what a plain JSON printer writes: for any value whose numbers are whole
  and below \<open>2\<^sup>5\<^sup>3\<close>, of any depth, parsing its print gives the value itself, white space around it
  allowed.
\<close>

theorem json_round_trip:
  assumes "whole j" and "list_all (\<lambda>c. c \<in> {CHR '' '', CHR 0x09, NL, CHR 0x0D}) ws"
  shows "jparse (jprint j @ ws) = Some j"
proof -
  have c: "closes ws" using assms(2) by (cases ws) (auto simp: closes_def)
  have "jval (2 * length (jprint j @ ws) + 1) (jprint j @ ws) = Some (Some (j, ws))"
    by (rule reads_backD [OF jprint_reads_back [OF assms(1)] _ c]) simp
  moreover have "jws ws = []" using assms(2) by (auto simp: jws_def list_all_iff)
  ultimately show ?thesis by (simp add: jparse_def)
qed

theorem json_round_trip_witness:
  "jparse (jprint (J_OBJ [(''url'', J_STR ''http://x/a\"b''), (''n'', J_ARR [J_NUM (Fin 42), J_BOOL True, J_NUL])]) @ '' '') =
     Some (J_OBJ [(''url'', J_STR ''http://x/a\"b''), (''n'', J_ARR [J_NUM (Fin 42), J_BOOL True, J_NUL])])"
  by (rule json_round_trip) simp_all

text \<open>
  Parsing always ends: on an input of length \<open>n\<close> the calls of the parser nest at most \<open>2n + 1\<close> deep,
  every value it delivers consumes at least one character, and the answer is an accepted or a
  rejected input, never an unfinished one.
\<close>

lemma jparse_total:
  "jval (2 * length s + 1) s \<noteq> None \<and>
   (\<forall>j r. jval n s = Some (Some (j, r)) \<longrightarrow> length r < length s)"
  using jval_bounded(1) [of s "2 * length s + 1"] jval_shrinks(1) [of n s] by auto

end
