(* ===== verification/Metrics.thy ===== *)
theory Metrics
  imports Double "HOL-Library.Signed_Division"
begin

text \<open>
  The counters of \<^verbatim>\<open>src/src/metrics.cpp\<close>: a ring of sixty one-second buckets with its JSON view, and
  the counters of the Prometheus page. The number of links is kept with the engine
  (\<open>links_total\<close> of \<^verbatim>\<open>Index\<close>). The window of the last seconds is proved right.
\<close>

section \<open>Definitions\<close>

definition N_BUCKETS :: nat where
  "N_BUCKETS = 60"

record metrics =
  BUCKETS :: "i64 list"
  CUR :: i64
  TOTAL :: i64
  STARTED :: i64
  OP_COUNTS :: "i64 list"
  STATUS :: "i64 list"
  CACHE_HIT :: i64
  CACHE_MISS :: i64
  STORE_READS :: i64
  STORE_READ_US :: i64
  STORE_WRITES :: i64

definition OPS :: "string list" where
  "OPS = [''redirect'', ''shorten'', ''shorten_bulk'', ''update'', ''delete'', ''list'', ''stats'', ''health'',
     ''metrics'', ''ui'', ''other'']"

definition metrics0 :: metrics where
  "metrics0 = \<lparr>BUCKETS = replicate N_BUCKETS 0, CUR = 0, TOTAL = 0, STARTED = 0, OP_COUNTS = replicate 11 0,
     STATUS = replicate 4 0, CACHE_HIT = 0, CACHE_MISS = 0, STORE_READS = 0, STORE_READ_US = 0, STORE_WRITES = 0\<rparr>"

definition bump :: "nat \<Rightarrow> i64 list \<Rightarrow> i64 list" where
  "bump i xs = xs[i := add64 (xs ! i) 1]"

text \<open>The operations by their numbers in \<^verbatim>\<open>metrics.hpp\<close>.\<close>

definition OP_REDIRECT :: nat where "OP_REDIRECT = 0"
definition OP_SHORTEN :: nat where "OP_SHORTEN = 1"
definition OP_BULK :: nat where "OP_BULK = 2"
definition OP_UPDATE :: nat where "OP_UPDATE = 3"
definition OP_DELETE :: nat where "OP_DELETE = 4"
definition OP_LIST :: nat where "OP_LIST = 5"
definition OP_STATS :: nat where "OP_STATS = 6"
definition OP_HEALTH :: nat where "OP_HEALTH = 7"
definition OP_METRICS :: nat where "OP_METRICS = 8"
definition OP_UI :: nat where "OP_UI = 9"
definition OP_OTHER :: nat where "OP_OTHER = 10"

definition count_op :: "nat \<Rightarrow> metrics \<Rightarrow> metrics" where
  "count_op i m = m\<lparr>OP_COUNTS := bump i (OP_COUNTS m)\<rparr>"

definition status_class :: "int \<Rightarrow> nat" where
  "status_class code =
     (if 200 \<le> code \<and> code < 300 then 0 else if 300 \<le> code \<and> code < 400 then 1
      else if 400 \<le> code \<and> code < 500 then 2 else 3)"

definition count_status :: "int \<Rightarrow> metrics \<Rightarrow> metrics" where
  "count_status code m = m\<lparr>STATUS := bump (status_class code) (STATUS m)\<rparr>"

definition cache_hit :: "metrics \<Rightarrow> metrics" where
  "cache_hit m = m\<lparr>CACHE_HIT := add64 (CACHE_HIT m) 1\<rparr>"

definition cache_miss :: "metrics \<Rightarrow> metrics" where
  "cache_miss m = m\<lparr>CACHE_MISS := add64 (CACHE_MISS m) 1\<rparr>"

definition store_read :: "i64 \<Rightarrow> metrics \<Rightarrow> metrics" where
  "store_read us m = m\<lparr>STORE_READS := add64 (STORE_READS m) 1, STORE_READ_US := add64 (STORE_READ_US m) us\<rparr>"

definition store_write :: "metrics \<Rightarrow> metrics" where
  "store_write m = m\<lparr>STORE_WRITES := add64 (STORE_WRITES m) 1\<rparr>"

definition init :: "i64 \<Rightarrow> metrics \<Rightarrow> metrics" where
  "init ms m = m\<lparr>STARTED := ms, CUR := ms sdiv 1000\<rparr>"

text \<open>
  The slot of a second. Clock readings count from 1970, so the remainder is that of a number that is
  not negative.
\<close>

definition slot :: "i64 \<Rightarrow> nat" where
  "slot t = nat (t mod int N_BUCKETS)"

text \<open>
  \<^verbatim>\<open>tick\<close> with \<open>c\<close> the value it has loaded from \<^verbatim>\<open>CUR\<close>: another thread may have moved \<^verbatim>\<open>CUR\<close> on
  since, and then the exchange fails.
\<close>

definition tick_loaded :: "i64 \<Rightarrow> i64 \<Rightarrow> metrics \<Rightarrow> metrics" where
  "tick_loaded now c m =
     (let m = m\<lparr>TOTAL := add64 (TOTAL m) 1\<rparr>;
          s = now sdiv 1000;
          (sec, m) =
            (if s \<noteq> c then
               (if CUR m = c
                then (s, m\<lparr>CUR := s, BUCKETS := fold (\<lambda>t b. b[slot t := 0]) [c + 1..s] (BUCKETS m)\<rparr>)
                else (CUR m, m))
             else (s, m))
      in m\<lparr>BUCKETS := bump (slot sec) (BUCKETS m)\<rparr>)"

definition tick :: "i64 \<Rightarrow> metrics \<Rightarrow> metrics" where
  "tick now m = tick_loaded now (CUR m) m"

definition window :: "i64 \<Rightarrow> metrics \<Rightarrow> i64 list" where
  "window s m =
     map (\<lambda>i. let t = s - 30 + int i
              in if t \<le> CUR m \<and> CUR m - t < int N_BUCKETS then BUCKETS m ! slot t else 0) [0..<31]"

subsection \<open>Printing\<close>

text \<open>\<^verbatim>\<open>std::round\<close>: to the nearest whole number, halves away from zero.\<close>

definition dround :: "dbl \<Rightarrow> dbl" where
  "dround x = (case x of Fin q \<Rightarrow> Fin (of_int (if q < 0 then - \<lfloor>- q + 1 / 2\<rfloor> else \<lfloor>q + 1 / 2\<rfloor>)) | y \<Rightarrow> y)"

text \<open>
  \<^verbatim>\<open>%g\<close>: six significant digits, without trailing zeros, in positional notation for exponents from
  -4 to 5 and in scientific notation otherwise.
\<close>

definition dec_expo :: "rat \<Rightarrow> int" where
  "dec_expo q =
     (if 1 \<le> q then int (length (dec_digits (nat \<lfloor>q\<rfloor>))) - 1
      else - int (length (dec_digits (nat (\<lceil>1 / q\<rceil> - 1)))))"

definition strip_zeros :: "string \<Rightarrow> string" where
  "strip_zeros s = rev (dropWhile (\<lambda>c. c = CHR ''0'') (rev s))"

definition point :: "string \<Rightarrow> string \<Rightarrow> string" where
  "point a b = (let b = strip_zeros b in if b = [] then a else a @ ''.'' @ b)"

definition fmt_pos :: "rat \<Rightarrow> string" where
  "fmt_pos q =
     (let x = dec_expo q;
          n = nat (half_even (q * 10 powi (5 - x)));
          (x, n) = (if n = 10 ^ 6 then (x + 1, 10 ^ 5) else (x, n));
          ds = dec_digits n
      in if - 4 \<le> x \<and> x < 0 then point ''0'' (replicate (nat (- x - 1)) CHR ''0'' @ ds)
         else if 0 \<le> x \<and> x < 6 then point (take (nat x + 1) ds) (drop (nat x + 1) ds)
         else
           (let e = dec_digits (nat \<bar>x\<bar>)
            in point (take 1 ds) (drop 1 ds) @ ''e'' @ (if x < 0 then ''-'' else ''+'') @
               (if length e < 2 then ''0'' else []) @ e))"

definition fmt_g :: "dbl \<Rightarrow> string" where
  "fmt_g x =
     (case x of
        Fin q \<Rightarrow> if q = 0 then ''0'' else if q < 0 then ''-'' @ fmt_pos (- q) else fmt_pos q
      | Infin neg \<Rightarrow> if neg then ''-inf'' else ''inf''
      | NaN \<Rightarrow> ''nan'')"

definition req_s :: "i64 list \<Rightarrow> dbl" where
  "req_s w =
     (let last5 = fold (\<lambda>i a. add64 a (w ! i)) [25..<30] 0
      in ddiv (dround (dmul (ddiv (of_i64 last5) 5) (Fin 10))) 10)"

fun csv :: "string \<Rightarrow> i64 list \<Rightarrow> string" where
  "csv b [] = b"
| "csv b [x] = itoa b x"
| "csv b (x # xs) = csv (itoa b x @ '','') xs"

text \<open>The clock is read twice: \<open>now\<close> for the window, \<open>now2\<close> for the uptime.\<close>

definition snapshot :: "i64 \<Rightarrow> i64 \<Rightarrow> metrics \<Rightarrow> string" where
  "snapshot now now2 m =
     (let w = window (now sdiv 1000) m;
          b = ''{\"req_s\":'' @ fmt_g (req_s w);
          b = itoa (b @ '',\"total\":'') (TOTAL m);
          b = itoa (b @ '',\"uptime_s\":'') ((now2 - STARTED m) sdiv 1000);
          b = csv (b @ '',\"per_second\":['') w
      in b @ '']}'')"

definition pline :: "string \<Rightarrow> string \<Rightarrow> i64 \<Rightarrow> string" where
  "pline m labels v = itoa (m @ (if labels \<noteq> [] then ''{'' @ labels @ ''}'' else []) @ '' '') v @ [NL]"

definition comment :: "string \<Rightarrow> string \<Rightarrow> string \<Rightarrow> string" where
  "comment name help kind = ''# HELP '' @ name @ '' '' @ help @ [NL] @ ''# TYPE '' @ name @ '' '' @ kind @ [NL]"

definition quoted :: "string \<Rightarrow> string \<Rightarrow> string" where
  "quoted k v = k @ ''=\"'' @ v @ ''\"''"

definition prometheus :: "i64 \<Rightarrow> i64 \<Rightarrow> i64 \<Rightarrow> metrics \<Rightarrow> string" where
  "prometheus rate_limited links now m =
     comment ''shrt_requests_total'' ''Requests by operation'' ''counter'' @
     concat (map (\<lambda>i. pline ''shrt_requests_total'' (quoted ''op'' (OPS ! i)) (OP_COUNTS m ! i)) [0..<11]) @
     comment ''shrt_responses_total'' ''Responses by status class'' ''counter'' @
     concat (map (\<lambda>i. pline ''shrt_responses_total'' (quoted ''class'' ([''2xx'', ''3xx'', ''4xx'', ''5xx''] ! i)) (STATUS m ! i)) [0..<4]) @
     comment ''shrt_cache_lookups_total'' ''Local hot-cache lookups'' ''counter'' @
     pline ''shrt_cache_lookups_total'' (quoted ''result'' ''hit'') (CACHE_HIT m) @
     pline ''shrt_cache_lookups_total'' (quoted ''result'' ''miss'') (CACHE_MISS m) @
     comment ''shrt_store_reads_total'' ''Backing-store point reads (cache misses)'' ''counter'' @
     pline ''shrt_store_reads_total'' [] (STORE_READS m) @
     comment ''shrt_store_read_us_total'' ''Cumulative backing-store read latency (us)'' ''counter'' @
     pline ''shrt_store_read_us_total'' [] (STORE_READ_US m) @
     comment ''shrt_store_writes_total'' ''Backing-store writes'' ''counter'' @
     pline ''shrt_store_writes_total'' [] (STORE_WRITES m) @
     comment ''shrt_rate_limited_total'' ''Requests rejected by the rate limiter'' ''counter'' @
     pline ''shrt_rate_limited_total'' [] rate_limited @
     comment ''shrt_links_total'' ''Live links created minus deleted'' ''gauge'' @
     pline ''shrt_links_total'' [] links @
     comment ''shrt_uptime_seconds'' ''Process uptime'' ''gauge'' @
     pline ''shrt_uptime_seconds'' [] ((now - STARTED m) sdiv 1000)"

section \<open>The window of the last seconds\<close>

definition second :: "i64 \<Rightarrow> i64" where
  "second ms = ms sdiv 1000"

definition hits_in :: "i64 \<Rightarrow> i64 list \<Rightarrow> i64" where
  "hits_in t ticks = int (length (filter (\<lambda>ms. second ms = t) ticks))"

lemma second_eq: "0 \<le> ms \<Longrightarrow> second ms = ms div 1000"
  by (cases "ms = 0") (simp_all add: second_def signed_divide_int_def)

lemma slot_less: "slot t < N_BUCKETS"
  by (simp add: slot_def N_BUCKETS_def nat_less_iff)

lemma slot_eq_iff: "slot t = slot t' \<longleftrightarrow> t mod 60 = t' mod 60"
  by (auto simp: slot_def N_BUCKETS_def nat_eq_iff2)

text \<open>Seconds less than a minute apart have different slots.\<close>

lemma slot_neq: "t < t' \<Longrightarrow> t' < t + 60 \<Longrightarrow> slot t \<noteq> slot t'"
proof
  assume a: "t < t'" "t' < t + 60" and "slot t = slot t'"
  then have "(t' - t) mod 60 = 0" by (simp only: slot_eq_iff) (metis mod_eq_dvd_iff mod_0_imp_dvd dvd_imp_mod_0)
  moreover have "(t' - t) mod 60 = t' - t" using a by (intro mod_pos_pos_trivial) simp_all
  ultimately show False using a by simp
qed

lemma length_clear [simp]: "length (fold (\<lambda>t b. b[slot t := 0]) ts b) = length b"
  by (induction ts arbitrary: b) simp_all

lemma clear_slots:
  "k < length b \<Longrightarrow> fold (\<lambda>t b. b[slot t := 0]) ts b ! k = (if k \<in> slot ` set ts then 0 else b ! k)"
  by (induction ts arbitrary: b) (auto simp: nth_list_update)

definition counted :: "i64 list \<Rightarrow> metrics \<Rightarrow> bool" where
  "counted ticks m \<longleftrightarrow> length (BUCKETS m) = N_BUCKETS \<and> TOTAL m = int (length ticks) \<and>
     list_all (\<lambda>ms. second ms \<le> CUR m) ticks \<and>
     (\<forall>t. CUR m - 60 < t \<and> t \<le> CUR m \<longrightarrow> BUCKETS m ! slot t = hits_in t ticks)"

lemma hits_in_bound: "hits_in t ticks \<le> int (length ticks)" "0 \<le> hits_in t ticks"
  by (simp_all add: hits_in_def)

lemma counted_tick:
  assumes "counted ticks m" and "0 \<le> now" and "CUR m \<le> second now" and "int (length ticks) < 2 ^ 63 - 1"
  shows "counted (ticks @ [now]) (tick now m)" "CUR (tick now m) = second now"
proof -
  let ?s = "second now" and ?c = "CUR m"
  let ?b = "if ?s \<noteq> ?c then fold (\<lambda>t b. b[slot t := 0]) [?c + 1..?s] (BUCKETS m) else BUCKETS m"
  have t: "tick now m = m\<lparr>TOTAL := add64 (TOTAL m) 1, CUR := ?s, BUCKETS := bump (slot ?s) ?b\<rparr>"
    by (simp add: tick_def tick_loaded_def Let_def second_def)
  have len: "length ?b = N_BUCKETS" using assms(1) by (simp add: counted_def)
  have old: "?b ! slot u = hits_in u ticks" if u: "?s - 60 < u" "u \<le> ?s" for u
  proof (cases "u \<le> ?c")
    case True
    have "slot u \<noteq> slot v" if "v \<in> set [?c + 1..?s]" for v using that u True by (intro slot_neq) auto
    then have "slot u \<notin> slot ` set [?c + 1..?s]" by blast
    then have "?b ! slot u = BUCKETS m ! slot u"
      using clear_slots [of "slot u" "BUCKETS m"] slot_less [of u] assms(1) by (simp add: counted_def)
    then show ?thesis using assms(1,3) u True by (simp add: counted_def)
  next
    case False
    have "u \<in> set [?c + 1..?s]" using False u by simp
    then have "?b ! slot u = 0"
      using clear_slots [of "slot u" "BUCKETS m"] slot_less [of u] assms(1) False u by (auto simp: counted_def)
    moreover have "hits_in u ticks = 0" using assms(1) False by (auto simp: hits_in_def counted_def list_all_iff filter_empty_conv)
    ultimately show ?thesis by simp
  qed
  have new: "bump (slot ?s) ?b ! slot u = hits_in u (ticks @ [now])" if u: "?s - 60 < u" "u \<le> ?s" for u
  proof (cases "u = ?s")
    case True
    have "in_i64 (hits_in u ticks + 1)" using assms(4) hits_in_bound [of u ticks] by (simp add: in_i64_def)
    then show ?thesis using True old [OF u] slot_less [of u] len
      by (simp add: bump_def add64_exact) (simp add: hits_in_def)
  next
    case False
    then have "slot u \<noteq> slot ?s" using u by (intro slot_neq) simp_all
    then show ?thesis using old [OF u] False by (simp add: bump_def hits_in_def)
  qed
  show "CUR (tick now m) = ?s" by (simp add: t)
  have "TOTAL (tick now m) = int (length (ticks @ [now]))"
    using assms(1,4) by (simp add: t counted_def add64_exact in_i64_def)
  moreover have "list_all (\<lambda>ms. second ms \<le> ?s) (ticks @ [now])"
    using assms(1,3) by (auto simp: counted_def list_all_iff)
  moreover have "length (bump (slot ?s) ?b) = N_BUCKETS" using len by (simp add: bump_def)
  ultimately show "counted (ticks @ [now]) (tick now m)" unfolding counted_def using new by (simp add: t)
qed

lemma second_mono: "0 \<le> a \<Longrightarrow> a \<le> b \<Longrightarrow> second a \<le> second b"
  by (simp add: second_eq zdiv_mono1)

lemma counted_run:
  assumes "sorted (t0 # ticks)" and "0 \<le> t0" and "int (length ticks) < 2 ^ 63"
  shows "counted ticks (fold tick ticks (init t0 metrics0)) \<and>
    CUR (fold tick ticks (init t0 metrics0)) = second (last (t0 # ticks))"
  using assms
proof (induction ticks rule: rev_induct)
  case Nil
  show ?case by (auto simp: counted_def init_def metrics0_def second_def hits_in_def slot_less)
next
  case (snoc ms ticks)
  let ?m = "fold tick ticks (init t0 metrics0)"
  have s: "sorted (t0 # ticks)" "\<forall>x \<in> set (t0 # ticks). x \<le> ms" "0 \<le> ms"
    using snoc.prems by (auto simp: sorted_append)
  have IH: "counted ticks ?m" "CUR ?m = second (last (t0 # ticks))" using snoc s by simp_all
  have l: "last (t0 # ticks) \<in> set (t0 # ticks)" by (rule last_in_set) simp
  then have "0 \<le> last (t0 # ticks)" "last (t0 # ticks) \<le> ms" using s snoc.prems by auto
  then have "CUR ?m \<le> second ms" unfolding IH(2) by (rule second_mono)
  from counted_tick [OF IH(1) s(3) this] snoc.prems(3) show ?case by simp
qed

text \<open>
  C10: The request counters tell the truth about the last half minute: after start-up at \<open>t0\<close> and requests at
  any times that never run backwards, each of the 31 fields of the window that
  \<^verbatim>\<open>/api/metrics\<close> reports is the number of requests in that second, whatever seconds passed without one, and the
  total is the number of all requests.
\<close>

theorem window_counts_requests:
  assumes "sorted (t0 # ticks @ [now])" and "0 \<le> t0" and "int (length ticks) < 2 ^ 63" and "i < 31"
  shows "window (second now) (fold tick ticks (init t0 metrics0)) ! i = hits_in (second now - 30 + int i) ticks \<and>
    TOTAL (fold tick ticks (init t0 metrics0)) = int (length ticks)"
proof -
  let ?m = "fold tick ticks (init t0 metrics0)" and ?t = "second now - 30 + int i"
  have "sorted (t0 # ticks)" "\<forall>x \<in> set (t0 # ticks). x \<le> now" using assms(1) by (auto simp: sorted_append)
  note c = counted_run [OF this(1) assms(2,3)] this(2)
  have l: "last (t0 # ticks) \<in> set (t0 # ticks)" by (rule last_in_set) simp
  moreover have "\<forall>x \<in> set (t0 # ticks). 0 \<le> x" using assms(1,2) by (auto simp: sorted_append)
  ultimately have "CUR ?m \<le> second now" using c second_mono by (metis (no_types))
  then have w: "window (second now) ?m ! i = (if ?t \<le> CUR ?m then BUCKETS ?m ! slot ?t else 0)"
    using assms(4) by (simp add: window_def Let_def N_BUCKETS_def del: upt_Suc)
  have "hits_in ?t ticks = 0" if "\<not> ?t \<le> CUR ?m"
    using that c(1) by (auto simp: hits_in_def counted_def list_all_iff filter_empty_conv)
  moreover have "BUCKETS ?m ! slot ?t = hits_in ?t ticks" if "?t \<le> CUR ?m"
    using that c(1) \<open>CUR ?m \<le> second now\<close> by (simp add: counted_def)
  ultimately show ?thesis using c(1) w by (simp add: counted_def)
qed

theorem window_counts_requests_witness:
  "let m = fold tick [1500, 61000, 61200] (init 1000 metrics0)
   in window (second 61900) m ! 30 = 2 \<and> window (second 61900) m ! 29 = 0 \<and> TOTAL m = 3"
proof -
  have s: "second 61900 = 61" "second 61000 = 61" "second 61200 = 61" "second 1500 = 1" by (simp_all add: second_eq)
  show ?thesis
    using window_counts_requests [of 1000 "[1500, 61000, 61200]" 61900 30]
      window_counts_requests [of 1000 "[1500, 61000, 61200]" 61900 29]
    by (simp add: Let_def s hits_in_def)
qed

end
