(* ===== verification/Rate_Limit.thy ===== *)
theory Rate_Limit
  imports Double
begin

text \<open>
  The token buckets of \<^verbatim>\<open>src/src/ratelimit.cpp\<close> and \<^verbatim>\<open>src/src/ratelimit.hpp\<close>, in the arithmetic of
  \<^verbatim>\<open>double\<close>. A shard is an unordered map from the hash of a client address to its bucket; a call
  runs under the lock of the shard, so calls are steps.
\<close>

section \<open>Definitions\<close>

definition RL_SHARDS :: nat where
  "RL_SHARDS = 64"

definition MAX_KEYS :: nat where
  "MAX_KEYS = 4096"

definition IDLE_MS :: i64 where
  "IDLE_MS = 60000"

record bucket =
  tokens :: dbl
  last_ms :: dbl

record limiter =
  rl_shards :: "nat \<Rightarrow> (64 word, bucket) umap"
  rate :: dbl
  burst :: dbl

fun fnv64 :: "64 word \<Rightarrow> string \<Rightarrow> 64 word" where
  "fnv64 h [] = h"
| "fnv64 h (c # ip) = fnv64 ((h XOR of_char c) * 1099511628211) ip"

definition ip_key :: "string \<Rightarrow> 64 word" where
  "ip_key ip = fnv64 14695981039346656037 ip"

definition reload :: "environ \<Rightarrow> limiter" where
  "reload env =
     (let r = (case env ''RATE_LIMIT'' of Some v \<Rightarrow> dmax (Fin 0) (atof v) | None \<Rightarrow> Fin 0);
          b = (case env ''RATE_LIMIT_BURST'' of Some v \<Rightarrow> dmax (Fin 0) (atof v) | None \<Rightarrow> r)
      in \<lparr>rl_shards = (\<lambda>_. []), rate = r, burst = (if dlt b (Fin 1) then Fin 1 else b)\<rparr>)"

text \<open>\<^verbatim>\<open>last_ms\<close> holds a clock reading, so its conversion back to an integer is defined.\<close>

definition idle :: "i64 \<Rightarrow> bucket \<Rightarrow> bool" where
  "idle now b = (case to_i64 (last_ms b) of Some l \<Rightarrow> IDLE_MS < now - l | None \<Rightarrow> False)"

definition shard_of_key :: "64 word \<Rightarrow> nat" where
  "shard_of_key k = unat (k AND (of_nat RL_SHARDS - 1))"

definition refill :: "i64 \<Rightarrow> limiter \<Rightarrow> bucket \<Rightarrow> bucket" where
  "refill now rl b =
     \<lparr>tokens = dmin (dadd (tokens b) (dmul (ddiv (dsub (of_i64 now) (last_ms b)) 1000) (rate rl))) (burst rl),
      last_ms = of_i64 now\<rparr>"

definition allow :: "i64 \<Rightarrow> string \<Rightarrow> dbl \<Rightarrow> limiter \<Rightarrow> bool \<times> limiter" where
  "allow now ip cost rl =
     (if dle (rate rl) (Fin 0) then (True, rl)
      else
        (let k = ip_key ip;
             i = shard_of_key k;
             m = rl_shards rl i;
             m = (if MAX_KEYS \<le> length m then filter (\<lambda>(k, b). \<not> idle now b) m else m);
             m = um_emplace k \<lparr>tokens = burst rl, last_ms = of_i64 now\<rparr> m;
             b = refill now rl (the (um_find m k));
             ok = dle cost (tokens b);
             b = (if ok then b\<lparr>tokens := dsub (tokens b) cost\<rparr> else b)
         in (ok, rl\<lparr>rl_shards := (rl_shards rl)(i := um_put k b m)\<rparr>)))"

section \<open>One burst per instant\<close>

definition bucket_of :: "limiter \<Rightarrow> 64 word \<Rightarrow> bucket option" where
  "bucket_of rl k = um_find (rl_shards rl (shard_of_key k)) k"

lemma find_filter:
  "um_find m k = Some b \<Longrightarrow> Q (k, b) \<Longrightarrow> um_find (filter Q m) k = Some b"
  by (induction m) (auto split: if_splits)

lemma find_filter_None: "um_find m k = None \<Longrightarrow> um_find (filter Q m) k = None"
  by (induction m) (auto split: if_splits)

text \<open>A bucket that was refilled at this instant and has at most \<open>q\<close> tokens.\<close>

definition at_most :: "i64 \<Rightarrow> rat \<Rightarrow> bucket \<Rightarrow> bool" where
  "at_most now q b \<longleftrightarrow> last_ms b = Fin (of_int now) \<and>
     (case tokens b of Fin t \<Rightarrow> rep t \<and> t \<le> q | Infin neg \<Rightarrow> neg | NaN \<Rightarrow> True)"

definition finite_limits :: "limiter \<Rightarrow> rat \<Rightarrow> bool" where
  "finite_limits rl b \<longleftrightarrow> (\<exists>r. rate rl = Fin r \<and> 0 < r) \<and> burst rl = Fin b \<and> rep b \<and> 0 \<le> b \<and> b < 2 ^ 53"

lemma rep_0 [simp]: "rep 0"
  using rep_int [of 0] by simp

lemma rnd_0 [simp]: "rnd 0 = Fin 0"
  by (simp add: rnd_def)

lemma dle_Fin [simp]: "dle (Fin p) (Fin q) \<longleftrightarrow> p \<le> q"
  by (auto simp: dle_def dlt_def)

lemma refill_again:
  assumes "finite_limits rl b" and "\<bar>now\<bar> < 2 ^ 53" and "at_most now q bk" and "q \<le> b"
  shows "refill now rl bk = bk"
proof -
  obtain r where r: "rate rl = Fin r" using assms(1) by (auto simp: finite_limits_def)
  have n: "of_i64 now = Fin (of_int now)" using assms(2) by (rule of_i64_exact)
  have z: "dmul (ddiv (dsub (of_i64 now) (last_ms bk)) 1000) (rate rl) = Fin 0"
    using assms(3) by (simp add: n r at_most_def dsub_def dadd_def dneg_def ddiv_def dmul_def)
  have "dmin (dadd (tokens bk) (Fin 0)) (burst rl) = tokens bk"
    using assms(1,3,4) by (cases "tokens bk") (auto simp: at_most_def finite_limits_def dadd_def dmin_def dlt_def rnd_exact)
  then show ?thesis using assms(3) unfolding refill_def z by (simp add: n at_most_def)
qed

lemma refill_at_most:
  assumes "finite_limits rl b" and "\<bar>now\<bar> < 2 ^ 53"
  shows "at_most now b (refill now rl bk)"
proof -
  let ?x = "dadd (tokens bk) (dmul (ddiv (dsub (of_i64 now) (last_ms bk)) 1000) (rate rl))"
  have "dmin (Fin v) (Fin b) = (if b < v then Fin b else Fin v)" for v by (simp add: dmin_def dlt_def)
  moreover have "rep v" if "?x = Fin v" for v
    using that by (auto simp: dadd_def dest: rnd_rep(1) split: dbl.splits if_splits)
  ultimately show ?thesis
    using assms of_i64_exact [OF assms(2)]
    by (cases ?x) (auto simp: at_most_def refill_def finite_limits_def dmin_def dlt_def)
qed

lemma allow_fields:
  "rate (snd (allow now ip cost rl)) = rate rl" "burst (snd (allow now ip cost rl)) = burst rl"
  by (simp_all add: allow_def Let_def)

lemma finite_limits_allow [simp]: "finite_limits (snd (allow now ip cost rl)) b = finite_limits rl b"
  by (simp add: finite_limits_def allow_fields)

lemma not_idle_now: "\<bar>now\<bar> < 2 ^ 53 \<Longrightarrow> at_most now q bk \<Longrightarrow> \<not> idle now bk"
proof -
  assume n: "\<bar>now\<bar> < 2 ^ 53" and a: "at_most now q bk"
  have "in_i64 now" using n by (simp add: in_i64_def) linarith
  then show "\<not> idle now bk" using a by (auto simp: idle_def at_most_def to_i64_def trunc_def IDLE_MS_def)
qed

text \<open>What a request of one client leaves of the buckets of the others.\<close>

lemma allow_other:
  assumes "\<bar>now\<bar> < 2 ^ 53" and "ip_key ip \<noteq> k" and "bucket_of rl k = Some bk" and "at_most now q bk"
  shows "bucket_of (snd (allow now ip cost rl)) k = Some bk"
  using assms not_idle_now [OF assms(1,4)] find_filter [of _ k bk "\<lambda>(k, b). \<not> idle now b"]
  by (auto simp: allow_def bucket_of_def Let_def um_simps)

text \<open>What it does to its own bucket.\<close>

lemma allow_own:
  assumes fl: "finite_limits rl b" and "\<bar>now\<bar> < 2 ^ 53" and "0 \<le> n" and "ip_key ip = k" and "q \<le> b"
    and start: "bucket_of rl k = Some bk \<and> at_most now q bk \<or> q = b"
    and res: "allow now ip (Fin (of_int n)) rl = (ok, rl')"
  shows "\<exists>bk'. bucket_of rl' k = Some bk' \<and> at_most now (if ok then q - of_int n else q) bk'" "ok \<Longrightarrow> of_int n \<le> q"
proof -
  let ?i = "shard_of_key k"
  define m where "m = um_emplace k \<lparr>tokens = burst rl, last_ms = of_i64 now\<rparr>
     (if MAX_KEYS \<le> length (rl_shards rl ?i) then filter (\<lambda>(k, b). \<not> idle now b) (rl_shards rl ?i) else rl_shards rl ?i)"
  define c where "c = refill now rl (the (um_find m k))"
  have "\<not> dle (rate rl) (Fin 0)" using fl by (auto simp: finite_limits_def)
  then have r: "ok = dle (Fin (of_int n)) (tokens c)"
    "rl' = rl\<lparr>rl_shards := (rl_shards rl)(?i := um_put k (if ok then c\<lparr>tokens := dsub (tokens c) (Fin (of_int n))\<rparr> else c) m)\<rparr>"
    using res assms(4) by (auto simp: allow_def Let_def m_def c_def)
  have am: "at_most now q c"
  proof (cases "q = b")
    case True
    then show ?thesis using refill_at_most [OF fl assms(2)] by (simp add: c_def)
  next
    case False
    then have bk: "bucket_of rl k = Some bk" "at_most now q bk" using start by simp_all
    then have "um_find m k = Some bk"
      using not_idle_now [OF assms(2) bk(2)] find_filter [of "rl_shards rl ?i" k bk "\<lambda>(k, b). \<not> idle now b"]
      by (simp add: m_def bucket_of_def um_simps)
    then show ?thesis using refill_again [OF fl assms(2) bk(2) assms(5)] bk(2) by (simp add: c_def)
  qed
  show le: "of_int n \<le> q" if "ok"
    using that r(1) am by (auto simp: at_most_def dle_def dlt_def split: dbl.splits)
  have "at_most now (q - of_int n) (c\<lparr>tokens := dsub (tokens c) (Fin (of_int n))\<rparr>)" if okay: "ok"
  proof -
    obtain t where t: "tokens c = Fin t" "rep t" "t \<le> q" "of_int n \<le> t"
      using okay r(1) am by (auto simp: at_most_def dle_def dlt_def split: dbl.splits)
    have "t < 2 ^ 53" using t(3) assms(5) fl by (auto simp: finite_limits_def)
    then have "rep (t - of_int n)" using t assms(3) by (intro rep_sub_int) simp_all
    then have "dsub (tokens c) (Fin (of_int n)) = Fin (t - of_int n)" by (simp add: t dsub_def dadd_def dneg_def rnd_exact)
    then show ?thesis using am t \<open>rep (t - of_int n)\<close> by (simp add: at_most_def)
  qed
  then show "\<exists>bk'. bucket_of rl' k = Some bk' \<and> at_most now (if ok then q - of_int n else q) bk'"
    using am by (auto simp: r(2) bucket_of_def um_simps)
qed

text \<open>The whole tokens a sequence of requests at one instant takes from the bucket of a key.\<close>

fun granted :: "i64 \<Rightarrow> 64 word \<Rightarrow> (string \<times> int) list \<Rightarrow> limiter \<Rightarrow> int" where
  "granted now k [] rl = 0"
| "granted now k ((ip, n) # rs) rl =
     (let (ok, rl') = allow now ip (Fin (of_int n)) rl
      in (if ok \<and> ip_key ip = k then n else 0) + granted now k rs rl')"

lemma granted_at_most:
  assumes "finite_limits rl b" and "\<bar>now\<bar> < 2 ^ 53" and "list_all (\<lambda>(ip, n). 0 \<le> n) reqs" and "0 \<le> q" and "q \<le> b"
    and "bucket_of rl k = Some bk \<and> at_most now q bk \<or> q = b"
  shows "of_int (granted now k reqs rl) \<le> q"
  using assms
proof (induction reqs arbitrary: rl q bk)
  case (Cons req reqs)
  obtain ip n where req: "req = (ip, n)" by force
  obtain ok rl' where a: "allow now ip (Fin (of_int n)) rl = (ok, rl')" by (cases "allow now ip (Fin (of_int n)) rl")
  have fl: "finite_limits rl' b" using Cons.prems(1) finite_limits_allow [of now ip "Fin (of_int n)" rl] a by simp
  have n: "0 \<le> n" "list_all (\<lambda>(ip, n). 0 \<le> n) reqs" using Cons.prems(3) by (simp_all add: req)
  show ?case
  proof (cases "ip_key ip = k")
    case True
    note o = allow_own [OF Cons.prems(1,2) n(1) True Cons.prems(5,6) a]
    obtain bk' where bk': "bucket_of rl' k = Some bk'" "at_most now (if ok then q - of_int n else q) bk'" using o(1) by blast
    let ?q = "if ok then q - of_int n else q"
    have "0 \<le> ?q" "?q \<le> b" using o(2) Cons.prems(4,5) n(1) by auto
    then have "of_int (granted now k reqs rl') \<le> ?q"
      using bk' by (intro Cons.IH [OF fl Cons.prems(2) n(2), of _ bk']) simp_all
    then show ?thesis using True a by (simp add: req split: if_splits)
  next
    case False
    have "bucket_of rl' k = Some bk \<and> at_most now q bk \<or> q = b"
      using Cons.prems(6) allow_other [OF Cons.prems(2) False, of rl bk q "Fin (of_int n)"] a by auto
    then have "of_int (granted now k reqs rl') \<le> q" by (rule Cons.IH [OF fl Cons.prems(2) n(2) Cons.prems(4,5)])
    then show ?thesis using False a by (simp add: req)
  qed
qed simp

text \<open>
  C9: A client never gets more than its burst at once. Whatever the state of the limiter and however
  the requests of all clients are interleaved within one millisecond, the costs granted to one
  client add up to at most the burst, in the rounded arithmetic the code computes with.
\<close>

theorem burst_is_a_bound:
  assumes "finite_limits rl b" and "\<bar>now\<bar> < 2 ^ 53" and "list_all (\<lambda>(ip, n). 0 \<le> n) reqs"
  shows "of_int (granted now (ip_key ip) reqs rl) \<le> b"
  using granted_at_most [OF assms, of b] assms(1) by (simp add: finite_limits_def)

theorem burst_is_a_bound_witness:
  "let rl = reload [''RATE_LIMIT'' \<mapsto> ''2'', ''RATE_LIMIT_BURST'' \<mapsto> ''3'']
   in granted 1000 (ip_key ''a'') [(''a'', 2), (''b'', 1), (''a'', 1), (''a'', 1)] rl \<le> 3"
proof -
  let ?rl = "reload [''RATE_LIMIT'' \<mapsto> ''2'', ''RATE_LIMIT_BURST'' \<mapsto> ''3'']"
  have "itoa [] 2 = ''2''" "itoa [] 3 = ''3''" by code_simp+
  then have "atof ''2'' = Fin 2" "atof ''3'' = Fin 3"
    using strtod_itoa [of 2 "[]"] strtod_itoa [of 3 "[]"] by (simp_all add: atof_def no_number_def no_digit_def)
  then have "rate ?rl = Fin 2" "burst ?rl = Fin 3" by (simp_all add: reload_def dmax_def dlt_def)
  moreover have "rep 3" using rep_int [of 3] by simp
  ultimately have "finite_limits ?rl 3" by (simp add: finite_limits_def)
  from burst_is_a_bound [OF this, of 1000 "[(''a'', 2), (''b'', 1), (''a'', 1), (''a'', 1)]" "''a''"]
  have "rat_of_int (granted 1000 (ip_key ''a'') [(''a'', 2), (''b'', 1), (''a'', 1), (''a'', 1)] ?rl) \<le> of_int 3"
    by (simp del: granted.simps)
  then show ?thesis unfolding Let_def of_int_le_iff .
qed

end
