(* ===== verification/Codec.thy ===== *)
theory Codec
  imports Common
begin

text \<open>
  The log line codec of \<^verbatim>\<open>src/src/codec.cpp\<close>: rows, hit deltas and tombstones are written as
  JSON lines and read back by a tolerant field scanner. A position in the line is modelled by the
  suffix that starts there.
\<close>

section \<open>Definitions\<close>

record op =
  op_c :: string
  op_u :: string
  op_h :: string
  op_x :: string
  op_a :: i64
  op_e :: i64
  op_i :: i64
  op_n :: i64
  op_d :: i64
  op_has_e :: bool

definition op0 :: op where
  "op0 = \<lparr>op_c = [], op_u = [], op_h = [], op_x = [], op_a = 0, op_e = 0, op_i = 0, op_n = 0,
          op_d = 0, op_has_e = False\<rparr>"

subsection \<open>Escaping\<close>

definition hex_chr :: "nat \<Rightarrow> char" where
  "hex_chr d = (if d < 10 then char_of (48 + d) else char_of (87 + d))"

text \<open>\<^verbatim>\<open>snprintf("%04x")\<close> of a value below \<open>2 ^ 16\<close>.\<close>

definition hex4 :: "nat \<Rightarrow> string" where
  "hex4 n = [hex_chr (n div 4096 mod 16), hex_chr (n div 256 mod 16), hex_chr (n div 16 mod 16),
             hex_chr (n mod 16)]"

definition esc_chr :: "char \<Rightarrow> string" where
  "esc_chr ch =
     (if ch = DQ then [BSL, DQ]
      else if ch = BSL then [BSL, BSL]
      else if ch = NL then [BSL, CHR ''n'']
      else if ch = CR then [BSL, CHR ''r'']
      else if ch = TAB then [BSL, CHR ''t'']
      else if of_char ch < (32 :: nat) then [BSL, CHR ''u''] @ hex4 (of_char ch)
      else [ch])"

fun esc :: "string \<Rightarrow> string \<Rightarrow> string" where
  "esc dst [] = dst"
| "esc dst (ch # s) = esc (dst @ esc_chr ch) s"

text \<open>The UTF-8 bytes of a 32-bit \<^verbatim>\<open>unsigned\<close>, cut to one byte each as the casts to \<^verbatim>\<open>char\<close> do.\<close>

definition utf8_bytes :: "32 word \<Rightarrow> string" where
  "utf8_bytes cp =
     (if cp < 0x80 then [char_of (uint cp)]
      else if cp < 0x800
        then [char_of (uint (0xc0 OR drop_bit 6 cp)), char_of (uint (0x80 OR (cp AND 63)))]
      else [char_of (uint (0xe0 OR drop_bit 12 cp)),
            char_of (uint (0x80 OR (drop_bit 6 cp AND 63))),
            char_of (uint (0x80 OR (cp AND 63)))])"

fun unescape :: "string \<Rightarrow> string" where
  "unescape [] = []"
| "unescape [c] = [c]"
| "unescape (c # e # r) =
     (if c \<noteq> BSL then c # unescape (e # r)
      else if e = CHR ''n'' then NL # unescape r
      else if e = CHR ''r'' then CR # unescape r
      else if e = CHR ''t'' then TAB # unescape r
      else if e = CHR ''u'' then
        (if 4 \<le> length r then utf8_bytes (ucast (strtoul16 (take 4 r))) @ unescape (drop 4 r)
         else unescape r)
      else e # unescape r)"

subsection \<open>Writing lines\<close>

definition row_line_into :: "string \<Rightarrow> string \<Rightarrow> string \<Rightarrow> i64 \<Rightarrow> i64 \<Rightarrow> i64 \<Rightarrow> i64 \<Rightarrow> string" where
  "row_line_into b c u a e i n =
     (let b = b @ ''{\"c\":\"'';
          b = b @ c;
          b = b @ ''\",\"u\":\"'';
          b = esc b u;
          b = b @ ''\",\"a\":'';
          b = itoa b a;
          b = b @ '',\"e\":'';
          b = (if e = 0 then b @ ''null'' else itoa b e);
          b = b @ '',\"i\":'';
          b = itoa b i;
          b = b @ '',\"n\":'';
          b = itoa b n
      in b @ ''}'')"

definition hit_line_into :: "string \<Rightarrow> string \<Rightarrow> i64 \<Rightarrow> i64 \<Rightarrow> string" where
  "hit_line_into b c d i =
     (let b = b @ ''{\"h\":\"'';
          b = b @ c;
          b = b @ ''\",\"d\":'';
          b = itoa b d;
          b = b @ '',\"i\":'';
          b = itoa b i
      in b @ ''}'')"

definition del_line_into :: "string \<Rightarrow> string \<Rightarrow> string" where
  "del_line_into b c = b @ ''{\"x\":\"'' @ c @ ''\"}''"

definition row_line :: "string \<Rightarrow> string \<Rightarrow> i64 \<Rightarrow> i64 \<Rightarrow> i64 \<Rightarrow> i64 \<Rightarrow> string" where
  "row_line c u a e i n = row_line_into [] c u a e i n"

definition hit_line :: "string \<Rightarrow> i64 \<Rightarrow> i64 \<Rightarrow> string" where
  "hit_line c d i = hit_line_into [] c d i"

definition del_line :: "string \<Rightarrow> string" where
  "del_line c = del_line_into [] c"

subsection \<open>Reading lines\<close>

text \<open>
  The scan of a quoted value: the raw bytes up to the closing quote, whether a backslash was seen,
  and the suffix behind the quote. A backslash skips the next byte, also past the end of the line.
\<close>

fun scan_val :: "string \<Rightarrow> string \<times> bool \<times> string" where
  "scan_val [] = ([], False, [])"
| "scan_val (c # s) =
     (if c = BSL then
        (case s of
           [] \<Rightarrow> ([c], True, [])
         | d # t \<Rightarrow> (let (v, e, r) = scan_val t in (c # d # v, True, r)))
      else if c = DQ then ([], False, s)
      else (let (v, e, r) = scan_val s in (c # v, e, r)))"

definition is_blank :: "char \<Rightarrow> bool" where
  "is_blank c \<longleftrightarrow> c = CHR '' '' \<or> c = TAB"

definition rstrip :: "string \<Rightarrow> string" where
  "rstrip s = rev (dropWhile is_blank (rev s))"

definition set_str :: "char \<Rightarrow> string \<Rightarrow> op \<Rightarrow> op" where
  "set_str key s p =
     (if key = CHR ''c'' then p\<lparr>op_c := s\<rparr>
      else if key = CHR ''u'' then p\<lparr>op_u := s\<rparr>
      else if key = CHR ''h'' then p\<lparr>op_h := s\<rparr>
      else if key = CHR ''x'' then p\<lparr>op_x := s\<rparr>
      else p)"

definition set_num :: "char \<Rightarrow> string \<Rightarrow> op \<Rightarrow> op" where
  "set_num key num p =
     (let v = (if num = ''null'' then 0 else strtoll num)
      in if key = CHR ''a'' then p\<lparr>op_a := v\<rparr>
         else if key = CHR ''e'' then
           (if num \<noteq> ''null'' then p\<lparr>op_e := v, op_has_e := True\<rparr> else p)
         else if key = CHR ''i'' then p\<lparr>op_i := v\<rparr>
         else if key = CHR ''n'' then p\<lparr>op_n := v\<rparr>
         else if key = CHR ''d'' then p\<lparr>op_d := v\<rparr>
         else p)"

lemma scan_val_length: "scan_val s = (v, e, r) \<Longrightarrow> length r \<le> length s"
proof (induction s arbitrary: v e r rule: scan_val.induct)
  case 1
  then show ?case by simp
next
  case (2 c s)
  show ?case
  proof (cases s)
    case Nil
    with "2.prems" show ?thesis by (auto split: if_splits)
  next
    case (Cons d t)
    show ?thesis
    proof (cases "c = BSL")
      case True
      obtain v' e' r' where t: "scan_val t = (v', e', r')" by (cases "scan_val t")
      have "length r' \<le> length t" using "2.IH"(1) [OF True Cons t] .
      then show ?thesis using "2.prems" True Cons t by simp
    next
      case False
      obtain v' e' r' where t: "scan_val s = (v', e', r')" by (cases "scan_val s")
      show ?thesis
      proof (cases "c = DQ")
        case True
        then show ?thesis using "2.prems" False by simp
      next
        case nq: False
        have "length r' \<le> length s" using "2.IH"(2) [OF False nq t] .
        then show ?thesis using "2.prems" False nq t by simp
      qed
    qed
  qed
qed

lemma dropWhile_ConsD: "dropWhile P s = x # t \<Longrightarrow> length t < length s"
  using length_dropWhile_le [of P s] by simp

text \<open>The body of the \<^verbatim>\<open>while (pos < L)\<close> loop; \<open>None\<close> is \<^verbatim>\<open>return false\<close>.\<close>

function (sequential) parse_loop :: "string \<Rightarrow> op \<Rightarrow> op option" where
  "parse_loop s p =
     (case dropWhile (\<lambda>c. c \<noteq> DQ) s of
        [] \<Rightarrow> Some p
      | _ # s1 \<Rightarrow>
     (case dropWhile (\<lambda>c. c \<noteq> DQ) s1 of
        [] \<Rightarrow> None
      | _ # s2 \<Rightarrow>
     (let key = (case takeWhile (\<lambda>c. c \<noteq> DQ) s1 of [] \<Rightarrow> CHR 0x00 | k # _ \<Rightarrow> k) in
     (case dropWhile (\<lambda>c. c \<noteq> CHR '':'') s2 of
        [] \<Rightarrow> None
      | _ # s3 \<Rightarrow>
     (case dropWhile is_blank s3 of
        [] \<Rightarrow> None
      | x # s4 \<Rightarrow>
          if x = DQ then
            (let (val, escapes, r) = scan_val s4
             in parse_loop r (set_str key (if escapes then unescape val else val) p))
          else
            (let num = takeWhile (\<lambda>c. c \<noteq> CHR '','' \<and> c \<noteq> CHR ''}'') (x # s4);
                 r = dropWhile (\<lambda>c. c \<noteq> CHR '','' \<and> c \<noteq> CHR ''}'') (x # s4)
             in parse_loop r (set_num key (rstrip num) p)))))))"
  by pat_completeness auto
termination
proof (relation "measure (\<lambda>(s, p). length s)", goal_cases)
  case 1
  show ?case by simp
next
  case 2
  then show ?case by (auto dest!: dropWhile_ConsD scan_val_length [OF sym])
next
  case (3 s p a s1 b s2 key c s3 x s4 num r)
  have "length r \<le> length (x # s4)"
    unfolding 3 by (rule length_dropWhile_le)
  then show ?case using 3 by (auto dest!: dropWhile_ConsD)
qed

declare parse_loop.simps [simp del]

definition parse_op :: "string \<Rightarrow> op option" where
  "parse_op line =
     (case parse_loop line op0 of
        None \<Rightarrow> None
      | Some p \<Rightarrow> if op_c p \<noteq> [] \<or> op_h p \<noteq> [] \<or> op_x p \<noteq> [] then Some p else None)"

section \<open>Escaping round trip\<close>

lemma esc_concat: "esc dst s = dst @ concat (map esc_chr s)"
  by (induction s arbitrary: dst) auto

declare esc.simps(2) [simp del]

lemma esc_append: "esc dst s = dst @ esc [] s"
  by (simp add: esc_concat)

lemma esc_Cons: "esc [] (c # s) = esc_chr c @ esc [] s"
  by (simp add: esc_concat)

text \<open>Reading the four digits of an escaped control character gives the byte back.\<close>

lemma digit_val_hex [simp]: "d < 16 \<Longrightarrow> digit_val (hex_chr d) = Some d"
  by (auto simp: digit_val_def hex_chr_def Let_def)

lemma hex_chr_0: "hex_chr 0 = CHR ''0''"
  by (simp add: hex_chr_def char_of_eq_iff)

lemma read_hex2:
  "a < 16 \<Longrightarrow> b < 16 \<Longrightarrow> strtoul16 [CHR ''0'', CHR ''0'', hex_chr a, hex_chr b] = word_of_int (int a * 16 + int b)"
  using digit_val_hex [of a] digit_val_hex [of b]
  by (auto simp: strtoul16_def skip_space_def c_isspace_def read_sign_def skip_0x_def digit_val_def [of "CHR ''0''"])

lemma utf8_hex4: "n < 32 \<Longrightarrow> utf8_bytes (ucast (strtoul16 (hex4 n))) = [char_of n]"
proof -
  assume n: "n < 32"
  have "hex4 n = [CHR ''0'', CHR ''0'', hex_chr (n div 16), hex_chr (n mod 16)]"
    using n by (simp add: hex4_def hex_chr_0)
  then have "strtoul16 (hex4 n) = word_of_int (int (n div 16) * 16 + int (n mod 16))"
    using n read_hex2 [of "n div 16" "n mod 16"] by simp
  also have "int (n div 16) * 16 + int (n mod 16) = int n"
    by presburger
  finally have v: "ucast (strtoul16 (hex4 n)) = (word_of_int (int n) :: 32 word)"
    by (simp only:) (transfer, simp)
  have u: "uint (word_of_int (int n) :: 32 word) = int n"
    using n by (simp only: uint_word_of_int) simp
  then have "(word_of_int (int n) :: 32 word) < 0x80"
    using n by (simp only: word_less_def u) simp
  then show ?thesis
    unfolding v utf8_bytes_def u by simp
qed

lemma unescape_plain: "c \<noteq> BSL \<Longrightarrow> unescape (c # s) = c # unescape s"
  by (cases s) auto

lemma length_hex4 [simp]: "length (hex4 n) = 4"
  by (simp add: hex4_def)

lemma unescape_u: "n < 32 \<Longrightarrow> unescape (BSL # CHR ''u'' # hex4 n @ s) = char_of n # unescape s"
  by (simp add: utf8_hex4)

lemma unescape_esc_chr: "unescape (esc_chr c @ s) = c # unescape s"
proof (cases "c \<in> {DQ, BSL, NL, CR, TAB}")
  case True
  then show ?thesis by (auto simp: esc_chr_def)
next
  case False
  then show ?thesis
    using unescape_u [of "of_char c" s] by (auto simp: esc_chr_def unescape_plain)
qed

lemma unescape_esc: "unescape (esc [] s) = s"
  by (induction s) (simp_all add: esc_Cons unescape_esc_chr)

lemma hex_chr_neq: "d < 16 \<Longrightarrow> of_char c < (48 :: nat) \<or> of_char c = (92 :: nat) \<Longrightarrow> hex_chr d \<noteq> c"
  by (auto simp: hex_chr_def)

lemma hex4_avoids: "of_char c < (48 :: nat) \<or> of_char c = (92 :: nat) \<Longrightarrow> c \<notin> set (hex4 n)"
proof -
  assume "of_char c < (48 :: nat) \<or> of_char c = (92 :: nat)"
  then have "c \<noteq> hex_chr (k mod 16)" for k
    using hex_chr_neq [of "k mod 16" c] by auto
  then show ?thesis by (simp add: hex4_def)
qed

text \<open>No control character survives escaping, so a line never holds the byte that ends it.\<close>

lemma esc_chr_no_ctrl: "d \<in> set (esc_chr c) \<Longrightarrow> \<not> of_char d < (32 :: nat)"
proof
  assume d: "d \<in> set (esc_chr c)" and lt: "of_char d < (32 :: nat)"
  have "d \<notin> set (hex4 n)" for n using lt by (intro hex4_avoids) simp
  with d lt show False by (auto simp: esc_chr_def split: if_splits)
qed

lemma esc_no_ctrl: "d \<in> set (esc [] s) \<Longrightarrow> \<not> of_char d < (32 :: nat)"
proof (induction s)
  case Nil
  then show ?case by simp
next
  case (Cons c s)
  then show ?case using esc_chr_no_ctrl [of d c] unfolding esc_Cons set_append by blast
qed

lemma scan_val_plain:
  "DQ \<notin> set c \<Longrightarrow> BSL \<notin> set c \<Longrightarrow> scan_val (c @ s) = (let (v, e, r) = scan_val s in (c @ v, e, r))"
  by (induction c) (auto split: prod.splits)

lemma scan_val_esc_chr:
  "scan_val (esc_chr c @ s) = (let (v, e, r) = scan_val s in (esc_chr c @ v, BSL \<in> set (esc_chr c) \<or> e, r))"
proof (cases "c \<in> {DQ, BSL, NL, CR, TAB}")
  case True
  then show ?thesis by (auto simp: esc_chr_def split: prod.splits)
next
  case False
  have "DQ \<notin> set (hex4 n)" "BSL \<notin> set (hex4 n)" for n
    by (auto intro!: hex4_avoids)
  then have "scan_val (hex4 n @ s) = (let (v, e, r) = scan_val s in (hex4 n @ v, e, r))" for n
    by (rule scan_val_plain)
  then show ?thesis using False by (auto simp: esc_chr_def split: prod.splits)
qed

lemma scan_val_esc: "scan_val (esc [] u @ DQ # r) = (esc [] u, BSL \<in> set (esc [] u), r)"
proof (induction u)
  case Nil
  show ?case by simp
next
  case (Cons c u)
  show ?case
    using scan_val_esc_chr [of c "esc [] u @ DQ # r"] unfolding Cons.IH by (simp add: esc_Cons)
qed

lemma esc_chr_id: "BSL \<notin> set (esc_chr c) \<Longrightarrow> esc_chr c = [c]"
  by (auto simp: esc_chr_def split: if_splits)

lemma esc_id: "BSL \<notin> set (esc [] u) \<Longrightarrow> esc [] u = u"
  by (induction u) (auto simp: esc_Cons dest: esc_chr_id)

lemma scanned_value: "(if BSL \<in> set (esc [] u) then unescape (esc [] u) else esc [] u) = u"
  using unescape_esc esc_id by auto

section \<open>Lines read back\<close>

lemma dropWhile_upto: "c \<notin> set pre \<Longrightarrow> dropWhile (\<lambda>x. x \<noteq> c) (pre @ c # s) = c # s"
  by (induction pre) auto

lemma takeWhile_upto: "c \<notin> set pre \<Longrightarrow> takeWhile (\<lambda>x. x \<noteq> c) (pre @ c # s) = pre"
  by (induction pre) auto

lemma parse_end: "DQ \<notin> set s \<Longrightarrow> parse_loop s p = Some p"
proof -
  assume "DQ \<notin> set s"
  then have "dropWhile (\<lambda>c. c \<noteq> DQ) s = []" by auto
  then show ?thesis unfolding parse_loop.simps [of s p] by (simp only: list.case)
qed

text \<open>The scanner in front of a key and its colon: what it does next depends on the first byte of the value.\<close>

lemma parse_field:
  assumes "DQ \<notin> set pre" and "k \<noteq> DQ" and "\<not> is_blank x"
  shows "parse_loop (pre @ DQ # k # DQ # CHR '':'' # x # s) p =
    (if x = DQ then
       (let (val, escapes, r) = scan_val s
        in parse_loop r (set_str k (if escapes then unescape val else val) p))
     else parse_loop (dropWhile (\<lambda>c. c \<noteq> CHR '','' \<and> c \<noteq> CHR ''}'') (x # s))
            (set_num k (rstrip (takeWhile (\<lambda>c. c \<noteq> CHR '','' \<and> c \<noteq> CHR ''}'') (x # s))) p))"
proof -
  let ?s = "pre @ DQ # k # DQ # CHR '':'' # x # s"
  have 1: "dropWhile (\<lambda>c. c \<noteq> DQ) ?s = DQ # k # DQ # CHR '':'' # x # s"
    using assms(1) by (rule dropWhile_upto)
  have 2: "dropWhile (\<lambda>c. c \<noteq> DQ) (k # DQ # CHR '':'' # x # s) = DQ # CHR '':'' # x # s"
    "takeWhile (\<lambda>c. c \<noteq> DQ) (k # DQ # CHR '':'' # x # s) = [k]"
    using assms(2) by simp_all
  have 3: "dropWhile (\<lambda>c. c \<noteq> CHR '':'') (CHR '':'' # x # s) = CHR '':'' # x # s"
    by simp
  have 4: "dropWhile is_blank (x # s) = x # s"
    using assms(3) by simp
  show ?thesis
    unfolding parse_loop.simps [of ?s p] 1 list.case 2 Let_def 3 4 by (rule refl)
qed

lemma parse_str_field:
  assumes "DQ \<notin> set pre" and "k \<noteq> DQ" and "scan_val s = (v, escapes, r)"
  shows "parse_loop (pre @ DQ # k # DQ # CHR '':'' # DQ # s) p =
    parse_loop r (set_str k (if escapes then unescape v else v) p)"
proof -
  have "\<not> is_blank DQ" by (simp add: is_blank_def)
  from parse_field [OF assms(1,2) this, of s p] show ?thesis
    by (simp only: assms(3) if_True refl Let_def prod.case)
qed

lemma rstrip_id: "s \<noteq> [] \<Longrightarrow> \<not> is_blank (last s) \<Longrightarrow> rstrip s = s"
  by (cases s rule: rev_cases) (auto simp: rstrip_def)

lemma parse_num_field:
  assumes "DQ \<notin> set pre" and "k \<noteq> DQ"
    and num: "num = x # xs" "x \<noteq> DQ" "\<not> is_blank x" "\<not> is_blank (last num)"
    and sep: "CHR '','' \<notin> set num" "CHR ''}'' \<notin> set num" "t = CHR '','' \<or> t = CHR ''}''"
  shows "parse_loop (pre @ DQ # k # DQ # CHR '':'' # num @ t # r) p = parse_loop (t # r) (set_num k num p)"
proof -
  have tw: "takeWhile (\<lambda>c. c \<noteq> CHR '','' \<and> c \<noteq> CHR ''}'') (num @ t # r) = num"
    using sep by (subst takeWhile_append2) auto
  have dw: "dropWhile (\<lambda>c. c \<noteq> CHR '','' \<and> c \<noteq> CHR ''}'') (num @ t # r) = t # r"
    using sep by (subst dropWhile_append2) auto
  have rs: "rstrip num = num"
    using num(1,4) by (intro rstrip_id) auto
  have "num @ t # r = x # xs @ t # r" using num(1) by simp
  then show ?thesis
    using parse_field [OF assms(1,2) num(3), of "xs @ t # r" p] num(2) tw dw rs
    by (simp only: if_False)
qed

text \<open>Codes are logged without escaping, so they must hold neither quote nor backslash nor line end.\<close>

definition log_safe :: "string \<Rightarrow> bool" where
  "log_safe c \<longleftrightarrow> c \<noteq> [] \<and> (\<forall>x \<in> set c. x \<noteq> DQ \<and> x \<noteq> BSL \<and> x \<noteq> NL)"

lemma scan_val_safe: "log_safe c \<Longrightarrow> scan_val (c @ DQ # r) = (c, False, r)"
  using scan_val_plain [of c "DQ # r"] by (auto simp: log_safe_def)

lemma itoa_no_sep:
  "CHR '','' \<notin> set (itoa [] n)" "CHR ''}'' \<notin> set (itoa [] n)" "DQ \<notin> set (itoa [] n)"
  "NL \<notin> set (itoa [] n)" "CHR '' '' \<notin> set (itoa [] n)" "TAB \<notin> set (itoa [] n)"
  by (rule itoa_avoids, simp)+

lemma parse_itoa_field:
  assumes "DQ \<notin> set pre" and "k \<noteq> DQ" and "t = CHR '','' \<or> t = CHR ''}''"
  shows "parse_loop (pre @ DQ # k # DQ # CHR '':'' # itoa [] n @ t # r) p = parse_loop (t # r) (set_num k (itoa [] n) p)"
proof -
  obtain x xs where x: "itoa [] n = x # xs"
    by (cases "itoa [] n") auto
  have "y \<noteq> DQ \<and> \<not> is_blank y" if "y \<in> set (itoa [] n)" for y
    using that itoa_no_sep [of n] by (auto simp: is_blank_def)
  then have "x \<noteq> DQ" "\<not> is_blank x" "\<not> is_blank (last (itoa [] n))"
    using x last_in_set [of "itoa [] n"] by auto
  from parse_num_field [OF assms(1,2) x this itoa_no_sep(1,2) assms(3)] show ?thesis .
qed

lemma parse_null_field:
  assumes "DQ \<notin> set pre" and "k \<noteq> DQ" and "t = CHR '','' \<or> t = CHR ''}''"
  shows "parse_loop (pre @ DQ # k # DQ # CHR '':'' # ''null'' @ t # r) p = parse_loop (t # r) (set_num k ''null'' p)"
  by (rule parse_num_field [OF assms(1,2) refl]) (use assms(3) in \<open>auto simp: is_blank_def\<close>)

lemma itoa_not_null: "itoa [] n \<noteq> ''null''"
  using itoa_avoids [of "CHR ''n''" n] by auto

lemma set_num_itoa:
  assumes "in_i64 v"
  shows "set_num (CHR ''a'') (itoa [] v) p = p\<lparr>op_a := v\<rparr>"
    "set_num (CHR ''e'') (itoa [] v) p = p\<lparr>op_e := v, op_has_e := True\<rparr>"
    "set_num (CHR ''i'') (itoa [] v) p = p\<lparr>op_i := v\<rparr>"
    "set_num (CHR ''n'') (itoa [] v) p = p\<lparr>op_n := v\<rparr>"
    "set_num (CHR ''d'') (itoa [] v) p = p\<lparr>op_d := v\<rparr>"
  using assms itoa_not_null [of v] by (simp_all add: set_num_def)

lemma row_line_split:
  "row_line c u a e i n =
     [CHR ''{''] @ DQ # CHR ''c'' # DQ # CHR '':'' # DQ # c @ DQ #
     ([CHR '',''] @ DQ # CHR ''u'' # DQ # CHR '':'' # DQ # esc [] u @ DQ #
     ([CHR '',''] @ DQ # CHR ''a'' # DQ # CHR '':'' # itoa [] a @
      CHR '','' # ([] @ DQ # CHR ''e'' # DQ # CHR '':'' # (if e = 0 then ''null'' else itoa [] e) @
      CHR '','' # ([] @ DQ # CHR ''i'' # DQ # CHR '':'' # itoa [] i @
      CHR '','' # ([] @ DQ # CHR ''n'' # DQ # CHR '':'' # itoa [] n @ [CHR ''}''])))))"
  by (simp add: row_line_def row_line_into_def Let_def esc_append [of "_ @ _"] itoa_append [of "_ @ _"]
      esc_append [of "_ # _"] itoa_append [of "_ # _"])

lemma hit_line_split:
  "hit_line c d i =
     [CHR ''{''] @ DQ # CHR ''h'' # DQ # CHR '':'' # DQ # c @ DQ #
     ([CHR '',''] @ DQ # CHR ''d'' # DQ # CHR '':'' # itoa [] d @
      CHR '','' # ([] @ DQ # CHR ''i'' # DQ # CHR '':'' # itoa [] i @ [CHR ''}'']))"
  by (simp add: hit_line_def hit_line_into_def Let_def itoa_append [of "_ @ _"] itoa_append [of "_ # _"])

lemma del_line_split: "del_line c = [CHR ''{''] @ DQ # CHR ''x'' # DQ # CHR '':'' # DQ # c @ DQ # [CHR ''}'']"
  by (simp add: del_line_def del_line_into_def)

definition row_op :: "string \<Rightarrow> string \<Rightarrow> i64 \<Rightarrow> i64 \<Rightarrow> i64 \<Rightarrow> i64 \<Rightarrow> op" where
  "row_op c u a e i n =
     op0\<lparr>op_c := c, op_u := u, op_a := a, op_e := e, op_i := i, op_n := n, op_has_e := (e \<noteq> 0)\<rparr>"

definition hit_op :: "string \<Rightarrow> i64 \<Rightarrow> i64 \<Rightarrow> op" where
  "hit_op c d i = op0\<lparr>op_h := c, op_d := d, op_i := i\<rparr>"

definition del_op :: "string \<Rightarrow> op" where
  "del_op c = op0\<lparr>op_x := c\<rparr>"

lemma parse_comma: "parse_loop (CHR '','' # ([] @ s)) p = parse_loop ([CHR '',''] @ s) p"
  by simp

lemma parse_row_line:
  assumes c: "log_safe c" and r: "in_i64 a" "in_i64 e" "in_i64 i" "in_i64 n"
  shows "parse_op (row_line c u a e i n) = Some (row_op c u a e i n)"
proof -
  have pre: "DQ \<notin> set [CHR ''{'']" "DQ \<notin> set [CHR '','']" by simp_all
  note str = parse_str_field [OF pre(1) _ scan_val_safe [OF c]] parse_str_field [OF pre(2) _ scan_val_esc]
  note num = parse_itoa_field [OF pre(2)] parse_null_field [OF pre(2)]
  have key: "CHR ''c'' \<noteq> DQ" "CHR ''u'' \<noteq> DQ" "CHR ''a'' \<noteq> DQ" "CHR ''e'' \<noteq> DQ" "CHR ''i'' \<noteq> DQ"
    "CHR ''n'' \<noteq> DQ" by simp_all
  have fin: "parse_loop [CHR ''}''] p = Some p" for p by (rule parse_end) simp
  show ?thesis
  proof (cases "e = 0")
    case True
    have "parse_loop (row_line c u a e i n) op0 = Some (row_op c u a e i n)"
      unfolding row_line_split
      by (simp only: True simp_thms if_True str [OF key(1)] str(2) [OF key(2)] parse_comma
          num(1) [OF key(3)] num(2) [OF key(4)] num(1) [OF key(5)] num(1) [OF key(6)] fin
          set_num_itoa [OF r(1)] set_num_itoa [OF r(3)] set_num_itoa [OF r(4)] scanned_value)
        (simp add: row_op_def set_str_def set_num_def op0_def)
    then show ?thesis using c by (simp add: parse_op_def row_op_def op0_def log_safe_def)
  next
    case False
    have "parse_loop (row_line c u a e i n) op0 = Some (row_op c u a e i n)"
      unfolding row_line_split
      by (simp only: False simp_thms if_False str [OF key(1)] str(2) [OF key(2)] parse_comma
          num(1) [OF key(3)] num(1) [OF key(4)] num(1) [OF key(5)] num(1) [OF key(6)] fin
          set_num_itoa [OF r(1)] set_num_itoa [OF r(2)] set_num_itoa [OF r(3)] set_num_itoa [OF r(4)]
          scanned_value)
        (simp add: row_op_def set_str_def op0_def False)
    then show ?thesis using c by (simp add: parse_op_def row_op_def op0_def log_safe_def)
  qed
qed

lemma parse_hit_line:
  assumes c: "log_safe c" and r: "in_i64 d" "in_i64 i"
  shows "parse_op (hit_line c d i) = Some (hit_op c d i)"
proof -
  have pre: "DQ \<notin> set [CHR ''{'']" "DQ \<notin> set [CHR '','']" by simp_all
  have key: "CHR ''h'' \<noteq> DQ" "CHR ''d'' \<noteq> DQ" "CHR ''i'' \<noteq> DQ" by simp_all
  note num = parse_itoa_field [OF pre(2)]
  have fin: "parse_loop [CHR ''}''] p = Some p" for p by (rule parse_end) simp
  have "parse_loop (hit_line c d i) op0 = Some (hit_op c d i)"
    unfolding hit_line_split
    by (simp only: simp_thms parse_str_field [OF pre(1) key(1) scan_val_safe [OF c]] parse_comma
        num [OF key(2)] num [OF key(3)] fin set_num_itoa [OF r(1)] set_num_itoa [OF r(2)])
      (simp add: hit_op_def set_str_def op0_def)
  then show ?thesis using c by (simp add: parse_op_def hit_op_def op0_def log_safe_def)
qed

lemma parse_del_line: "log_safe c \<Longrightarrow> parse_op (del_line c) = Some (del_op c)"
proof -
  assume c: "log_safe c"
  have pre: "DQ \<notin> set [CHR ''{'']" and key: "CHR ''x'' \<noteq> DQ" by simp_all
  have fin: "parse_loop [CHR ''}''] p = Some p" for p by (rule parse_end) simp
  have "parse_loop (del_line c) op0 = Some (del_op c)"
    unfolding del_line_split parse_str_field [OF pre key scan_val_safe [OF c]] fin
    by (simp add: del_op_def set_str_def)
  then show ?thesis using c by (simp add: parse_op_def del_op_def op0_def log_safe_def)
qed

text \<open>No line holds the byte that ends it, and no line is empty.\<close>

lemma log_safe_no_NL: "log_safe c \<Longrightarrow> NL \<notin> set c"
  by (auto simp: log_safe_def)

lemma esc_no_NL: "NL \<notin> set (esc [] u)"
  using esc_no_ctrl [of NL u] by auto

lemma row_line_framed: "log_safe c \<Longrightarrow> NL \<notin> set (row_line c u a e i n) \<and> row_line c u a e i n \<noteq> []"
  using log_safe_no_NL [of c] esc_no_NL [of u] itoa_no_sep(4) by (simp add: row_line_split)

lemma hit_line_framed: "log_safe c \<Longrightarrow> NL \<notin> set (hit_line c d i) \<and> hit_line c d i \<noteq> []"
  using log_safe_no_NL [of c] itoa_no_sep(4) by (simp add: hit_line_split)

lemma del_line_framed: "log_safe c \<Longrightarrow> NL \<notin> set (del_line c) \<and> del_line c \<noteq> []"
  using log_safe_no_NL [of c] by (simp add: del_line_split)

lemma row_line_into_eq: "row_line_into b c u a e i n = b @ row_line c u a e i n"
  by (simp add: row_line_def row_line_into_def Let_def esc_append [of "_ @ _"] itoa_append [of "_ @ _"]
      esc_append [of "_ # _"] itoa_append [of "_ # _"])

lemma hit_line_into_eq: "hit_line_into b c d i = b @ hit_line c d i"
  by (simp add: hit_line_def hit_line_into_def Let_def itoa_append [of "_ @ _"] itoa_append [of "_ # _"])

text \<open>Every number the reader stores is a 64-bit value.\<close>

definition op_ok :: "op \<Rightarrow> bool" where
  "op_ok p \<longleftrightarrow> in_i64 (op_a p) \<and> in_i64 (op_e p) \<and> in_i64 (op_i p) \<and> in_i64 (op_n p) \<and> in_i64 (op_d p)"

lemma op_ok_op0 [simp]: "op_ok op0"
  by (simp add: op_ok_def op0_def)

lemma op_ok_set_str [simp]: "op_ok (set_str k s p) = op_ok p"
  by (simp add: set_str_def op_ok_def)

lemma op_ok_set_num [simp]: "op_ok p \<Longrightarrow> op_ok (set_num k s p)"
  by (auto simp: set_num_def op_ok_def Let_def)

lemma parse_loop_ok: "parse_loop s p = Some q \<Longrightarrow> op_ok p \<Longrightarrow> op_ok q"
proof (induction s p arbitrary: q rule: parse_loop.induct)
  case (1 s p)
  show ?case
  proof (cases "dropWhile (\<lambda>c. c \<noteq> DQ) s")
    case Nil
    with "1.prems" show ?thesis unfolding parse_loop.simps [of s p] Nil by simp
  next
    case s1: (Cons a s1)
    show ?thesis
    proof (cases "dropWhile (\<lambda>c. c \<noteq> DQ) s1")
      case Nil
      with "1.prems" show ?thesis unfolding parse_loop.simps [of s p] s1 list.case Nil by simp
    next
      case s2: (Cons b s2)
      define key where "key = (case takeWhile (\<lambda>c. c \<noteq> DQ) s1 of [] \<Rightarrow> CHR 0x00 | k # _ \<Rightarrow> k)"
      note eq = parse_loop.simps [of s p, unfolded s1 list.case s2, folded key_def, unfolded Let_def]
      show ?thesis
      proof (cases "\<exists>c s3 x s4. dropWhile (\<lambda>c. c \<noteq> CHR '':'') s2 = c # s3 \<and> dropWhile is_blank s3 = x # s4")
        case False
        with "1.prems" show ?thesis unfolding eq by (auto split: list.splits)
      next
        case True
        then obtain c s3 x s4 where s3: "dropWhile (\<lambda>c. c \<noteq> CHR '':'') s2 = c # s3"
          and s4: "dropWhile is_blank s3 = x # s4" by blast
        obtain v e r where v: "scan_val s4 = (v, e, r)" by (cases "scan_val s4")
        show ?thesis
          using "1.prems"(1) "1.IH"(1) [OF s1 s2 key_def s3 s4 _ v [symmetric] refl refl, of q]
            "1.IH"(2) [OF s1 s2 key_def s3 s4 _ refl refl, of q] "1.prems"(2)
          unfolding eq s3 s4 list.case v prod.case by (cases "x = DQ") simp_all
      qed
    qed
  qed
qed

lemma parse_op_ok: "parse_op line = Some q \<Longrightarrow> op_ok q"
  by (auto simp: parse_op_def split: option.splits if_splits dest: parse_loop_ok)

section \<open>Properties\<close>

text \<open>
  A row line of the log is read back by \<^verbatim>\<open>parse_op\<close> to the very fields it was printed from,
  for every URL (escaping included) and every code without quote, backslash and line end; an
  expiry of 0 is printed as \<^verbatim>\<open>null\<close> and read back as absent.
\<close>

lemma row_line_round_trip:
  assumes "log_safe c" and "in_i64 a" and "in_i64 e" and "in_i64 i" and "in_i64 n"
  shows "parse_op (row_line c u a e i n) =
    Some \<lparr>op_c = c, op_u = u, op_h = [], op_x = [], op_a = a, op_e = e, op_i = i, op_n = n, op_d = 0,
          op_has_e = (e \<noteq> 0)\<rparr>"
  using parse_row_line [OF assms] by (simp add: row_op_def op0_def)

text \<open>
  Undoing the escapes of an escaped string gives the string back, for every byte string, and an
  escaped string holds no control character.
\<close>

lemma esc_round_trip: "unescape (esc [] s) = s \<and> list_all (\<lambda>d. 32 \<le> (of_char d :: nat)) (esc [] s)"
  using unescape_esc esc_no_ctrl by (metis list_all_iff not_le)

end
