(* ===== verification/Aof.thy ===== *)
theory Aof
  imports Codec
begin

text \<open>
  The append-only log of \<^verbatim>\<open>src/src/aof.cpp\<close> and \<^verbatim>\<open>src/src/aof.hpp\<close>: buffered pushes, the flush
  loop, truncation, replay of a file, tail readers of sibling logs, instance claiming by lock
  files and the listing of shard logs. The operating system is a parameter: the record \<open>os\<close> holds
  what its calls answer. Reads of a regular file return the bytes asked for.
\<close>

section \<open>Definitions\<close>

type_synonym fs = "(string, string) umap"

text \<open>\<open>files\<close> is what the page cache shows to every process, \<open>durable\<close> what the last \<^verbatim>\<open>fsync\<close> of a file left on the medium.\<close>

record disk =
  files :: fs
  durable :: fs

record os =
  os_write :: "fs \<Rightarrow> string \<Rightarrow> string \<Rightarrow> int" \<comment> \<open>\<^verbatim>\<open>write(fd, p, left)\<close> on a path: its return value\<close>
  os_creat :: "fs \<Rightarrow> string \<Rightarrow> bool" \<comment> \<open>whether \<^verbatim>\<open>open\<close> for writing succeeds\<close>
  os_alive :: "int \<Rightarrow> bool" \<comment> \<open>\<^verbatim>\<open>kill(pid, 0)\<close> finds a process\<close>
  os_pid :: int \<comment> \<open>\<^verbatim>\<open>getpid()\<close>\<close>

text \<open>A descriptor opened with \<^verbatim>\<open>O_APPEND\<close> writes at the end, one opened without at its own offset.\<close>

datatype wmode = Append | Offset nat

record aof =
  aof_buf :: string
  aof_fd :: "wmode option" \<comment> \<open>\<open>None\<close> is \<^verbatim>\<open>fd = -1\<close>\<close>
  aof_path :: string

definition aof0 :: aof where
  "aof0 = \<lparr>aof_buf = [], aof_fd = None, aof_path = []\<rparr>"

definition file_content :: "fs \<Rightarrow> string \<Rightarrow> string" where
  "file_content f p = um_get [] f p"

definition file_size :: "fs \<Rightarrow> string \<Rightarrow> nat" where
  "file_size f p = length (file_content f p)"

subsection \<open>Writing\<close>

fun write_at :: "wmode \<Rightarrow> string \<Rightarrow> string \<Rightarrow> string" where
  "write_at Append old bytes = old @ bytes"
| "write_at (Offset k) old bytes =
     take k old @ replicate (k - length old) (CHR 0x00) @ bytes @ drop (k + length bytes) old"

fun advance :: "wmode \<Rightarrow> nat \<Rightarrow> wmode" where
  "advance Append n = Append"
| "advance (Offset k) n = Offset (k + n)"

definition open_at :: "os \<Rightarrow> string \<Rightarrow> string \<Rightarrow> aof \<Rightarrow> disk \<Rightarrow> bool \<times> aof \<times> disk" where
  "open_at sys dir name a d =
     (let path = dir @ ''/'' @ name
      in if os_creat sys (files d) path
         then (True, a\<lparr>aof_path := path, aof_fd := Some Append\<rparr>,
               d\<lparr>files := um_emplace path [] (files d)\<rparr>)
         else (False, a\<lparr>aof_path := path, aof_fd := None\<rparr>, d))"

definition push :: "string \<Rightarrow> aof \<Rightarrow> aof" where
  "push line a = a\<lparr>aof_buf := aof_buf a @ line @ [NL]\<rparr>"

definition push_raw :: "string \<Rightarrow> aof \<Rightarrow> aof" where
  "push_raw bytes a = a\<lparr>aof_buf := aof_buf a @ bytes\<rparr>"

definition pending_bytes :: "aof \<Rightarrow> nat" where
  "pending_bytes a = length (aof_buf a)"

text \<open>The loop \<^verbatim>\<open>while (left)\<close> of \<^verbatim>\<open>Aof::flush\<close>: it stops at the first call that writes nothing.\<close>

function (sequential) flush_loop :: "os \<Rightarrow> fs \<Rightarrow> string \<Rightarrow> wmode \<Rightarrow> string \<Rightarrow> fs \<times> wmode" where
  "flush_loop sys f path m p =
     (if p = [] then (f, m)
      else let n = os_write sys f path p
           in if n \<le> 0 then (f, m)
              else let k = nat n; bytes = take k p
                   in flush_loop sys (um_put path (write_at m (file_content f path) bytes) f) path
                        (advance m (length bytes)) (drop k p))"
  by pat_completeness auto
termination
  by (relation "measure (\<lambda>(sys, f, path, m, p). length p)") auto

declare flush_loop.simps [simp del]

definition aof_flush :: "os \<Rightarrow> aof \<Rightarrow> disk \<Rightarrow> aof \<times> disk" where
  "aof_flush sys a d =
     (case aof_fd a of
        None \<Rightarrow> (a, d)
      | Some m \<Rightarrow>
          if aof_buf a = [] then (a, d)
          else let (f, m') = flush_loop sys (files d) (aof_path a) m (aof_buf a)
               in (a\<lparr>aof_buf := [], aof_fd := Some m'\<rparr>, d\<lparr>files := f\<rparr>))"

definition fsync_file :: "string \<Rightarrow> disk \<Rightarrow> disk" where
  "fsync_file path d = d\<lparr>durable := um_put path (file_content (files d) path) (durable d)\<rparr>"

definition aof_sync :: "os \<Rightarrow> aof \<Rightarrow> disk \<Rightarrow> aof \<times> disk" where
  "aof_sync sys a d =
     (let (a, d) = aof_flush sys a d
      in (a, if aof_fd a \<noteq> None then fsync_file (aof_path a) d else d))"

definition aof_truncate :: "os \<Rightarrow> aof \<Rightarrow> disk \<Rightarrow> aof \<times> disk" where
  "aof_truncate sys a d =
     (let (a, d) = aof_flush sys a d
      in if os_creat sys (files d) (aof_path a)
         then (a\<lparr>aof_fd := Some (Offset 0)\<rparr>, d\<lparr>files := um_put (aof_path a) [] (files d)\<rparr>)
         else (a\<lparr>aof_fd := None\<rparr>, d))"

definition aof_close :: "os \<Rightarrow> aof \<Rightarrow> disk \<Rightarrow> aof \<times> disk" where
  "aof_close sys a d =
     (if aof_fd a = None then (a, d)
      else let (a, d) = aof_flush sys a d
           in (a\<lparr>aof_fd := None\<rparr>, fsync_file (aof_path a) d))"

subsection \<open>Reading\<close>

text \<open>
  The loop over a buffer that hands every non-empty line to the callback: the lines and the bytes
  behind the last line end. The accumulator is the part of the current line already seen.
\<close>

fun split_lines :: "string \<Rightarrow> string \<Rightarrow> string list \<times> string" where
  "split_lines cur [] = ([], cur)"
| "split_lines cur (c # s) =
     (if c = NL then
        (let (ls, r) = split_lines [] s in (if cur \<noteq> [] then cur # ls else ls, r))
      else split_lines (cur @ [c]) s)"

definition replay_file :: "fs \<Rightarrow> string \<Rightarrow> (string \<Rightarrow> 's \<Rightarrow> 's) \<Rightarrow> 's \<Rightarrow> 's" where
  "replay_file f path cb s =
     (case um_find f path of
        None \<Rightarrow> s
      | Some buf \<Rightarrow> fold cb (fst (split_lines [] buf)) s)"

record tail_reader =
  tr_path :: string
  tr_offset :: nat
  tr_leftover :: string

definition TailReader :: "string \<Rightarrow> tail_reader" where
  "TailReader p = \<lparr>tr_path = p, tr_offset = 0, tr_leftover = []\<rparr>"

definition read_new :: "fs \<Rightarrow> tail_reader \<Rightarrow> string list \<times> tail_reader" where
  "read_new f t =
     (let size = file_size f (tr_path t);
          t = (if size < tr_offset t then t\<lparr>tr_offset := 0, tr_leftover := []\<rparr> else t)
      in if size \<le> tr_offset t then ([], t)
         else let buf = drop (tr_offset t) (file_content f (tr_path t));
                  (ls, r) = split_lines [] (tr_leftover t @ buf)
              in (ls, t\<lparr>tr_offset := tr_offset t + length buf, tr_leftover := r\<rparr>))"

subsection \<open>Instances and shard logs\<close>

definition wrap32 :: "int \<Rightarrow> int" where
  "wrap32 x = signed_take_bit 31 x"

definition try_lock :: "os \<Rightarrow> string \<Rightarrow> fs \<Rightarrow> bool \<times> fs" where
  "try_lock sys lock f =
     (if um_count f lock \<or> \<not> os_creat sys f lock then (False, f)
      else let s = to_string (os_pid sys); f = um_put lock [] f
           in (True, um_put lock (take (nat (os_write sys f lock s)) s) f))"

definition lock_name :: "string \<Rightarrow> nat \<Rightarrow> string" where
  "lock_name dir i = dir @ ''/instance-'' @ to_string (int i) @ ''.lock''"

text \<open>
  One round of the loop of \<^verbatim>\<open>claim_instance\<close>: whether the lock was taken. Reading a lock that exists and taking it from a
  process that is gone are separate definitions, because another process can come in between.
\<close>

definition lock_stale :: "os \<Rightarrow> string \<Rightarrow> fs \<Rightarrow> bool" where
  "lock_stale sys lock f =
     (case um_find f lock of
        None \<Rightarrow> False
      | Some content \<Rightarrow>
          let buf = take 31 content; pid = wrap32 (strtoll buf)
          in if buf = [] then False else if pid \<le> 0 \<or> os_alive sys pid then False else True)"

definition lock_steal :: "os \<Rightarrow> string \<Rightarrow> fs \<Rightarrow> bool \<times> fs" where
  "lock_steal sys lock f = try_lock sys lock (um_erase lock f)"

definition claim_step :: "os \<Rightarrow> string \<Rightarrow> nat \<Rightarrow> fs \<Rightarrow> bool \<times> fs" where
  "claim_step sys dir i f =
     (let lock = lock_name dir i; (got, f) = try_lock sys lock f
      in if got then (True, f) else if lock_stale sys lock f then lock_steal sys lock f else (False, f))"

fun claim_loop :: "os \<Rightarrow> string \<Rightarrow> nat list \<Rightarrow> fs \<Rightarrow> (int \<times> string) \<times> fs" where
  "claim_loop sys dir [] f = ((-1, []), f)"
| "claim_loop sys dir (i # is) f =
     (let (got, f) = claim_step sys dir i f
      in if got then ((int i, lock_name dir i), f) else claim_loop sys dir is f)"

definition claim_instance :: "os \<Rightarrow> string \<Rightarrow> fs \<Rightarrow> (int \<times> string) \<times> fs" where
  "claim_instance sys dir f = claim_loop sys dir [0..<1024] f"

definition dir_names :: "fs \<Rightarrow> string \<Rightarrow> string list" where
  "dir_names f dir =
     map (drop (Suc (length dir)))
       (filter (\<lambda>p. starts_with p (dir @ ''/'') \<and> CHR ''/'' \<notin> set (drop (Suc (length dir)) p)) (map fst f))"

definition is_shard_log :: "string \<Rightarrow> bool" where
  "is_shard_log n \<longleftrightarrow> starts_with n ''data-'' \<and> length n > 4 \<and> drop (length n - 4) n = ''.log''"

definition shard_files :: "fs \<Rightarrow> string \<Rightarrow> string \<Rightarrow> string list" where
  "shard_files f dir own = sort (filter (\<lambda>n. is_shard_log n \<and> n \<noteq> own) (dir_names f dir))"

section \<open>Framing\<close>

lemma split_lines_append:
  "split_lines cur (s @ t) = (let (ls, r) = split_lines cur s; (ls', r') = split_lines r t in (ls @ ls', r'))"
  by (induction s arbitrary: cur) (auto simp: Let_def split: prod.splits)

lemma split_lines_torn: "NL \<notin> set s \<Longrightarrow> split_lines cur s = ([], cur @ s)"
  by (induction s arbitrary: cur) auto

text \<open>Bytes already seen may be given as the current line or in front of the rest.\<close>

lemma split_lines_cur: "NL \<notin> set cur \<Longrightarrow> split_lines [] (cur @ s) = split_lines cur s"
  by (simp add: split_lines_append split_lines_torn)

lemma split_lines_leftover: "NL \<notin> set cur \<Longrightarrow> split_lines cur s = (ls, r) \<Longrightarrow> NL \<notin> set r"
proof (induction s arbitrary: cur ls r)
  case Nil
  then show ?case by simp
next
  case (Cons c s)
  show ?case
    using Cons.IH [of "[]" _ r] Cons.IH [of "cur @ [c]" ls r] Cons.prems
    by (auto split: if_splits prod.splits)
qed

definition framed :: "string \<Rightarrow> bool" where
  "framed l \<longleftrightarrow> l \<noteq> [] \<and> NL \<notin> set l"

definition unlines :: "string list \<Rightarrow> string" where
  "unlines ls = concat (map (\<lambda>l. l @ [NL]) ls)"

lemma unlines_simps [simp]:
  "unlines [] = []" "unlines (l # ls) = l @ NL # unlines ls" "unlines (ls @ ls') = unlines ls @ unlines ls'"
  by (simp_all add: unlines_def)

lemma split_line: "framed l \<Longrightarrow> split_lines [] (l @ NL # s) = (let (ls, r) = split_lines [] s in (l # ls, r))"
  by (simp add: split_lines_append split_lines_torn framed_def split: prod.splits)

lemma split_unlines:
  "list_all framed ls \<Longrightarrow> split_lines [] (unlines ls @ s) = (let (ls', r) = split_lines [] s in (ls @ ls', r))"
  by (induction ls) (auto simp: split_line split: prod.splits)

lemma split_lines_framed: "split_lines cur s = (ls, r) \<Longrightarrow> NL \<notin> set cur \<Longrightarrow> list_all framed ls"
proof (induction s arbitrary: cur ls r)
  case Nil
  then show ?case by simp
next
  case (Cons c s)
  show ?case
  proof (cases "c = NL")
    case True
    obtain ls' r' where "split_lines [] s = (ls', r')" by (cases "split_lines [] s")
    then show ?thesis using Cons True by (auto simp: framed_def split: if_splits)
  next
    case False
    then have "split_lines (cur @ [c]) s = (ls, r)" using Cons.prems by simp
    then show ?thesis by (rule Cons.IH) (use False Cons.prems in auto)
  qed
qed

section \<open>Flushing\<close>

text \<open>
  What the log relies on: \<^verbatim>\<open>write\<close> to a regular file makes progress and never reports more
  bytes than it was given (no error, no full disk).
\<close>

definition write_ok :: "os \<Rightarrow> bool" where
  "write_ok sys \<longleftrightarrow> (\<forall>f p s. s \<noteq> [] \<longrightarrow> 0 < os_write sys f p s \<and> os_write sys f p s \<le> int (length s))"

definition at_end :: "wmode \<Rightarrow> string \<Rightarrow> bool" where
  "at_end m old \<longleftrightarrow> (case m of Append \<Rightarrow> True | Offset k \<Rightarrow> k = length old)"

lemma write_at_end: "at_end m old \<Longrightarrow> write_at m old bytes = old @ bytes"
  by (cases m) (auto simp: at_end_def)

lemma at_end_advance: "at_end m old \<Longrightarrow> at_end (advance m (length bytes)) (old @ bytes)"
  by (cases m) (auto simp: at_end_def)

lemma file_content_put [simp]: "file_content (um_put p s f) q = (if q = p then s else file_content f q)"
  by (simp add: file_content_def um_get_def um_simps)

lemma flush_loop_ok:
  assumes "write_ok sys" and "at_end m (file_content f path)" and "p \<noteq> []"
  shows "\<exists>m' f'. flush_loop sys f path m p = (f', m') \<and> at_end m' (file_content f path @ p)
           \<and> (\<forall>q. um_find f' q = (if q = path then Some (file_content f path @ p) else um_find f q))
           \<and> (um_inv f \<longrightarrow> um_inv f')"
  using assms
proof (induction sys f path m p rule: flush_loop.induct)
  case (1 sys f path m p)
  let ?old = "file_content f path" and ?k = "nat (os_write sys f path p)"
  let ?f = "um_put path (?old @ take ?k p) f" and ?m = "advance m (length (take ?k p))"
  have n: "0 < os_write sys f path p" using "1.prems" by (simp add: write_ok_def)
  have w: "write_at m ?old (take ?k p) = ?old @ take ?k p" using "1.prems"(2) by (rule write_at_end)
  have e: "at_end ?m (?old @ take ?k p)" using "1.prems"(2) by (rule at_end_advance)
  have step: "flush_loop sys f path m p = flush_loop sys ?f path ?m (drop ?k p)"
    using n "1.prems"(3) w by (subst flush_loop.simps) (simp add: Let_def)
  show ?case
  proof (cases "drop ?k p = []")
    case True
    have tk: "take ?k p = p" using True by simp
    have "flush_loop sys ?f path ?m (drop ?k p) = (?f, ?m)"
      by (subst flush_loop.simps) (simp add: True)
    then show ?thesis using step e tk by (auto simp: um_simps um_invars)
  next
    case False
    have e': "at_end ?m (file_content ?f path)" using e by simp
    note IH = "1.IH" [OF "1.prems"(3) refl _ refl refl "1.prems"(1), unfolded w]
    have "\<not> os_write sys f path p \<le> 0" using n by simp
    from IH [OF this e' False] show ?thesis
      unfolding step by (auto simp: um_simps um_invars)
  qed
qed

lemma aof_flush_ok:
  assumes "write_ok sys" and "aof_fd a = Some m" and "at_end m (file_content (files d) (aof_path a))"
  shows "\<exists>m' f. aof_flush sys a d = (a\<lparr>aof_buf := [], aof_fd := Some m'\<rparr>, d\<lparr>files := f\<rparr>)
      \<and> at_end m' (file_content (files d) (aof_path a) @ aof_buf a)
      \<and> (\<forall>q. file_content f q = (if q = aof_path a then file_content (files d) q @ aof_buf a else file_content (files d) q))
      \<and> (um_inv (files d) \<longrightarrow> um_inv f)
      \<and> (\<forall>q. q \<noteq> aof_path a \<longrightarrow> um_find f q = um_find (files d) q)
      \<and> (um_count (files d) (aof_path a) \<longrightarrow> um_count f (aof_path a))"
proof (cases "aof_buf a = []")
  case True
  then have "aof_flush sys a d = (a\<lparr>aof_buf := [], aof_fd := Some m\<rparr>, d\<lparr>files := files d\<rparr>)"
    using assms(2) by (simp add: aof_flush_def)
  then show ?thesis using assms(3) True by (intro exI conjI) auto
next
  case False
  obtain m' f where fl: "flush_loop sys (files d) (aof_path a) m (aof_buf a) = (f, m')"
    and e: "at_end m' (file_content (files d) (aof_path a) @ aof_buf a)"
    and fd: "\<And>q. um_find f q = (if q = aof_path a then Some (file_content (files d) (aof_path a) @ aof_buf a)
                               else um_find (files d) q)"
    and iv: "um_inv (files d) \<longrightarrow> um_inv f"
    using flush_loop_ok [OF assms(1,3) False] by blast
  show ?thesis
    using assms(2) False fl e iv
    by (intro exI conjI) (auto simp: aof_flush_def file_content_def um_get_def um_count_def fd)
qed

section \<open>The log as its client sees it\<close>

definition whole_lines :: "string \<Rightarrow> string list" where
  "whole_lines s = fst (split_lines [] s)"

definition complete :: "string \<Rightarrow> bool" where
  "complete s \<longleftrightarrow> snd (split_lines [] s) = []"

lemma whole_lines_Nil [simp]: "whole_lines [] = []" "complete []"
  by (simp_all add: whole_lines_def complete_def)

lemma whole_lines_append: "complete s \<Longrightarrow> whole_lines (s @ t) = whole_lines s @ whole_lines t"
  by (auto simp: whole_lines_def complete_def split_lines_append split: prod.splits)

lemma complete_append: "complete s \<Longrightarrow> complete (s @ t) = complete t"
  by (auto simp: complete_def split_lines_append split: prod.splits)

lemma whole_lines_unlines: "list_all framed ls \<Longrightarrow> whole_lines (unlines ls) = ls"
  using split_unlines [of ls "[]"] by (simp add: whole_lines_def)

lemma complete_unlines: "list_all framed ls \<Longrightarrow> complete (unlines ls)"
  using split_unlines [of ls "[]"] by (simp add: complete_def)

text \<open>
  The contract of the log: the bytes it stands for are those in the file followed by those still
  in the buffer. A push appends to them, a flush leaves them as they are.
\<close>

locale append_log =
  fixes inv :: "'a \<Rightarrow> 'd \<Rightarrow> bool"
    and bytes :: "'a \<Rightarrow> 'd \<Rightarrow> string"
    and push :: "string \<Rightarrow> 'a \<Rightarrow> 'a"
    and push_raw :: "string \<Rightarrow> 'a \<Rightarrow> 'a"
    and flush :: "'a \<Rightarrow> 'd \<Rightarrow> 'a \<times> 'd"
  assumes inv_push: "inv a d \<Longrightarrow> inv (push l a) d"
    and inv_push_raw: "inv a d \<Longrightarrow> inv (push_raw s a) d"
    and inv_flush: "inv a d \<Longrightarrow> flush a d = (a', d') \<Longrightarrow> inv a' d'"
    and bytes_push: "inv a d \<Longrightarrow> bytes (push l a) d = bytes a d @ l @ [NL]"
    and bytes_push_raw: "inv a d \<Longrightarrow> bytes (push_raw s a) d = bytes a d @ s"
    and bytes_flush: "inv a d \<Longrightarrow> flush a d = (a', d') \<Longrightarrow> bytes a' d' = bytes a d"
begin

lemma push_line:
  assumes "inv a d" and "complete (bytes a d)" and "framed l"
  shows "whole_lines (bytes (push l a) d) = whole_lines (bytes a d) @ [l]" "complete (bytes (push l a) d)"
  using assms whole_lines_unlines [of "[l]"] complete_unlines [of "[l]"]
  by (simp_all add: bytes_push whole_lines_append complete_append)

lemma push_lines:
  assumes "inv a d" and "complete (bytes a d)" and "list_all framed ls"
  shows "whole_lines (bytes (push_raw (unlines ls) a) d) = whole_lines (bytes a d) @ ls"
    "complete (bytes (push_raw (unlines ls) a) d)"
  using assms by (simp_all add: bytes_push_raw whole_lines_append complete_append whole_lines_unlines complete_unlines)

end

definition log_bytes :: "aof \<Rightarrow> disk \<Rightarrow> string" where
  "log_bytes a d = file_content (files d) (aof_path a) @ aof_buf a"

definition log_inv :: "os \<Rightarrow> aof \<Rightarrow> disk \<Rightarrow> bool" where
  "log_inv sys a d \<longleftrightarrow> write_ok sys \<and> um_inv (files d) \<and> um_count (files d) (aof_path a) \<and>
     (\<exists>m. aof_fd a = Some m \<and> at_end m (file_content (files d) (aof_path a)))"

lemma aof_flush_log:
  assumes "log_inv sys a d" and "aof_flush sys a d = (a', d')"
  shows "log_inv sys a' d'" and "log_bytes a' d' = log_bytes a d" and "aof_buf a' = []"
    and "aof_path a' = aof_path a" and "durable d' = durable d"
    and "q \<noteq> aof_path a \<Longrightarrow> um_find (files d') q = um_find (files d) q"
  using aof_flush_ok [of sys a _ d] assms unfolding log_inv_def log_bytes_def by fastforce+

interpretation al: append_log "log_inv sys" log_bytes push push_raw "aof_flush sys" for sys
proof (unfold_locales, goal_cases)
  case (1 a d l)
  then show ?case by (simp add: log_inv_def push_def)
next
  case (2 a d s)
  then show ?case by (simp add: log_inv_def push_raw_def)
next
  case (3 a d a' d')
  then show ?case by (rule aof_flush_log(1))
next
  case (4 a d l)
  show ?case by (simp add: log_bytes_def push_def)
next
  case (5 a d s)
  show ?case by (simp add: log_bytes_def push_raw_def)
next
  case (6 a d a' d')
  then show ?case by (rule aof_flush_log(2))
qed

section \<open>Tail readers\<close>

text \<open>A reader is in step with a file when it has split exactly the bytes in front of its offset.\<close>

definition in_step :: "fs \<Rightarrow> tail_reader \<Rightarrow> bool" where
  "in_step f t \<longleftrightarrow> tr_offset t \<le> file_size f (tr_path t) \<and>
     tr_leftover t = snd (split_lines [] (take (tr_offset t) (file_content f (tr_path t))))"

lemma in_step_TailReader [simp]: "in_step f (TailReader p)"
  by (simp add: in_step_def TailReader_def)

lemma in_step_grow:
  assumes "in_step f t" and "prefix (file_content f (tr_path t)) (file_content f' (tr_path t))"
  shows "in_step f' t"
    and "take (tr_offset t) (file_content f' (tr_path t)) = take (tr_offset t) (file_content f (tr_path t))"
proof -
  obtain x where "file_content f' (tr_path t) = file_content f (tr_path t) @ x"
    using assms(2) by (auto simp: prefix_def)
  then show "take (tr_offset t) (file_content f' (tr_path t)) = take (tr_offset t) (file_content f (tr_path t))"
    and "in_step f' t"
    using assms(1) by (auto simp: in_step_def file_size_def)
qed

lemma read_new_in_step:
  assumes "in_step f t" and "read_new f t = (ls, t')"
  shows "in_step f t'" "tr_path t' = tr_path t" "tr_offset t' = file_size f (tr_path t)"
    "whole_lines (file_content f (tr_path t)) =
       whole_lines (take (tr_offset t) (file_content f (tr_path t))) @ ls"
proof -
  let ?c = "file_content f (tr_path t)" and ?k = "tr_offset t"
  obtain l0 r0 where s0: "split_lines [] (take ?k ?c) = (l0, r0)" by (cases "split_lines [] (take ?k ?c)")
  have r0: "tr_leftover t = r0" and le: "?k \<le> length ?c"
    using assms(1) s0 by (auto simp: in_step_def file_size_def)
  have nl: "NL \<notin> set r0" using split_lines_leftover [OF _ s0] by simp
  obtain l1 r1 where s1: "split_lines r0 (drop ?k ?c) = (l1, r1)" by (cases "split_lines r0 (drop ?k ?c)")
  have s: "split_lines [] ?c = (l0 @ l1, r1)"
    using split_lines_append [of "[]" "take ?k ?c" "drop ?k ?c"] s0 s1 by simp
  have rd: "read_new f t = (l1, t\<lparr>tr_offset := length ?c, tr_leftover := r1\<rparr>)"
  proof (cases "?k = length ?c")
    case True
    with s1 have "l1 = []" "r1 = r0" by auto
    then show ?thesis using True r0 by (simp add: read_new_def file_size_def Let_def)
  next
    case False
    then show ?thesis using le r0 s1 split_lines_cur [OF nl, of "drop ?k ?c"]
      by (simp add: read_new_def file_size_def Let_def)
  qed
  show "in_step f t'" "tr_path t' = tr_path t" "tr_offset t' = file_size f (tr_path t)"
    "whole_lines ?c = whole_lines (take ?k ?c) @ ls"
    using rd assms(2) s s0 by (auto simp: in_step_def file_size_def whole_lines_def)
qed

text \<open>Polling a reader at successive states of the file system.\<close>

fun tail_polls :: "fs list \<Rightarrow> tail_reader \<Rightarrow> string list \<times> tail_reader" where
  "tail_polls [] t = ([], t)"
| "tail_polls (f # fs) t = (let (ls, t) = read_new f t; (ls', t) = tail_polls fs t in (ls @ ls', t))"

lemma tail_polls_in_step:
  assumes "in_step f t" and "sorted_wrt prefix (map (\<lambda>f. file_content f (tr_path t)) (f # fs))"
    and "whole_lines (take (tr_offset t) (file_content f (tr_path t))) = seen"
  shows "seen @ fst (tail_polls (f # fs) t) = whole_lines (file_content (last (f # fs)) (tr_path t))"
  using assms
proof (induction fs arbitrary: f t seen)
  case Nil
  obtain ls t' where r: "read_new f t = (ls, t')" by (cases "read_new f t")
  show ?case using read_new_in_step [OF Nil.prems(1) r] Nil.prems(3) r by simp
next
  case (Cons g fs)
  obtain ls t' where r: "read_new f t = (ls, t')" by (cases "read_new f t")
  note s = read_new_in_step [OF Cons.prems(1) r]
  have p: "prefix (file_content f (tr_path t')) (file_content g (tr_path t'))"
    using Cons.prems(2) s(2) by simp
  note g = in_step_grow [OF s(1) p]
  have "(seen @ ls) @ fst (tail_polls (g # fs) t') = whole_lines (file_content (last (g # fs)) (tr_path t'))"
  proof (rule Cons.IH [OF g(1)])
    show "sorted_wrt prefix (map (\<lambda>f. file_content f (tr_path t')) (g # fs))"
      using Cons.prems(2) s(2) by simp
    show "whole_lines (take (tr_offset t') (file_content g (tr_path t'))) = seen @ ls"
      using g(2) s(2-4) Cons.prems(3) by (simp add: file_size_def)
  qed
  then show ?case using r s(2) by (auto split: prod.splits)
qed

lemma TailReader_fields [simp]: "tr_path (TailReader p) = p" "tr_offset (TailReader p) = 0"
  by (simp_all add: TailReader_def)

section \<open>Claiming an instance\<close>

lemma to_string_inject: "in_i64 n \<Longrightarrow> in_i64 m \<Longrightarrow> to_string n = to_string m \<longleftrightarrow> n = m"
  by (metis stoll_to_string option.inject)

lemma lock_name_inject: "i < 1024 \<Longrightarrow> j < 1024 \<Longrightarrow> lock_name dir i = lock_name dir j \<longleftrightarrow> i = j"
  by (auto simp: lock_name_def to_string_inject in_i64_def)

text \<open>A lock a claim may not take: its file is there and does not name a process that has gone.\<close>

definition held :: "os \<Rightarrow> fs \<Rightarrow> string \<Rightarrow> bool" where
  "held sys f lock \<longleftrightarrow> (case um_find f lock of None \<Rightarrow> False | Some content \<Rightarrow>
     let buf = take 31 content; pid = wrap32 (strtoll buf) in buf = [] \<or> pid \<le> 0 \<or> os_alive sys pid)"

lemmas claim_step_parts = claim_step_def lock_stale_def lock_steal_def

lemma claim_step_held: "held sys f (lock_name dir i) \<Longrightarrow> claim_step sys dir i f = (False, f)"
  by (auto simp: held_def claim_step_parts try_lock_def um_count_def Let_def split: option.splits)

lemma try_lock_frame: "try_lock sys lock f = (b, f') \<Longrightarrow> q \<noteq> lock \<Longrightarrow> um_find f' q = um_find f q"
  by (auto simp: try_lock_def Let_def um_simps split: if_splits)

lemma try_lock_got:
  "try_lock sys lock f = (True, f') \<Longrightarrow>
     um_find f' lock = Some (take (nat (os_write sys (um_put lock [] f) lock (to_string (os_pid sys)))) (to_string (os_pid sys)))"
  by (auto simp: try_lock_def Let_def um_simps split: if_splits)

lemma claim_step_frame:
  assumes "claim_step sys dir i f = (b, f')" and "q \<noteq> lock_name dir i"
  shows "um_find f' q = um_find f q"
proof -
  let ?l = "lock_name dir i"
  obtain got g where t: "try_lock sys ?l f = (got, g)" by (cases "try_lock sys ?l f")
  have g: "um_find g q = um_find f q" using t assms(2) by (rule try_lock_frame)
  have "f' = g \<or> try_lock sys ?l (um_erase ?l g) = (b, f')"
    using assms(1) t by (auto simp: claim_step_parts Let_def split: if_splits option.splits)
  then show ?thesis
  proof
    assume "try_lock sys ?l (um_erase ?l g) = (b, f')"
    then have "um_find f' q = um_find (um_erase ?l g) q" using assms(2) by (rule try_lock_frame)
    then show ?thesis using g assms(2) by (simp add: um_find_erase_at)
  qed (simp add: g)
qed

lemma claim_step_got:
  assumes "claim_step sys dir i f = (True, f')"
  shows "\<not> held sys f (lock_name dir i)"
    "\<exists>g. um_find f' (lock_name dir i) = Some (take (nat (os_write sys g (lock_name dir i) (to_string (os_pid sys)))) (to_string (os_pid sys)))"
proof -
  show "\<not> held sys f (lock_name dir i)" using assms claim_step_held [of sys f dir i] by auto
  show "\<exists>g. um_find f' (lock_name dir i) = Some (take (nat (os_write sys g (lock_name dir i) (to_string (os_pid sys)))) (to_string (os_pid sys)))"
    using assms try_lock_got [of sys "lock_name dir i"]
    by (auto simp: claim_step_parts Let_def split: if_splits option.splits prod.splits)
qed

lemma claim_loop_result:
  assumes "claim_loop sys dir is f = ((cid, lock), f')" and "cid \<noteq> -1" and "distinct is" and "\<forall>i \<in> set is. i < 1024"
  shows "\<exists>i \<in> set is. cid = int i \<and> lock = lock_name dir i \<and> \<not> held sys f lock \<and>
    (\<exists>g. um_find f' lock = Some (take (nat (os_write sys g lock (to_string (os_pid sys)))) (to_string (os_pid sys))))"
  using assms
proof (induction "is" arbitrary: f)
  case (Cons i "is")
  obtain got g where c: "claim_step sys dir i f = (got, g)" by (cases "claim_step sys dir i f")
  show ?case
  proof (cases got)
    case True
    then have "cid = int i" "lock = lock_name dir i" "f' = g" using Cons.prems(1) c by auto
    then show ?thesis using claim_step_got [of sys dir i f g] c True by auto
  next
    case False
    then have l: "claim_loop sys dir is g = ((cid, lock), f')" using Cons.prems(1) c by simp
    from Cons.IH [OF this Cons.prems(2)] Cons.prems(3,4) obtain j where j: "j \<in> set is" "cid = int j"
      "lock = lock_name dir j" "\<not> held sys g lock"
      "\<exists>g. um_find f' lock = Some (take (nat (os_write sys g lock (to_string (os_pid sys)))) (to_string (os_pid sys)))" by auto
    then have "lock \<noteq> lock_name dir i" using Cons.prems(3,4) lock_name_inject [of j i dir] by auto
    then have "um_find g lock = um_find f lock" using claim_step_frame [OF c] by simp
    then have "\<not> held sys f lock" using j(4) by (simp add: held_def)
    then show ?thesis using j by (intro bexI [of _ j]) auto
  qed
qed simp

section \<open>Properties\<close>

text \<open>
  \<^verbatim>\<open>Aof::flush\<close> writes the whole buffer behind what the file already holds, in order, however the
  system splits the writes, empties the buffer and touches no other file. The hypothesis is that a
  write of some bytes writes at least one and no more than asked for.
\<close>

lemma flush_writes_buffer:
  assumes "write_ok sys" and "aof_fd a = Some m" and "at_end m (file_content (files d) (aof_path a))"
    and "aof_flush sys a d = (a', d')"
  shows "file_content (files d') (aof_path a) = file_content (files d) (aof_path a) @ aof_buf a \<and> aof_buf a' = [] \<and>
    (\<forall>q. q \<noteq> aof_path a \<longrightarrow> um_find (files d') q = um_find (files d) q)"
  using aof_flush_ok [OF assms(1-3)] assms(4) by auto

definition byte_os :: os where
  "byte_os = \<lparr>os_write = (\<lambda>f p s. if s = [] then 0 else 1), os_creat = (\<lambda>f p. True), os_alive = (\<lambda>p. p = 7), os_pid = 7\<rparr>"

lemma byte_os_ok: "write_ok byte_os"
  by (simp add: write_ok_def byte_os_def Suc_leI)

text \<open>
  When the system refuses a write, \<^verbatim>\<open>Aof::flush\<close> leaves the file as it is and throws the
  buffered lines away all the same: they are in neither place afterwards.
\<close>

lemma flush_failure_drops_buffer:
  assumes "aof_fd a = Some m" and "os_write sys (files d) (aof_path a) (aof_buf a) \<le> 0" and "aof_flush sys a d = (a', d')"
  shows "files d' = files d \<and> aof_buf a' = []"
proof -
  have "flush_loop sys (files d) (aof_path a) m (aof_buf a) = (files d, m)"
    using assms(2) by (subst flush_loop.simps) simp
  then show ?thesis using assms(1,3) by (auto simp: aof_flush_def split: if_splits)
qed

text \<open>
  A tail reader polled while a sibling's log grows delivers exactly the lines a replay of the
  whole file would, each once and in order, wherever the polls cut the bytes.
\<close>

lemma tail_polls_replay:
  assumes "fs \<noteq> []" and "sorted_wrt prefix (map (\<lambda>f. file_content f p) fs)"
  shows "fst (tail_polls fs (TailReader p)) = fst (split_lines [] (file_content (last fs) p))"
proof -
  obtain f gs where fs: "fs = f # gs" using assms(1) by (cases fs) auto
  have "[] @ fst (tail_polls (f # gs) (TailReader p)) = whole_lines (file_content (last (f # gs)) (tr_path (TailReader p)))"
    using assms(2) by (intro tail_polls_in_step) (simp_all add: fs)
  then show ?thesis by (simp add: fs whole_lines_def)
qed

text \<open>
  C26: Claims that do not overlap are exclusive: a successful claim takes a lock that was free or named a process that has gone,
  writes its own process number into it, and while that process lives no process gets the same instance from a claim that begins after it.
\<close>

theorem claim_instance_exclusive:
  assumes "claim_instance sys dir f = ((cid, lock), f')" and "cid \<noteq> -1"
    and "\<And>g p. os_write sys g p (to_string (os_pid sys)) = int (length (to_string (os_pid sys)))"
    and "0 < os_pid sys" and "os_pid sys < 2 ^ 31" and "os_alive sys2 (os_pid sys)"
    and "claim_instance sys2 dir f' = ((cid2, lock2), f2)"
  shows "\<not> held sys f lock \<and> lock = lock_name dir (nat cid) \<and> cid < 1024 \<and> um_find f' lock = Some (to_string (os_pid sys)) \<and> cid2 \<noteq> cid"
proof -
  let ?p = "os_pid sys"
  have d: "distinct [0..<1024]" "\<forall>i \<in> set [0..<1024]. i < 1024" by auto
  obtain i where i: "i < 1024" "cid = int i" "lock = lock_name dir i" "\<not> held sys f lock"
    and c: "um_find f' lock = Some (to_string ?p)"
    using claim_loop_result [OF assms(1) [unfolded claim_instance_def] assms(2) d] assms(3) by auto
  have "in_i64 ?p" using assms(4,5) by (simp add: in_i64_def)
  then have pid: "strtoll (to_string ?p) = ?p" "length (to_string ?p) \<le> 20" "to_string ?p \<noteq> []"
    using itoa_length by (simp_all add: to_string_def)
  have "wrap32 ?p = ?p" unfolding wrap32_def using assms(4,5) by (intro signed_take_bit_int_eq_self) auto
  then have h: "held sys2 f' lock" using c pid assms(6) by (simp add: held_def)
  have "cid2 \<noteq> cid"
  proof
    assume "cid2 = cid"
    then have "cid2 \<noteq> -1" using assms(2) by simp
    from claim_loop_result [OF assms(7) [unfolded claim_instance_def] this d] obtain j where
      "j < 1024" "cid2 = int j" "\<not> held sys2 f' (lock_name dir j)" by auto
    then show False using h i(2,3) \<open>cid2 = cid\<close> by auto
  qed
  then show ?thesis using i c by simp
qed

theorem claim_instance_exclusive_witness:
  "let sys = byte_os\<lparr>os_write := (\<lambda>f p s. int (length s))\<rparr>; ((cid, lock), f') = claim_instance sys ''d'' [];
       ((cid2, lock2), f2) = claim_instance (sys\<lparr>os_pid := 8\<rparr>) ''d'' f'
   in cid = 0 \<and> cid2 \<noteq> cid"
proof -
  let ?sys = "byte_os\<lparr>os_write := (\<lambda>f p s. int (length s))\<rparr>"
  obtain cid lock f' where c: "claim_instance ?sys ''d'' [] = ((cid, lock), f')" by (metis surj_pair)
  obtain cid2 lock2 f2 where c2: "claim_instance (?sys\<lparr>os_pid := 8\<rparr>) ''d'' f' = ((cid2, lock2), f2)" by (metis surj_pair)
  have first: "fst (fst (claim_loop ?sys ''d'' (0 # is) [])) = 0" for "is"
    by (simp add: claim_step_parts try_lock_def um_count_def byte_os_def Let_def)
  have "[0..<1024] = 0 # [Suc 0..<1024]" by (rule upt_conv_Cons) simp
  then have z: "cid = 0" using c first [of "[Suc 0..<1024]"] by (simp only: claim_instance_def fst_conv)
  have "cid2 \<noteq> cid"
    using claim_instance_exclusive [OF c _ _ _ _ _ c2] z by (simp add: byte_os_def)
  then show ?thesis using z by (simp add: Let_def c c2)
qed

text \<open>
  C27: Claims that overlap are not exclusive. If two processes read the number of the same dead process in a lock before
  either takes it, the first takes the lock, and the second deletes that fresh lock and takes it again, although it names a living process;
  both then hold the same instance. Had the second looked after the first was done, it would have left the lock alone.
\<close>

theorem overlapping_claims_share:
  assumes "um_find f lock = Some (to_string p)" and "0 < p" and "p < 2 ^ 31" and "\<not> os_alive sys p" and "\<not> os_alive sys2 p"
    and "\<And>g. os_creat sys g lock" and "\<And>g. os_creat sys2 g lock"
    and "\<And>g. os_write sys g lock (to_string (os_pid sys)) = int (length (to_string (os_pid sys)))"
    and "0 < os_pid sys" and "os_pid sys < 2 ^ 31" and "os_alive sys2 (os_pid sys)"
  shows "lock_stale sys lock f \<and> lock_stale sys2 lock f \<and>
    (\<exists>f1 f2. lock_steal sys lock f = (True, f1) \<and> um_find f1 lock = Some (to_string (os_pid sys)) \<and> \<not> lock_stale sys2 lock f1 \<and>
       lock_steal sys2 lock f1 = (True, f2))"
proof -
  have pid: "take 31 (to_string q) \<noteq> [] \<and> wrap32 (strtoll (take 31 (to_string q))) = q" if "0 < q" "q < 2 ^ 31" for q
  proof -
    have "in_i64 q" using that by (simp add: in_i64_def)
    then have "strtoll (to_string q) = q" "length (to_string q) \<le> 20" "to_string q \<noteq> []"
      using itoa_length by (simp_all add: to_string_def)
    moreover have "wrap32 q = q" unfolding wrap32_def using that by (intro signed_take_bit_int_eq_self) auto
    ultimately show ?thesis by simp
  qed
  have stale: "lock_stale sys lock f" "lock_stale sys2 lock f"
    using pid [OF assms(2,3)] assms(1-5) by (simp_all add: lock_stale_def Let_def)
  have steal: "\<exists>g'. lock_steal y lock g = (True, g')" if "\<And>g. os_creat y g lock" for y g
    using that by (simp add: lock_steal_def try_lock_def um_count_def um_simps Let_def)
  obtain f1 where f1: "lock_steal sys lock f = (True, f1)" using steal [OF assms(6)] by blast
  have c: "um_find f1 lock = Some (to_string (os_pid sys))"
    using try_lock_got [OF f1 [unfolded lock_steal_def]] assms(8) by simp
  then have "\<not> lock_stale sys2 lock f1" using pid [OF assms(9,10)] assms(11) by (simp add: lock_stale_def Let_def)
  then show ?thesis using stale f1 c steal [OF assms(7)] by blast
qed

theorem overlapping_claims_share_witness:
  "let sys = byte_os\<lparr>os_write := (\<lambda>f p s. int (length s))\<rparr>; sys2 = sys\<lparr>os_pid := 8\<rparr>; lock = lock_name ''d'' 0; f = [(lock, ''5'')]
   in lock_stale sys lock f \<and> lock_stale sys2 lock f \<and>
     (\<exists>f1 f2. lock_steal sys lock f = (True, f1) \<and> um_find f1 lock = Some ''7'' \<and> lock_steal sys2 lock f1 = (True, f2))"
proof -
  have n: "to_string 5 = ''5''" "to_string 7 = ''7''" by code_simp+
  show ?thesis
    using overlapping_claims_share [of "[(lock_name ''d'' 0, to_string 5)]" "lock_name ''d'' 0" 5
        "byte_os\<lparr>os_write := (\<lambda>f p s. int (length s))\<rparr>" "byte_os\<lparr>os_write := (\<lambda>f p s. int (length s)), os_pid := 8\<rparr>"]
    by (auto simp: byte_os_def n Let_def)
qed

end
