(* ===== verification/Index.thy ===== *)
theory Index
  imports Aof
begin

text \<open>
  The in-memory index of \<^verbatim>\<open>src/src/store.cpp\<close>: 256 shards of an unordered map, the state of the
  engine around it (\<^verbatim>\<open>Inner\<close>), the application of one log line and the reading of sibling logs.
  The sharded index is shown to be a map from codes to entries, and the application of log lines
  to refine an update of the abstract rows.
\<close>

section \<open>Definitions\<close>

definition FLUSH_MS :: nat where "FLUSH_MS = 5"
definition FSYNC_MS :: nat where "FSYNC_MS = 500"
definition TAIL_MIN_INTERVAL :: i64 where "TAIL_MIN_INTERVAL = 200"
definition FLUSH_BYTES :: nat where "FLUSH_BYTES = 262144"
definition MAX_STRAY_HITS :: nat where "MAX_STRAY_HITS = 10000"

definition tail_ms :: "environ \<Rightarrow> i64" where
  "tail_ms env = env_i64 env ''TAIL_MS'' 0"

record entry =
  e_u :: string
  e_a :: i64
  e_e :: i64
  e_i :: int
  e_h :: i64
  e_oh :: i64

definition Entry :: "string \<Rightarrow> i64 \<Rightarrow> i64 \<Rightarrow> int \<Rightarrow> entry" where
  "Entry u a e i = \<lparr>e_u = u, e_a = a, e_e = e, e_i = i, e_h = 0, e_oh = 0\<rparr>"

record stray_hit =
  st_t :: i64
  st_o :: i64

type_synonym stray_map = "(string, stray_hit) umap"

record shard =
  data :: "(string, entry) umap"
  dirty :: "(string, i64) umap"

record tail_state =
  readers :: "(string, tail_reader) umap"
  stray :: stray_map
  last_poll :: i64

datatype thread = Flush_thread | Fsync_thread | Tail_thread i64

record inner =
  shards :: "nat \<Rightarrow> shard"
  tails :: tail_state
  the_aof :: "aof option"
  inst :: int
  pfx :: char
  dir :: string
  own_name :: string
  lock_path :: string
  stopped :: bool
  is_closed :: bool
  threads :: "thread list"

text \<open>The process around an engine: the disk it writes, its random state and the link counter of the metrics.\<close>

record proc = inner +
  disk_of :: disk
  rng :: "64 word"
  links_total :: i64

definition snap_name :: "int \<Rightarrow> string" where
  "snap_name i = ''data-'' @ to_string i @ ''.snap''"

definition log_name :: "int \<Rightarrow> string" where
  "log_name i = ''data-'' @ to_string i @ ''.log''"

subsection \<open>Access to the shard of a code\<close>

definition upd_shard :: "nat \<Rightarrow> (shard \<Rightarrow> shard) \<Rightarrow> 'z inner_scheme \<Rightarrow> 'z inner_scheme" where
  "upd_shard k f s = s\<lparr>shards := (shards s)(k := f (shards s k))\<rparr>"

definition idx :: "'z inner_scheme \<Rightarrow> string \<Rightarrow> entry option" where
  "idx s c = um_find (data (shards s (shard_of c))) c"

definition idx_put :: "string \<Rightarrow> entry \<Rightarrow> 'z inner_scheme \<Rightarrow> 'z inner_scheme" where
  "idx_put c e s = upd_shard (shard_of c) (\<lambda>sh. sh\<lparr>data := um_put c e (data sh)\<rparr>) s"

definition idx_erase :: "string \<Rightarrow> 'z inner_scheme \<Rightarrow> 'z inner_scheme" where
  "idx_erase c s = upd_shard (shard_of c) (\<lambda>sh. sh\<lparr>data := um_erase c (data sh)\<rparr>) s"

definition upd_stray :: "(stray_map \<Rightarrow> stray_map) \<Rightarrow> 'z inner_scheme \<Rightarrow> 'z inner_scheme" where
  "upd_stray f s = s\<lparr>tails := (tails s)\<lparr>stray := f (stray (tails s))\<rparr>\<rparr>"

subsection \<open>Applying a log line\<close>

definition add_hits :: "i64 \<Rightarrow> bool \<Rightarrow> entry \<Rightarrow> entry" where
  "add_hits d own e = e\<lparr>e_h := add64 (e_h e) d, e_oh := (if own then add64 (e_oh e) d else e_oh e)\<rparr>"

definition add_stray :: "string \<Rightarrow> i64 \<Rightarrow> bool \<Rightarrow> stray_map \<Rightarrow> stray_map" where
  "add_stray c d own m =
     (let m = (if MAX_STRAY_HITS \<le> length m then tl m else m);
          st = um_get \<lparr>st_t = 0, st_o = 0\<rparr> m c
      in um_put c \<lparr>st_t = add64 (st_t st) d, st_o = (if own then add64 (st_o st) d else st_o st)\<rparr> m)"

definition apply_op :: "op \<Rightarrow> 'z inner_scheme \<Rightarrow> 'z inner_scheme" where
  "apply_op p s =
     (if op_x p \<noteq> [] then upd_stray (um_erase (op_x p)) (idx_erase (op_x p) s)
      else if op_h p \<noteq> [] then
        (let own = (inst s = wrap32 (op_i p))
         in case idx s (op_h p) of
              Some e \<Rightarrow> idx_put (op_h p) (add_hits (op_d p) own e) s
            | None \<Rightarrow> upd_stray (add_stray (op_h p) (op_d p) own) s)
      else if op_c p = [] then s
      else
        (let (t, w, s) =
           (case um_find (stray (tails s)) (op_c p) of
              Some st \<Rightarrow> (st_t st, st_o st, upd_stray (um_erase (op_c p)) s)
            | None \<Rightarrow> (0, 0, s));
          s = idx_erase (op_c p) s;
          e = Entry (op_u p) (op_a p) (if op_has_e p then op_e p else 0) (wrap32 (op_i p))
         in idx_put (op_c p) (e\<lparr>e_h := add64 (op_n p) t, e_oh := add64 (op_n p) w\<rparr>) s))"

definition apply_line :: "string \<Rightarrow> 'z inner_scheme \<Rightarrow> 'z inner_scheme" where
  "apply_line line s = (case parse_op line of None \<Rightarrow> s | Some p \<Rightarrow> apply_op p s)"

subsection \<open>Reading sibling logs\<close>

definition set_readers :: "(string, tail_reader) umap \<Rightarrow> 'z inner_scheme \<Rightarrow> 'z inner_scheme" where
  "set_readers r s = s\<lparr>tails := (tails s)\<lparr>readers := r\<rparr>\<rparr>"

definition set_last_poll :: "i64 \<Rightarrow> 'z inner_scheme \<Rightarrow> 'z inner_scheme" where
  "set_last_poll t s = s\<lparr>tails := (tails s)\<lparr>last_poll := t\<rparr>\<rparr>"

text \<open>The readers a poll works on: those it has and one for every shard log that has none.\<close>

definition add_reader :: "string \<Rightarrow> string \<Rightarrow> (string, tail_reader) umap \<Rightarrow> (string, tail_reader) umap" where
  "add_reader d f rs = (if um_count rs f then rs else um_emplace f (TailReader (d @ ''/'' @ f)) rs)"

fun poll_readers :: "fs \<Rightarrow> (string, tail_reader) umap \<Rightarrow> 'z inner_scheme \<Rightarrow> (string, tail_reader) umap \<times> 'z inner_scheme" where
  "poll_readers f [] s = ([], s)"
| "poll_readers f ((n, t) # rs) s =
     (let (ls, t) = read_new f t;
          s = fold apply_line ls s;
          (rs, s) = poll_readers f rs s
      in ((n, t) # rs, s))"

definition poll_locked :: "fs \<Rightarrow> i64 \<Rightarrow> 'z inner_scheme \<Rightarrow> 'z inner_scheme" where
  "poll_locked f now s =
     (let rs = fold (add_reader (dir s)) (shard_files f (dir s) (own_name s)) (readers (tails s));
          (rs, s) = poll_readers f rs s
      in set_last_poll now (set_readers rs s))"

definition tail_missed :: "fs \<Rightarrow> i64 \<Rightarrow> i64 \<Rightarrow> string \<Rightarrow> 'z inner_scheme \<Rightarrow> 'z inner_scheme" where
  "tail_missed f now1 now2 code s =
     (if code = [] \<or> the_aof s = None then s
      else
        (let owner = alpha_idx (hd code)
         in if 0 \<le> owner \<and> owner \<noteq> inst s then
              (let name = log_name owner;
                   rs = readers (tails s);
                   t = (case um_find rs name of Some t \<Rightarrow> t | None \<Rightarrow> TailReader (dir s @ ''/'' @ name));
                   (ls, t) = read_new f t;
                   s = set_readers (um_put name t rs) s
               in set_last_poll now1 (fold apply_line ls s))
            else if TAIL_MIN_INTERVAL \<le> now1 - last_poll (tails s) then poll_locked f now2 s
            else s))"

section \<open>The index is a map\<close>

text \<open>
  Every key lies in the shard its hash names, and no unordered map of the engine holds a key twice.
\<close>

definition shard_inv :: "nat \<Rightarrow> shard \<Rightarrow> bool" where
  "shard_inv k sh \<longleftrightarrow> um_inv (data sh) \<and> um_inv (dirty sh) \<and>
     (\<forall>c \<in> fst ` set (data sh). shard_of c = k) \<and> (\<forall>c \<in> fst ` set (dirty sh). shard_of c = k)"

definition idx_inv :: "'z inner_scheme \<Rightarrow> bool" where
  "idx_inv s \<longleftrightarrow> (\<forall>k. shard_inv k (shards s k)) \<and> um_inv (stray (tails s)) \<and> um_inv (readers (tails s))"

lemma shard_inv_put: "shard_inv (shard_of c) sh \<Longrightarrow> shard_inv (shard_of c) (sh\<lparr>data := um_put c e (data sh)\<rparr>)"
  by (auto simp: shard_inv_def um_inv_put um_put_keys)

lemma shard_inv_erase: "shard_inv k sh \<Longrightarrow> shard_inv k (sh\<lparr>data := um_erase c (data sh)\<rparr>)"
  by (auto simp: shard_inv_def um_inv_erase um_erase_keys)

lemma idx_put_at [um_simps]: "idx (idx_put c e s) x = (if x = c then Some e else idx s x)"
  by (simp add: idx_def idx_put_def upd_shard_def um_simps)

lemma idx_erase_at [um_simps]: "idx (idx_erase c s) x = (if x = c then None else idx s x)"
  by (simp add: idx_def idx_erase_def upd_shard_def um_simps)

lemma idx_inv_put [um_invars]: "idx_inv s \<Longrightarrow> idx_inv (idx_put c e s)"
  by (simp add: idx_inv_def idx_put_def upd_shard_def shard_inv_put)

lemma idx_inv_erase [um_invars]: "idx_inv s \<Longrightarrow> idx_inv (idx_erase c s)"
  by (simp add: idx_inv_def idx_erase_def upd_shard_def shard_inv_erase)

interpretation ix: finmap_iface idx idx_put idx_erase idx_inv
  by unfold_locales (auto simp: fun_eq_iff um_simps um_invars)

text \<open>Reading an entry through its shard is reading it from the list of its shard.\<close>

lemma idx_in_data: "idx_inv s \<Longrightarrow> idx s c = Some e \<longleftrightarrow> (c, e) \<in> set (data (shards s (shard_of c)))"
  by (simp add: idx_def idx_inv_def shard_inv_def um_find_in_set)

lemma data_shard_of: "idx_inv s \<Longrightarrow> (c, e) \<in> set (data (shards s k)) \<Longrightarrow> k = shard_of c"
  by (force simp: idx_inv_def shard_inv_def)

section \<open>What an operation leaves alone\<close>

definition same_frame :: "'z inner_scheme \<Rightarrow> 'z inner_scheme \<Rightarrow> bool" where
  "same_frame s s' \<longleftrightarrow> s'\<lparr>shards := shards s, tails := tails s\<rparr> = s"

lemma same_frame_refl [simp]: "same_frame s s"
  by (simp add: same_frame_def)

lemma same_frame_trans: "same_frame s s' \<Longrightarrow> same_frame s' s'' \<Longrightarrow> same_frame s s''"
  unfolding same_frame_def by (cases s; cases s'; cases s'') simp

lemma same_frame_fold: "(\<And>x s. same_frame s (f x s)) \<Longrightarrow> same_frame s (fold f xs s)"
  by (induction xs arbitrary: s) (auto intro: same_frame_trans)

lemma same_frameD:
  "same_frame s s' \<Longrightarrow> the_aof s' = the_aof s \<and> inst s' = inst s \<and> pfx s' = pfx s \<and> dir s' = dir s \<and>
     own_name s' = own_name s \<and> lock_path s' = lock_path s \<and> stopped s' = stopped s \<and>
     is_closed s' = is_closed s \<and> threads s' = threads s \<and> inner.more s' = inner.more s"
  unfolding same_frame_def by (cases s; cases s') simp

lemma same_frame_proc:
  fixes s s' :: proc
  assumes "same_frame s s'"
  shows "disk_of s' = disk_of s" "rng s' = rng s" "links_total s' = links_total s"
  using same_frameD [OF assms] by (cases s; cases s'; simp)+

lemma same_frame_basic [simp]:
  "same_frame s (upd_shard k g t) = same_frame s t" "same_frame s (idx_put c e t) = same_frame s t"
  "same_frame s (idx_erase c t) = same_frame s t" "same_frame s (upd_stray h t) = same_frame s t"
  "same_frame s (set_readers rs t) = same_frame s t" "same_frame s (set_last_poll n t) = same_frame s t"
  by (simp_all add: same_frame_def upd_shard_def idx_put_def idx_erase_def upd_stray_def set_readers_def
      set_last_poll_def)

lemma same_frame_apply_op [simp]: "same_frame s (apply_op p s)"
  by (simp add: apply_op_def Let_def split: option.split)

lemma same_frame_apply_line [simp]: "same_frame s (apply_line l s)"
  by (simp add: apply_line_def split: option.split)

lemma same_frame_apply_lines [simp]: "same_frame s (fold apply_line ls s)"
  by (rule same_frame_fold) simp

section \<open>Application of log lines refines an update of rows\<close>

text \<open>A row is what a log line says of a link; hits are counted besides.\<close>

type_synonym row = "string \<times> i64 \<times> i64 \<times> int"

definition core :: "entry \<Rightarrow> row" where
  "core e = (e_u e, e_a e, e_e e, e_i e)"

definition rows :: "'z inner_scheme \<Rightarrow> string \<rightharpoonup> row" where
  "rows s = map_option core \<circ> idx s"

definition abs_op :: "op \<Rightarrow> (string \<rightharpoonup> row) \<Rightarrow> (string \<rightharpoonup> row)" where
  "abs_op p m =
     (if op_x p \<noteq> [] then m(op_x p := None)
      else if op_h p \<noteq> [] \<or> op_c p = [] then m
      else m(op_c p \<mapsto> (op_u p, op_a p, if op_has_e p then op_e p else 0, wrap32 (op_i p))))"

definition abs_line :: "string \<Rightarrow> (string \<rightharpoonup> row) \<Rightarrow> (string \<rightharpoonup> row)" where
  "abs_line l m = (case parse_op l of None \<Rightarrow> m | Some p \<Rightarrow> abs_op p m)"

lemma idx_upd_stray [um_simps]: "idx (upd_stray h s) x = idx s x"
  by (simp add: idx_def upd_stray_def)

lemma idx_set_readers [um_simps]: "idx (set_readers rs s) x = idx s x"
  by (simp add: idx_def set_readers_def)

lemma idx_set_last_poll [um_simps]: "idx (set_last_poll t s) x = idx s x"
  by (simp add: idx_def set_last_poll_def)

lemma core_add_hits [simp]: "core (add_hits d own e) = core e"
  by (simp add: core_def add_hits_def)

lemma rows_put: "rows (idx_put c e s) = (rows s)(c \<mapsto> core e)"
  by (simp add: rows_def fun_eq_iff um_simps)

lemma rows_erase: "rows (idx_erase c s) = (rows s)(c := None)"
  by (simp add: rows_def fun_eq_iff um_simps)

lemma rows_other [simp]:
  "rows (upd_stray h s) = rows s" "rows (set_readers rs s) = rows s" "rows (set_last_poll t s) = rows s"
  by (simp_all add: rows_def fun_eq_iff um_simps)

lemma rows_apply_op: "rows (apply_op p s) = abs_op p (rows s)"
proof (cases "op_x p = [] \<and> op_h p \<noteq> []")
  case True
  show ?thesis
  proof (cases "idx s (op_h p)")
    case None
    then show ?thesis using True by (simp add: apply_op_def abs_op_def)
  next
    case (Some e)
    then have "rows s (op_h p) = Some (core e)" by (simp add: rows_def)
    then show ?thesis using True Some by (auto simp: apply_op_def abs_op_def rows_put)
  qed
next
  case False
  then show ?thesis
    by (auto simp: apply_op_def abs_op_def rows_put rows_erase core_def Entry_def split: option.split)
qed

lemma rows_apply_line: "rows (apply_line l s) = abs_line l (rows s)"
  by (simp add: apply_line_def abs_line_def rows_apply_op split: option.split)

lemma rows_apply_lines: "rows (fold apply_line ls s) = fold abs_line ls (rows s)"
  by (induction ls arbitrary: s) (simp_all add: rows_apply_line)

section \<open>Invariants under log lines\<close>

definition entry_ok :: "entry \<Rightarrow> bool" where
  "entry_ok e \<longleftrightarrow> in_i64 (e_a e) \<and> in_i64 (e_e e) \<and> in_i64 (e_i e) \<and> in_i64 (e_h e) \<and> in_i64 (e_oh e)"

definition entries_ok :: "'z inner_scheme \<Rightarrow> bool" where
  "entries_ok s \<longleftrightarrow> (\<forall>c e. idx s c = Some e \<longrightarrow> entry_ok e)"

lemma in_i64_wrap32 [simp]: "in_i64 (wrap32 x)"
  using signed_take_bit_int_greater_eq_minus_exp [of 31 x] signed_take_bit_int_less_exp [of 31 x]
  by (simp add: in_i64_def wrap32_def)

lemma entry_ok_add_hits [simp]: "entry_ok e \<Longrightarrow> entry_ok (add_hits d own e)"
  by (simp add: entry_ok_def add_hits_def)

lemma entries_ok_put: "entries_ok s \<Longrightarrow> entry_ok e \<Longrightarrow> entries_ok (idx_put c e s)"
  by (simp add: entries_ok_def um_simps)

lemma entries_ok_erase: "entries_ok s \<Longrightarrow> entries_ok (idx_erase c s)"
  by (simp add: entries_ok_def um_simps)

lemma entries_ok_other [simp]:
  "entries_ok (upd_stray h s) = entries_ok s" "entries_ok (set_readers rs s) = entries_ok s"
  "entries_ok (set_last_poll t s) = entries_ok s"
  by (simp_all add: entries_ok_def um_simps)

lemma entry_ok_row:
  "in_i64 a \<Longrightarrow> in_i64 e \<Longrightarrow> in_i64 t \<Longrightarrow> in_i64 w \<Longrightarrow> entry_ok ((Entry u a e (wrap32 i))\<lparr>e_h := t, e_oh := w\<rparr>)"
  by (simp add: entry_ok_def Entry_def)

lemma entries_ok_apply_op:
  assumes "entries_ok s" and "op_ok p"
  shows "entries_ok (apply_op p s)"
proof -
  have "entry_ok e" if "idx s c = Some e" for c e using assms(1) that by (simp add: entries_ok_def)
  then show ?thesis using assms
    by (simp add: apply_op_def Let_def op_ok_def entries_ok_put entries_ok_erase entry_ok_row split: option.split)
qed

lemma entries_ok_apply_line: "entries_ok s \<Longrightarrow> entries_ok (apply_line l s)"
  by (auto simp: apply_line_def intro: entries_ok_apply_op parse_op_ok split: option.split)

lemma entries_ok_apply_lines: "entries_ok s \<Longrightarrow> entries_ok (fold apply_line ls s)"
  by (induction ls arbitrary: s) (simp_all add: entries_ok_apply_line)

lemma um_inv_tl: "um_inv m \<Longrightarrow> um_inv (tl m)"
  by (cases m) (simp_all add: um_inv_def)

lemma um_inv_add_stray [um_invars]: "um_inv m \<Longrightarrow> um_inv (add_stray c d own m)"
  by (simp add: add_stray_def Let_def um_inv_put um_inv_tl)

lemma idx_inv_upd_stray [um_invars]:
  "idx_inv s \<Longrightarrow> um_inv (h (stray (tails s))) \<Longrightarrow> idx_inv (upd_stray h s)"
  by (simp add: idx_inv_def upd_stray_def)

lemma idx_inv_set_readers [um_invars]: "idx_inv s \<Longrightarrow> um_inv rs \<Longrightarrow> idx_inv (set_readers rs s)"
  by (simp add: idx_inv_def set_readers_def)

lemma idx_inv_set_last_poll [um_invars]: "idx_inv s \<Longrightarrow> idx_inv (set_last_poll t s)"
  by (simp add: idx_inv_def set_last_poll_def)

lemma tails_idx_erase [simp]: "tails (idx_erase c s) = tails s"
  by (simp add: idx_erase_def upd_shard_def)

lemma tails_idx_put [simp]: "tails (idx_put c e s) = tails s"
  by (simp add: idx_put_def upd_shard_def)

lemma stray_inv: "idx_inv s \<Longrightarrow> um_inv (stray (tails s))"
  by (simp add: idx_inv_def)

lemma idx_inv_apply_op [um_invars]: "idx_inv s \<Longrightarrow> idx_inv (apply_op p s)"
  by (auto simp: apply_op_def Let_def intro!: um_invars simp: stray_inv split: option.split)

lemma idx_inv_apply_line [um_invars]: "idx_inv s \<Longrightarrow> idx_inv (apply_line l s)"
  by (simp add: apply_line_def idx_inv_apply_op split: option.split)

lemma idx_inv_apply_lines [um_invars]: "idx_inv s \<Longrightarrow> idx_inv (fold apply_line ls s)"
  by (induction ls arbitrary: s) (simp_all add: idx_inv_apply_line)

text \<open>The map of stray hits never holds more than its bound.\<close>

lemma add_stray_length: "length m \<le> MAX_STRAY_HITS \<Longrightarrow> length (add_stray c d own m) \<le> MAX_STRAY_HITS"
  by (simp add: add_stray_def Let_def um_put_length MAX_STRAY_HITS_def)

lemma stray_apply_op:
  "length (stray (tails s)) \<le> MAX_STRAY_HITS \<Longrightarrow> length (stray (tails (apply_op p s))) \<le> MAX_STRAY_HITS"
  using um_erase_length_le [of _ "stray (tails s)"]
  by (auto simp: apply_op_def Let_def upd_stray_def add_stray_length split: option.split intro: order_trans)

lemma stray_apply_lines:
  "length (stray (tails s)) \<le> MAX_STRAY_HITS \<Longrightarrow>
     length (stray (tails (fold apply_line ls s))) \<le> MAX_STRAY_HITS"
  by (induction ls arbitrary: s) (simp_all add: apply_line_def stray_apply_op split: option.split)

section \<open>Hits that arrive before their row\<close>

definition early_hit :: "op \<Rightarrow> string \<Rightarrow> bool" where
  "early_hit p c \<longleftrightarrow> op_x p = [] \<and> op_h p = c \<and> c \<noteq> []"

definition row_for :: "op \<Rightarrow> string \<Rightarrow> bool" where
  "row_for p c \<longleftrightarrow> op_x p = [] \<and> op_h p = [] \<and> op_c p = c \<and> c \<noteq> []"

lemma idx_apply_row:
  assumes "row_for p c"
  shows "idx (apply_op p s) c =
    Some \<lparr>e_u = op_u p, e_a = op_a p, e_e = (if op_has_e p then op_e p else 0), e_i = wrap32 (op_i p),
          e_h = add64 (op_n p) (case um_find (stray (tails s)) c of Some st \<Rightarrow> st_t st | None \<Rightarrow> 0),
          e_oh = add64 (op_n p) (case um_find (stray (tails s)) c of Some st \<Rightarrow> st_o st | None \<Rightarrow> 0)\<rparr>"
  using assms by (auto simp: row_for_def apply_op_def um_simps Entry_def split: option.split)

lemma idx_apply_hit:
  assumes "early_hit p c" and "idx s c = Some e"
  shows "idx (apply_op p s) c = Some (add_hits (op_d p) (inst s = wrap32 (op_i p)) e)"
  using assms by (simp add: early_hit_def apply_op_def um_simps)

lemma stray_apply_hit:
  assumes "early_hit p c" and "idx s c = None" and "length (stray (tails s)) < MAX_STRAY_HITS"
  shows "um_find (stray (tails (apply_op p s))) c =
    (let st = um_get \<lparr>st_t = 0, st_o = 0\<rparr> (stray (tails s)) c
     in Some \<lparr>st_t = add64 (st_t st) (op_d p),
              st_o = (if inst s = wrap32 (op_i p) then add64 (st_o st) (op_d p) else st_o st)\<rparr>)"
  using assms by (simp add: early_hit_def apply_op_def upd_stray_def add_stray_def Let_def um_simps)

lemma inst_apply_op [simp]: "inst (apply_op p s) = inst s"
  using same_frame_apply_op same_frameD by blast

lemma hit_row_commute:
  assumes "early_hit ph c" and "row_for pr c" and "idx s c = None" and "length (stray (tails s)) < MAX_STRAY_HITS"
  shows "idx (apply_op pr (apply_op ph s)) c = idx (apply_op ph (apply_op pr s)) c"
proof -
  have a: "add64 n (add64 x d) = add64 (add64 n x) d" for n x d by (simp add: add64_assoc)
  have z: "add64 n (add64 0 d) = add64 (add64 n 0) d" for n d by (rule a)
  show ?thesis
    unfolding idx_apply_row [OF assms(2), of "apply_op ph s"] stray_apply_hit [OF assms(1,3,4)]
      idx_apply_hit [OF assms(1) idx_apply_row [OF assms(2), of s]] Let_def
    by (cases "um_find (stray (tails s)) c") (simp_all add: add_hits_def um_get_def a)
qed

section \<open>Polling\<close>

text \<open>The lines a round over the readers delivers, and the readers behind them.\<close>

definition poll_lines :: "fs \<Rightarrow> (string, tail_reader) umap \<Rightarrow> string list" where
  "poll_lines f rs = concat (map (\<lambda>(n, t). fst (read_new f t)) rs)"

lemma poll_readers_eq:
  "poll_readers f rs s = (map (\<lambda>(n, t). (n, snd (read_new f t))) rs, fold apply_line (poll_lines f rs) s)"
  by (induction rs arbitrary: s) (auto simp: poll_lines_def split: prod.split)

definition poll_set :: "fs \<Rightarrow> 'z inner_scheme \<Rightarrow> (string, tail_reader) umap" where
  "poll_set f s = fold (add_reader (dir s)) (shard_files f (dir s) (own_name s)) (readers (tails s))"

lemma poll_locked_eq:
  "poll_locked f now s =
     set_last_poll now (set_readers (map (\<lambda>(n, t). (n, snd (read_new f t))) (poll_set f s))
       (fold apply_line (poll_lines f (poll_set f s)) s))"
  by (simp add: poll_locked_def poll_readers_eq poll_set_def Let_def)

lemma um_inv_poll_set: "um_inv (readers (tails s)) \<Longrightarrow> um_inv (poll_set f s)"
proof -
  have "um_inv rs \<Longrightarrow> um_inv (fold (add_reader d) fs rs)" for d fs rs
    by (induction fs arbitrary: rs) (simp_all add: add_reader_def um_inv_emplace)
  then show "um_inv (readers (tails s)) \<Longrightarrow> um_inv (poll_set f s)" by (simp add: poll_set_def)
qed

lemma idx_inv_poll_locked [um_invars]: "idx_inv s \<Longrightarrow> idx_inv (poll_locked f now s)"
proof -
  assume s: "idx_inv s"
  have "um_inv (map (\<lambda>(n, t). (n, snd (read_new f t))) (poll_set f s))"
    using um_inv_poll_set [of s f] s
    by (simp add: um_inv_def idx_inv_def case_prod_unfold comp_def)
  then show ?thesis unfolding poll_locked_eq using s
    by (intro um_invars) auto
qed

lemma entries_ok_poll_locked: "entries_ok s \<Longrightarrow> entries_ok (poll_locked f now s)"
  by (simp add: poll_locked_eq entries_ok_apply_lines)

lemma same_frame_poll_locked [simp]: "same_frame s (poll_locked f now s)"
  by (simp add: poll_locked_eq)

text \<open>The lines a missed lookup delivers: those of the owner's log, or those of a full poll.\<close>

definition missed_lines :: "fs \<Rightarrow> i64 \<Rightarrow> string \<Rightarrow> 'z inner_scheme \<Rightarrow> string list" where
  "missed_lines f now1 code s =
     (if code = [] \<or> the_aof s = None then []
      else if 0 \<le> alpha_idx (hd code) \<and> alpha_idx (hd code) \<noteq> inst s then
        fst (read_new f (case um_find (readers (tails s)) (log_name (alpha_idx (hd code))) of
             Some t \<Rightarrow> t | None \<Rightarrow> TailReader (dir s @ ''/'' @ log_name (alpha_idx (hd code)))))
      else if TAIL_MIN_INTERVAL \<le> now1 - last_poll (tails s) then poll_lines f (poll_set f s)
      else [])"

lemma same_frame_set_readers_lines [simp]: "same_frame s (fold apply_line ls (set_readers rs s))"
  by (rule same_frame_trans [OF _ same_frame_apply_lines]) simp

lemma same_frame_tail_missed [simp]: "same_frame s (tail_missed f now1 now2 code s)"
  by (simp add: tail_missed_def Let_def split: prod.split)

lemma rows_tail_missed:
  "rows (tail_missed f now1 now2 code s) = fold abs_line (missed_lines f now1 code s) (rows s)"
  by (simp add: tail_missed_def missed_lines_def Let_def poll_locked_eq rows_apply_lines split: prod.split)

lemma idx_inv_tail_missed [um_invars]: "idx_inv s \<Longrightarrow> idx_inv (tail_missed f now1 now2 code s)"
proof -
  assume s: "idx_inv s"
  then have "um_inv (readers (tails s))" by (simp add: idx_inv_def)
  then show ?thesis using s
    by (simp add: tail_missed_def Let_def idx_inv_poll_locked idx_inv_set_last_poll idx_inv_apply_lines
        idx_inv_set_readers um_inv_put split: prod.split)
qed

lemma entries_ok_tail_missed: "entries_ok s \<Longrightarrow> entries_ok (tail_missed f now1 now2 code s)"
  by (simp add: tail_missed_def Let_def entries_ok_poll_locked entries_ok_apply_lines split: prod.split)

section \<open>Properties\<close>

text \<open>An engine with nothing in it, to instantiate the properties at.\<close>

definition blank :: inner where
  "blank = \<lparr>shards = (\<lambda>_. \<lparr>data = [], dirty = []\<rparr>), tails = \<lparr>readers = [], stray = [], last_poll = 0\<rparr>,
     the_aof = None, inst = 0, pfx = CHR ''0'', dir = [], own_name = [], lock_path = [],
     stopped = False, is_closed = False, threads = []\<rparr>"

lemma blank_simps [simp]: "idx blank c = None" "idx_inv blank" "stray (tails blank) = []" "inst blank = 0"
  by (simp_all add: blank_def idx_def idx_inv_def shard_inv_def)

text \<open>
  Replaying log lines into the sharded index refines the abstract meaning of the lines: as a map
  from codes to rows (URL, creation, expiry, owner) the index ends where a plain map updated line by
  line ends, rows overwriting, tombstones deleting, hit lines and junk leaving rows alone. The index
  stays well formed: no key twice, every key in the shard its hash names.
\<close>

lemma replay_refines_map:
  assumes "idx_inv s"
  shows "rows (fold apply_line ls s) = fold abs_line ls (rows s) \<and> idx_inv (fold apply_line ls s)"
  using assms rows_apply_lines idx_inv_apply_lines by blast

text \<open>
  A hit that is read before the row it counts for is not lost: as long as the map of stray hits is
  not full, reading hit and row in either order ends with the same entry, counters included.
\<close>

lemma hit_before_row:
  assumes "op_x ph = []" and "op_h ph = c" and "c \<noteq> []" and "op_x pr = []" and "op_h pr = []" and "op_c pr = c"
    and "idx s c = None" and "length (stray (tails s)) < MAX_STRAY_HITS"
  shows "idx (apply_op pr (apply_op ph s)) c = idx (apply_op ph (apply_op pr s)) c"
  using assms by (intro hit_row_commute) (simp_all add: early_hit_def row_for_def)

text \<open>The map of stray hits never exceeds its bound, whatever lines are read.\<close>

lemma stray_bounded:
  assumes "length (stray (tails s)) \<le> MAX_STRAY_HITS"
  shows "length (stray (tails (fold apply_line ls s))) \<le> MAX_STRAY_HITS"
  using assms by (rule stray_apply_lines)

end
