(* ===== verification/Store.thy ===== *)
theory Store
  imports Index
begin

text \<open>
  The operations of the default engine of \<^verbatim>\<open>src/src/store.cpp\<close> (\<^verbatim>\<open>STORE=aof\<close>): opening, code
  generation, shorten, resolve, update, remove, list, stats, flush, compact and close. A call runs
  as one step; the two halves of a call that log after they have released the lock of the shard are
  definitions of their own, so that interleavings of two calls can be written down. Times are
  arguments: \<open>now\<close> for the one reading of a call, \<open>clk i\<close> for the i-th when it takes several.
\<close>

section \<open>Definitions\<close>

datatype mut_result = Ok | Missing | Remote

record link =
  l_code :: string
  l_url :: string
  l_hits :: i64
  l_created_at :: i64
  l_expires_at :: i64

subsection \<open>Generated codes\<close>

definition rng_next :: "64 word \<Rightarrow> 64 word \<times> 64 word" where
  "rng_next st =
     (let st = st XOR drop_bit 12 st;
          st = st XOR push_bit 25 st;
          st = st XOR drop_bit 27 st
      in (st * 2685821657736338717, st))"

fun gen_suffix :: "nat \<Rightarrow> string \<Rightarrow> 64 word \<Rightarrow> string \<times> 64 word" where
  "gen_suffix 0 c st = (c, st)"
| "gen_suffix (Suc k) c st =
     (let (v, st) = rng_next st in gen_suffix k (c @ [ALPHABET ! unat (v mod of_nat MAX_INSTANCES)]) st)"

definition gen_code :: "char \<Rightarrow> 64 word \<Rightarrow> string \<times> 64 word" where
  "gen_code p st = gen_suffix (CODE_LEN - 1) [p] st"

text \<open>The loop \<^verbatim>\<open>for (;;)\<close> that draws codes until one is free.\<close>

partial_function (option) fresh_code :: "(string \<Rightarrow> bool) \<Rightarrow> char \<Rightarrow> 64 word \<Rightarrow> (string \<times> 64 word) option" where
  "fresh_code taken p st =
     (let (c, st) = gen_code p st in if taken c then fresh_code taken p st else Some (c, st))"

declare fresh_code.simps [code]

subsection \<open>Writing to the log\<close>

definition with_aof :: "(aof \<Rightarrow> disk \<Rightarrow> aof \<times> disk) \<Rightarrow> proc \<Rightarrow> proc" where
  "with_aof g s =
     (case the_aof s of
        None \<Rightarrow> s
      | Some a \<Rightarrow> let (a, d) = g a (disk_of s) in s\<lparr>the_aof := Some a, disk_of := d\<rparr>)"

definition flush_if_full :: "os \<Rightarrow> aof \<Rightarrow> disk \<Rightarrow> aof \<times> disk" where
  "flush_if_full sys a d = (if FLUSH_BYTES < pending_bytes a then aof_flush sys a d else (a, d))"

definition links_delta :: "i64 \<Rightarrow> proc \<Rightarrow> proc" where
  "links_delta n s = s\<lparr>links_total := add64 (links_total s) n\<rparr>"

definition expiry :: "i64 \<Rightarrow> i64 \<Rightarrow> i64" where
  "expiry now ttl = (if 0 < ttl then add64 now ttl else 0)"

subsection \<open>Creating links\<close>

definition insert_fresh :: "string \<Rightarrow> i64 \<Rightarrow> i64 \<Rightarrow> proc \<Rightarrow> (string \<times> proc) option" where
  "insert_fresh url now ex s =
     (case fresh_code (\<lambda>c. idx s c \<noteq> None) (pfx s) (rng s) of
        None \<Rightarrow> None
      | Some (code, st) \<Rightarrow> Some (code, idx_put code (Entry url now ex (inst s)) (s\<lparr>rng := st\<rparr>)))"

text \<open>The first half of \<^verbatim>\<open>shorten\<close>, under the lock of the shard; the outer \<open>None\<close> is a loop that never ends.\<close>

definition shorten_insert :: "i64 \<Rightarrow> string \<Rightarrow> string option \<Rightarrow> i64 \<Rightarrow> proc \<Rightarrow> (string option \<times> proc) option" where
  "shorten_insert now url al ttl s =
     (let ex = expiry now ttl
      in case al of
           Some code \<Rightarrow>
             if idx s code \<noteq> None then Some (None, s)
             else Some (Some code, idx_put code (Entry url now ex (inst s)) s)
         | None \<Rightarrow> map_option (\<lambda>(code, s). (Some code, s)) (insert_fresh url now ex s))"

definition shorten_log :: "os \<Rightarrow> i64 \<Rightarrow> string \<Rightarrow> i64 \<Rightarrow> string \<Rightarrow> proc \<Rightarrow> proc" where
  "shorten_log sys now url ttl code s =
     links_delta 1
       (with_aof (\<lambda>a d. flush_if_full sys (push (row_line code url now (expiry now ttl) (inst s) 0) a) d) s)"

definition shorten :: "os \<Rightarrow> i64 \<Rightarrow> string \<Rightarrow> string option \<Rightarrow> i64 \<Rightarrow> proc \<Rightarrow> (string option \<times> proc) option" where
  "shorten sys now url al ttl s =
     (case shorten_insert now url al ttl s of
        None \<Rightarrow> None
      | Some (None, s) \<Rightarrow> Some (None, s)
      | Some (Some code, s) \<Rightarrow> Some (Some code, shorten_log sys now url ttl code s))"

fun shorten_many_loop ::
  "i64 \<Rightarrow> i64 \<Rightarrow> string list \<Rightarrow> string list \<Rightarrow> string \<Rightarrow> proc \<Rightarrow> (string list \<times> string \<times> proc) option"
where
  "shorten_many_loop now ex [] codes lines s = Some (codes, lines, s)"
| "shorten_many_loop now ex (u # us) codes lines s =
     (case insert_fresh u now ex s of
        None \<Rightarrow> None
      | Some (cb, s) \<Rightarrow>
          shorten_many_loop now ex us (codes @ [cb])
            (if the_aof s \<noteq> None then row_line_into lines cb u now ex (inst s) 0 @ [NL] else lines) s)"

definition shorten_many :: "os \<Rightarrow> i64 \<Rightarrow> string list \<Rightarrow> i64 \<Rightarrow> proc \<Rightarrow> (string list \<times> proc) option" where
  "shorten_many sys now urls ttl s =
     (case shorten_many_loop now (expiry now ttl) urls [] [] s of
        None \<Rightarrow> None
      | Some (codes, lines, s) \<Rightarrow>
          Some (codes, links_delta (int (length codes)) (with_aof (\<lambda>a d. flush_if_full sys (push_raw lines a) d) s)))"

subsection \<open>Reading links\<close>

definition bump_dirty :: "string \<Rightarrow> proc \<Rightarrow> proc" where
  "bump_dirty code s =
     upd_shard (shard_of code) (\<lambda>sh. sh\<lparr>dirty := um_put code (add64 (um_get 0 (dirty sh) code) 1) (dirty sh)\<rparr>) s"

definition live :: "i64 \<Rightarrow> entry \<Rightarrow> bool" where
  "live now e \<longleftrightarrow> e_e e = 0 \<or> now < e_e e"

definition count_hit :: "environ \<Rightarrow> string \<Rightarrow> entry \<Rightarrow> proc \<Rightarrow> proc" where
  "count_hit env code e s =
     (if track_hits env then bump_dirty code (idx_put code (add_hits 1 True e) s) else s)"

definition resolve :: "environ \<Rightarrow> (nat \<Rightarrow> i64) \<Rightarrow> string \<Rightarrow> proc \<Rightarrow> string option \<times> proc" where
  "resolve env clk code s =
     (case idx s code of
        Some e \<Rightarrow> if live (clk 0) e then (Some (e_u e), count_hit env code e s) else (None, s)
      | None \<Rightarrow>
          if the_aof s = None then (None, s)
          else
            (let s = tail_missed (files (disk_of s)) (clk 1) (clk 2) code s
             in case idx s code of
                  None \<Rightarrow> (None, s)
                | Some e \<Rightarrow>
                    if e_e e \<noteq> 0 \<and> e_e e \<le> clk 3 then (None, s)
                    else (Some (e_u e), count_hit env code e s)))"

definition healthy :: "proc \<Rightarrow> bool" where
  "healthy s = True"

definition empty :: "proc \<Rightarrow> bool" where
  "empty s = list_all (\<lambda>k. data (shards s k) = []) [0..<NUM_SHARDS]"

definition to_link :: "string \<Rightarrow> entry \<Rightarrow> link" where
  "to_link c e = \<lparr>l_code = c, l_url = e_u e, l_hits = e_h e, l_created_at = e_a e, l_expires_at = e_e e\<rparr>"

definition matches :: "string \<Rightarrow> string \<times> entry \<Rightarrow> bool" where
  "matches q p = (q = [] \<or> contains (fst p) q \<or> contains (e_u (snd p)) q)"

definition collect :: "string \<Rightarrow> proc \<Rightarrow> link list" where
  "collect q s =
     concat (map (\<lambda>k. map (\<lambda>(c, e). to_link c e) (filter (matches q) (data (shards s k)))) [0..<NUM_SHARDS])"

text \<open>
  \<^verbatim>\<open>std::sort\<close> leaves the order of equal elements open, so the sorting routine is an argument;
  it is given the comparison of the call. Positions are \<^verbatim>\<open>size_t\<close>, whose sum wraps.
\<close>

definition by_sort :: "string \<Rightarrow> link \<Rightarrow> link \<Rightarrow> bool" where
  "by_sort ord x y = (if ord = ''hits'' then l_hits x > l_hits y else l_created_at x > l_created_at y)"

definition paginate :: "nat \<Rightarrow> nat \<Rightarrow> link list \<Rightarrow> link list \<times> nat" where
  "paginate limit offset items =
     (let total = length items
      in if total \<le> offset then ([], total)
         else let en = min ((offset + limit) mod 2 ^ 64) total
              in (take (en - offset) (drop offset items), total))"

definition list_links ::
  "((link \<Rightarrow> link \<Rightarrow> bool) \<Rightarrow> link list \<Rightarrow> link list) \<Rightarrow> nat \<Rightarrow> nat \<Rightarrow> string \<Rightarrow> string \<Rightarrow> proc \<Rightarrow> link list \<times> nat"
where
  "list_links srt limit offset ord q s = paginate limit offset (srt (by_sort ord) (collect q s))"

definition stats :: "string \<Rightarrow> proc \<Rightarrow> link option" where
  "stats code s = map_option (to_link code) (idx s code)"

subsection \<open>Changing links\<close>

definition update_index :: "i64 \<Rightarrow> string \<Rightarrow> string \<Rightarrow> i64 \<Rightarrow> bool \<Rightarrow> proc \<Rightarrow> (mut_result \<times> i64 \<times> i64) \<times> proc" where
  "update_index now code url ttl has_ttl s =
     (case idx s code of
        None \<Rightarrow> ((Missing, 0, 0), s)
      | Some e \<Rightarrow>
          if e_i e \<noteq> inst s then ((Remote, 0, 0), s)
          else let ex = (if has_ttl then expiry now ttl else e_e e)
               in ((Ok, e_a e, ex), idx_put code (e\<lparr>e_u := url, e_e := ex\<rparr>) s))"

definition update_log :: "string \<Rightarrow> string \<Rightarrow> i64 \<Rightarrow> i64 \<Rightarrow> proc \<Rightarrow> proc" where
  "update_log code url a ex s = with_aof (\<lambda>l d. (push (row_line code url a ex (inst s) 0) l, d)) s"

definition update :: "i64 \<Rightarrow> string \<Rightarrow> string \<Rightarrow> i64 \<Rightarrow> bool \<Rightarrow> proc \<Rightarrow> mut_result \<times> proc" where
  "update now code url ttl has_ttl s =
     (let ((r, a, ex), s) = update_index now code url ttl has_ttl s
      in if r = Ok then (Ok, update_log code url a ex s) else (r, s))"

definition remove_index :: "string \<Rightarrow> proc \<Rightarrow> mut_result \<times> proc" where
  "remove_index code s =
     (case idx s code of
        None \<Rightarrow> (Missing, s)
      | Some e \<Rightarrow> if e_i e \<noteq> inst s then (Remote, s) else (Ok, idx_erase code s))"

definition remove_log :: "string \<Rightarrow> proc \<Rightarrow> proc" where
  "remove_log code s = links_delta (-1) (with_aof (\<lambda>l d. (push (del_line code) l, d)) s)"

definition remove :: "string \<Rightarrow> proc \<Rightarrow> mut_result \<times> proc" where
  "remove code s =
     (let (r, s) = remove_index code s in if r = Ok then (Ok, remove_log code s) else (r, s))"

subsection \<open>Persistence\<close>

fun dirty_lines :: "int \<Rightarrow> (string, i64) umap \<Rightarrow> string \<Rightarrow> string" where
  "dirty_lines i [] lines = lines"
| "dirty_lines i ((code, d) # m) lines = dirty_lines i m (hit_line_into lines code d i @ [NL])"

fun drain :: "nat list \<Rightarrow> string \<Rightarrow> proc \<Rightarrow> string \<times> proc" where
  "drain [] lines s = (lines, s)"
| "drain (k # ks) lines s =
     (if dirty (shards s k) = [] then drain ks lines s
      else drain ks (dirty_lines (inst s) (dirty (shards s k)) lines) (upd_shard k (\<lambda>sh. sh\<lparr>dirty := []\<rparr>) s))"

definition flush_locked :: "os \<Rightarrow> proc \<Rightarrow> proc" where
  "flush_locked sys s =
     (if the_aof s = None then s
      else let (lines, s) = drain [0..<NUM_SHARDS] [] s
           in with_aof (\<lambda>a d. aof_flush sys (push_raw lines a) d) s)"

definition flush_public :: "os \<Rightarrow> proc \<Rightarrow> proc" where
  "flush_public sys s = flush_locked sys s"

definition seed :: "os \<Rightarrow> i64 \<Rightarrow> string list \<Rightarrow> proc \<Rightarrow> (nat \<times> proc) option" where
  "seed sys now urls s =
     (case shorten_many sys now urls 0 s of
        None \<Rightarrow> None
      | Some (_, s) \<Rightarrow> Some (length urls, flush_public sys s))"

definition poll_tails :: "i64 \<Rightarrow> proc \<Rightarrow> proc" where
  "poll_tails now s = (if the_aof s = None then s else poll_locked (files (disk_of s)) now s)"

definition snap_lines :: "proc \<Rightarrow> string list" where
  "snap_lines s =
     concat (map (\<lambda>k. map (\<lambda>(code, e). row_line code (e_u e) (e_a e) (e_e e) (e_i e) (e_oh e))
       (filter (\<lambda>(code, e). e_i e = inst s) (data (shards s k)))) [0..<NUM_SHARDS])"

text \<open>Writing the snapshot through a temporary file: \<^verbatim>\<open>fopen\<close>, the writes, \<^verbatim>\<open>fsync\<close> and \<^verbatim>\<open>rename\<close>.\<close>

definition write_snap :: "os \<Rightarrow> string \<Rightarrow> string \<Rightarrow> disk \<Rightarrow> disk" where
  "write_snap sys path bytes d =
     (let tmp = path @ ''.tmp''
      in if os_creat sys (files d) tmp then
           (let f = fst (flush_loop sys (um_put tmp [] (files d)) tmp (Offset 0) bytes);
                d = fsync_file tmp (d\<lparr>files := f\<rparr>);
                c = file_content (files d) tmp
            in d\<lparr>files := um_put path c (um_erase tmp (files d))\<rparr>)
         else d)"

definition compact :: "os \<Rightarrow> proc \<Rightarrow> proc" where
  "compact sys s =
     (if the_aof s = None then s
      else let s = flush_locked sys s;
               d = write_snap sys (dir s @ ''/'' @ snap_name (inst s)) (concat (map (\<lambda>l. l @ [NL]) (snap_lines s))) (disk_of s)
           in with_aof (aof_truncate sys) (s\<lparr>disk_of := d\<rparr>))"

definition close_store :: "os \<Rightarrow> proc \<Rightarrow> proc" where
  "close_store sys s =
     (if is_closed s then s
      else let s = s\<lparr>is_closed := True, stopped := True, threads := []\<rparr>;
               s = flush_public sys s;
               s = with_aof (aof_close sys) s
           in if lock_path s = [] then s
              else s\<lparr>disk_of := (disk_of s)\<lparr>files := um_erase (lock_path s) (files (disk_of s))\<rparr>\<rparr>)"

text \<open>What the background threads do when they wake: nothing once the engine has been stopped.\<close>

definition thread_tick :: "os \<Rightarrow> i64 \<Rightarrow> thread \<Rightarrow> proc \<Rightarrow> proc" where
  "thread_tick sys now t s =
     (if t \<notin> set (threads s) \<or> stopped s then s
      else case t of
             Flush_thread \<Rightarrow> flush_public sys s
           | Fsync_thread \<Rightarrow> with_aof (aof_sync sys) s
           | Tail_thread _ \<Rightarrow> poll_tails now s)"

subsection \<open>Opening\<close>

definition inner0 :: "disk \<Rightarrow> 64 word \<Rightarrow> i64 \<Rightarrow> proc" where
  "inner0 d st n =
     \<lparr>shards = (\<lambda>_. \<lparr>data = [], dirty = []\<rparr>), tails = \<lparr>readers = [], stray = [], last_poll = 0\<rparr>,
      the_aof = None, inst = 0, pfx = ALPHABET ! 0, dir = [], own_name = [], lock_path = [],
      stopped = False, is_closed = False, threads = [], disk_of = d, rng = st, links_total = n\<rparr>"

definition boot_sibling :: "fs \<Rightarrow> string \<Rightarrow> proc \<Rightarrow> proc" where
  "boot_sibling f name s =
     (let snap = take (length name - 4) name @ ''.snap'';
          s = replay_file f (dir s @ ''/'' @ snap) apply_line s
      in set_readers (um_emplace name (TailReader (dir s @ ''/'' @ name)) (readers (tails s))) s)"

definition boot_replay :: "proc \<Rightarrow> proc" where
  "boot_replay s =
     (let f = files (disk_of s);
          s = replay_file f (dir s @ ''/'' @ snap_name (inst s)) apply_line s;
          s = replay_file f (dir s @ ''/'' @ own_name s) apply_line s
      in fold (boot_sibling f) (shard_files f (dir s) (own_name s)) s)"

definition start_threads :: "environ \<Rightarrow> proc \<Rightarrow> proc" where
  "start_threads env s =
     s\<lparr>threads := [Flush_thread] @
        (if the_aof s \<noteq> None
         then [Fsync_thread] @ (if 0 < tail_ms env then [Tail_thread (tail_ms env)] else []) else [])\<rparr>"

text \<open>\<open>Inl\<close> is the exception \<^verbatim>\<open>std::runtime_error\<close>, with the disk as it is left behind.\<close>

definition open_store ::
  "os \<Rightarrow> environ \<Rightarrow> string \<Rightarrow> int \<Rightarrow> disk \<Rightarrow> 64 word \<Rightarrow> i64 \<Rightarrow> (string \<times> disk) + proc"
where
  "open_store sys env d inst_arg disk st n =
     (if d = '':memory:'' then Inr (start_threads env (inner0 disk st n))
      else
        (let ((id, lock), f) =
               (if 0 \<le> inst_arg then ((inst_arg, []), files disk) else claim_instance sys d (files disk));
             disk = disk\<lparr>files := f\<rparr>
         in if id < 0 \<or> int MAX_INSTANCES \<le> id then Inl (''no free instance id'', disk)
            else
              (let s = (inner0 disk st n)\<lparr>inst := id, pfx := ALPHABET ! nat id, dir := d, own_name := log_name id,
                          lock_path := lock\<rparr>;
                   (ok, a, disk) = open_at sys d (log_name id) aof0 disk
               in if \<not> ok then Inl (''open aof failed'', disk)
                  else Inr (start_threads env (boot_replay (s\<lparr>the_aof := Some a, disk_of := disk\<rparr>))))))"

definition instance_of :: "proc \<Rightarrow> int" where
  "instance_of s = inst s"

definition persistent :: "proc \<Rightarrow> bool" where
  "persistent s = (the_aof s \<noteq> None)"

section \<open>Generated codes\<close>

lemma mod_MAX_INSTANCES: "unat (v mod of_nat MAX_INSTANCES :: 64 word) < 62"
proof -
  have "unat (v mod of_nat MAX_INSTANCES) = unat v mod 62"
    by (simp add: unat_mod MAX_INSTANCES_def)
  then show ?thesis by simp
qed

lemma gen_suffix_spec:
  "gen_suffix k c st = (r, st') \<Longrightarrow> \<exists>t. r = c @ t \<and> length t = k \<and> set t \<subseteq> set ALPHABET"
proof (induction k arbitrary: c st)
  case 0
  then show ?case by simp
next
  case (Suc k)
  obtain v st1 where n: "rng_next st = (v, st1)" by (cases "rng_next st")
  let ?x = "ALPHABET ! unat (v mod of_nat MAX_INSTANCES)"
  have x: "?x \<in> set ALPHABET" using mod_MAX_INSTANCES [of v] by simp
  have "gen_suffix k (c @ [?x]) st1 = (r, st')" using Suc.prems n by simp
  then obtain t where "r = (c @ [?x]) @ t" "length t = k" "set t \<subseteq> set ALPHABET"
    using Suc.IH by blast
  then show ?case using x by (intro exI [of _ "?x # t"]) simp
qed

lemma gen_code_spec:
  assumes "gen_code p st = (c, st')"
  shows "length c = CODE_LEN" "hd c = p" "set c \<subseteq> insert p (set ALPHABET)" "c \<noteq> []"
  using gen_suffix_spec [OF assms [unfolded gen_code_def]] by (auto simp: CODE_LEN_def)

lemma ALPHABET_safe: "x \<in> set ALPHABET \<Longrightarrow> x \<noteq> DQ \<and> x \<noteq> BSL \<and> x \<noteq> NL"
  unfolding ALPHABET_def by auto

lemma gen_code_safe:
  assumes "gen_code p st = (c, st')" and "p \<in> set ALPHABET"
  shows "log_safe c"
proof -
  have "x \<in> set ALPHABET" if "x \<in> set c" for x using gen_code_spec(3) [OF assms(1)] assms(2) that by auto
  then show ?thesis using gen_code_spec(4) [OF assms(1)] ALPHABET_safe by (simp add: log_safe_def)
qed

text \<open>The i-th candidate of the loop and the random state behind it.\<close>

primrec draw :: "char \<Rightarrow> 64 word \<Rightarrow> nat \<Rightarrow> string \<times> 64 word" where
  "draw p st 0 = gen_code p st"
| "draw p st (Suc n) = gen_code p (snd (draw p st n))"

lemma draw_shift: "draw p (snd (gen_code p st)) n = draw p st (Suc n)"
  by (induction n) simp_all

lemma fresh_code_draw:
  "\<not> taken (fst (draw p st n)) \<Longrightarrow> (\<And>i. i < n \<Longrightarrow> taken (fst (draw p st i))) \<Longrightarrow>
     fresh_code taken p st = Some (draw p st n)"
proof (induction n arbitrary: st)
  case 0
  then show ?case by (subst fresh_code.simps) (auto split: prod.split)
next
  case (Suc n)
  have "taken (fst (gen_code p st))" using Suc.prems(2) [of 0] by simp
  moreover have "fresh_code taken p (snd (gen_code p st)) = Some (draw p st (Suc n))"
    using Suc.IH [of "snd (gen_code p st)"] Suc.prems by (simp only: draw_shift) (metis Suc_mono)
  ultimately show ?case by (subst fresh_code.simps) (simp add: case_prod_unfold Let_def)
qed

lemma fresh_code_total:
  assumes "\<not> taken (fst (draw p st n))"
  shows "\<exists>m \<le> n. fresh_code taken p st = Some (draw p st m) \<and> \<not> taken (fst (draw p st m))"
proof -
  let ?m = "LEAST m. \<not> taken (fst (draw p st m))"
  have "\<not> taken (fst (draw p st ?m))" using assms by (rule LeastI)
  moreover have "taken (fst (draw p st i))" if "i < ?m" for i using not_less_Least [OF that] by simp
  moreover have "?m \<le> n" using assms by (rule Least_le)
  ultimately show ?thesis using fresh_code_draw by blast
qed

lemma fresh_code_SomeD:
  assumes "fresh_code taken p st = Some (c, st')"
  shows "\<not> taken c" "\<exists>r. gen_code p r = (c, st')"
proof -
  have "\<not> taken (fst y) \<and> (\<exists>r. gen_code p r = y)" if "fresh_code taken p st = Some y" for y
  proof (rule fresh_code.raw_induct [OF _ that])
    fix f taken p st y
    assume IH: "\<And>taken p st y. f taken p st = Some y \<Longrightarrow> \<not> taken (fst y) \<and> (\<exists>r. gen_code p r = y)"
      and eq: "(let (c, st) = gen_code p st in if taken c then f taken p st else Some (c, st)) = Some y"
    from eq IH [of taken p "snd (gen_code p st)" y] show "\<not> taken (fst y) \<and> (\<exists>r. gen_code p r = y)"
      by (cases "gen_code p st") (cases y, auto split: if_splits)
  qed
  from this [OF assms] show "\<not> taken c" "\<exists>r. gen_code p r = (c, st')" by simp_all
qed

section \<open>What the operations leave alone\<close>

lemma in_i64_expiry [simp]: "in_i64 (expiry now ttl)"
  by (simp add: expiry_def)

lemma with_aof_fields [simp]:
  "shards (with_aof g s) = shards s" "tails (with_aof g s) = tails s" "inst (with_aof g s) = inst s"
  "pfx (with_aof g s) = pfx s" "dir (with_aof g s) = dir s" "own_name (with_aof g s) = own_name s"
  "lock_path (with_aof g s) = lock_path s" "stopped (with_aof g s) = stopped s"
  "is_closed (with_aof g s) = is_closed s" "threads (with_aof g s) = threads s" "rng (with_aof g s) = rng s"
  "links_total (with_aof g s) = links_total s" "(the_aof (with_aof g s) = None) = (the_aof s = None)"
  by (simp_all add: with_aof_def split: option.split prod.split)

lemma idx_cong: "shards s' = shards s \<Longrightarrow> idx s' = idx s"
  by (simp add: idx_def fun_eq_iff)

lemma idx_with_aof [simp]: "idx (with_aof g s) = idx s"
  by (rule idx_cong) simp

lemma idx_fields [simp]:
  "idx (s\<lparr>rng := r\<rparr>) = idx s" "idx (links_delta n s) = idx s" "idx (s\<lparr>disk_of := d\<rparr>) = idx s"
  "idx (s\<lparr>the_aof := a\<rparr>) = idx s" "idx (s\<lparr>threads := ts\<rparr>) = idx s"
  by (simp_all add: idx_def links_delta_def fun_eq_iff)

lemma idx_bump_dirty [simp]: "idx (bump_dirty c s) = idx s"
  by (simp add: idx_def bump_dirty_def upd_shard_def fun_eq_iff)

lemma rows_eq_idx: "idx s' = idx s \<Longrightarrow> rows s' = rows s"
  by (simp add: rows_def)

lemma rows_at: "rows s c = map_option core (idx s c)"
  by (simp add: rows_def)

lemma core_Entry [simp]: "core (Entry u a e i) = (u, a, e, i)"
  by (simp add: core_def Entry_def)

lemma rows_links_with [simp]:
  "rows (links_delta n s) = rows s" "rows (with_aof g s) = rows s" "rows (bump_dirty c s) = rows s"
  "rows (s\<lparr>disk_of := d\<rparr>) = rows s" "rows (s\<lparr>rng := r\<rparr>) = rows s"
  by (simp_all add: rows_def)

lemma inner_idx_put [simp]:
  "inst (idx_put c e s) = inst s" "pfx (idx_put c e s) = pfx s" "the_aof (idx_put c e s) = the_aof s"
  "dir (idx_put c e s) = dir s" "own_name (idx_put c e s) = own_name s"
  by (simp_all add: idx_put_def upd_shard_def)

lemma proc_idx_put [simp]:
  fixes s :: proc
  shows "disk_of (idx_put c e s) = disk_of s" "rng (idx_put c e s) = rng s" "links_total (idx_put c e s) = links_total s"
  by (simp_all add: idx_put_def upd_shard_def)

lemma inner_idx_erase [simp]:
  "inst (idx_erase c s) = inst s" "pfx (idx_erase c s) = pfx s" "the_aof (idx_erase c s) = the_aof s"
  "dir (idx_erase c s) = dir s" "own_name (idx_erase c s) = own_name s"
  by (simp_all add: idx_erase_def upd_shard_def)

lemma proc_idx_erase [simp]:
  fixes s :: proc
  shows "disk_of (idx_erase c s) = disk_of s" "rng (idx_erase c s) = rng s" "links_total (idx_erase c s) = links_total s"
  by (simp_all add: idx_erase_def upd_shard_def)

lemma idx_inv_rng: "idx_inv (s\<lparr>rng := r\<rparr>) = idx_inv s"
  by (simp add: idx_inv_def)

section \<open>Creating links\<close>

lemma insert_fresh_SomeD:
  assumes "insert_fresh url now ex s = Some (c, s')"
  shows "idx s c = None" "length c = CODE_LEN" "hd c = pfx s" "idx s' = (idx s)(c \<mapsto> Entry url now ex (inst s))"
    "\<exists>r. s' = idx_put c (Entry url now ex (inst s)) (s\<lparr>rng := r\<rparr>)"
    "pfx s \<in> set ALPHABET \<Longrightarrow> log_safe c"
proof -
  obtain st where f: "fresh_code (\<lambda>c. idx s c \<noteq> None) (pfx s) (rng s) = Some (c, st)"
    and s': "s' = idx_put c (Entry url now ex (inst s)) (s\<lparr>rng := st\<rparr>)"
    using assms by (auto simp: insert_fresh_def split: option.splits)
  obtain r where r: "gen_code (pfx s) r = (c, st)" using fresh_code_SomeD(2) [OF f] by blast
  show "idx s c = None" using fresh_code_SomeD(1) [OF f] by simp
  show "length c = CODE_LEN" "hd c = pfx s" using gen_code_spec [OF r] by simp_all
  show "pfx s \<in> set ALPHABET \<Longrightarrow> log_safe c" by (rule gen_code_safe [OF r])
  show "idx s' = (idx s)(c \<mapsto> Entry url now ex (inst s))"
    by (simp add: s' fun_eq_iff um_simps)
  show "\<exists>r. s' = idx_put c (Entry url now ex (inst s)) (s\<lparr>rng := r\<rparr>)" using s' by blast
qed

lemma insert_fresh_total:
  assumes "idx s (fst (draw (pfx s) (rng s) n)) = None"
  shows "\<exists>c s'. insert_fresh url now ex s = Some (c, s')"
proof -
  obtain m where "fresh_code (\<lambda>c. idx s c \<noteq> None) (pfx s) (rng s) = Some (draw (pfx s) (rng s) m)"
    using fresh_code_total [of "\<lambda>c. idx s c \<noteq> None" "pfx s" "rng s" n] assms by auto
  then show ?thesis by (simp add: insert_fresh_def split: prod.split)
qed

lemma idx_shorten_log [simp]: "idx (shorten_log sys now url ttl code s) = idx s"
  by (simp add: shorten_log_def)

lemma shorten_taken: "idx s c \<noteq> None \<Longrightarrow> shorten sys now url (Some c) ttl s = Some (None, s)"
  by (simp add: shorten_def shorten_insert_def)

lemma shorten_alias:
  assumes "idx s c = None"
  shows "\<exists>s'. shorten sys now url (Some c) ttl s = Some (Some c, s') \<and>
     idx s' = (idx s)(c \<mapsto> Entry url now (expiry now ttl) (inst s))"
  using assms by (auto simp: shorten_def shorten_insert_def fun_eq_iff um_simps)

lemma shorten_SomeD:
  assumes "shorten sys now url al ttl s = Some (Some c, s')"
  shows "idx s c = None" "idx s' = (idx s)(c \<mapsto> Entry url now (expiry now ttl) (inst s))"
    "al = None \<Longrightarrow> length c = CODE_LEN \<and> hd c = pfx s" "al = Some x \<Longrightarrow> c = x"
    "\<exists>s1. s' = shorten_log sys now url ttl c s1 \<and> (\<exists>r. s1 = idx_put c (Entry url now (expiry now ttl) (inst s)) (s\<lparr>rng := r\<rparr>))"
    "al = None \<Longrightarrow> pfx s \<in> set ALPHABET \<Longrightarrow> log_safe c"
proof -
  obtain s1 where i: "shorten_insert now url al ttl s = Some (Some c, s1)"
    and s': "s' = shorten_log sys now url ttl c s1"
    using assms by (auto simp: shorten_def split: option.splits)
  have "idx s c = None \<and> idx s1 = (idx s)(c \<mapsto> Entry url now (expiry now ttl) (inst s)) \<and>
      (al = None \<longrightarrow> length c = CODE_LEN \<and> hd c = pfx s \<and> (pfx s \<in> set ALPHABET \<longrightarrow> log_safe c)) \<and>
      (\<forall>x. al = Some x \<longrightarrow> c = x) \<and>
      (\<exists>r. s1 = idx_put c (Entry url now (expiry now ttl) (inst s)) (s\<lparr>rng := r\<rparr>))"
  proof (cases al)
    case None
    with i have "insert_fresh url now (expiry now ttl) s = Some (c, s1)"
      by (auto simp: shorten_insert_def split: option.splits)
    from insert_fresh_SomeD [OF this] show ?thesis using None by simp
  next
    case (Some x)
    then have "s1 = idx_put c (Entry url now (expiry now ttl) (inst s)) (s\<lparr>rng := rng s\<rparr>)"
      and "x = c" "idx s c = None"
      using i by (auto simp: shorten_insert_def split: if_splits)
    then show ?thesis using Some by (auto simp: fun_eq_iff um_simps intro!: exI [of _ "rng s"])
  qed
  then show "idx s c = None" "idx s' = (idx s)(c \<mapsto> Entry url now (expiry now ttl) (inst s))"
    "al = None \<Longrightarrow> length c = CODE_LEN \<and> hd c = pfx s" "al = Some x \<Longrightarrow> c = x"
    "\<exists>s1. s' = shorten_log sys now url ttl c s1 \<and> (\<exists>r. s1 = idx_put c (Entry url now (expiry now ttl) (inst s)) (s\<lparr>rng := r\<rparr>))"
    "al = None \<Longrightarrow> pfx s \<in> set ALPHABET \<Longrightarrow> log_safe c"
    using s' by auto
qed

text \<open>The bulk loop: what it adds to the index, and the lines it collects.\<close>

lemma shorten_many_loop_SomeD:
  assumes "shorten_many_loop now ex us codes lines s = Some (codes', lines', s')"
  shows "\<exists>new. codes' = codes @ new \<and> length new = length us \<and> distinct new \<and>
      (\<forall>c \<in> set new. idx s c = None \<and> length c = CODE_LEN \<and> hd c = pfx s \<and> (pfx s \<in> set ALPHABET \<longrightarrow> log_safe c)) \<and>
      idx s' = idx s ++ map_of (zip new (map (\<lambda>u. Entry u now ex (inst s)) us)) \<and>
      (the_aof s \<noteq> None \<longrightarrow> lines' = lines @ unlines (map (\<lambda>(c, u). row_line c u now ex (inst s) 0) (zip new us))) \<and>
      same_frame s (s'\<lparr>rng := rng s\<rparr>) \<and> (idx_inv s \<longrightarrow> idx_inv s') \<and>
      tails s' = tails s \<and> (\<forall>k. dirty (shards s' k) = dirty (shards s k))"
  using assms
proof (induction us arbitrary: codes lines s)
  case Nil
  then show ?case by simp
next
  case (Cons u us)
  obtain c s1 where i: "insert_fresh u now ex s = Some (c, s1)"
    and l: "shorten_many_loop now ex us (codes @ [c])
      (if the_aof s1 \<noteq> None then row_line_into lines c u now ex (inst s1) 0 @ [NL] else lines) s1 = Some (codes', lines', s')"
    using Cons.prems by (auto split: option.splits)
  note f = insert_fresh_SomeD [OF i]
  obtain r where s1: "s1 = idx_put c (Entry u now ex (inst s)) (s\<lparr>rng := r\<rparr>)" using f(5) by blast
  obtain new where new: "codes' = (codes @ [c]) @ new" "length new = length us" "distinct new"
      "\<forall>c \<in> set new. idx s1 c = None \<and> length c = CODE_LEN \<and> hd c = pfx s1 \<and> (pfx s1 \<in> set ALPHABET \<longrightarrow> log_safe c)"
      "idx s' = idx s1 ++ map_of (zip new (map (\<lambda>u. Entry u now ex (inst s1)) us))"
      "the_aof s1 \<noteq> None \<longrightarrow> lines' = (if the_aof s1 \<noteq> None then row_line_into lines c u now ex (inst s1) 0 @ [NL] else lines)
         @ unlines (map (\<lambda>(c, u). row_line c u now ex (inst s1) 0) (zip new us))"
      "same_frame s1 (s'\<lparr>rng := rng s1\<rparr>)" "idx_inv s1 \<longrightarrow> idx_inv s'" "tails s' = tails s1"
      "\<forall>k. dirty (shards s' k) = dirty (shards s1 k)"
    using Cons.IH [OF l] by blast
  have keep: "inst s1 = inst s" "pfx s1 = pfx s" "the_aof s1 = the_aof s" "tails s1 = tails s" by (simp_all add: s1)
  have c: "c \<notin> set new" using new(4) f(4) by force
  have d: "dirty (shards s1 k) = dirty (shards s k)" for k
    by (simp add: s1 idx_put_def upd_shard_def)
  have i': "idx s' = idx s ++ map_of (zip (c # new) (map (\<lambda>u. Entry u now ex (inst s)) (u # us)))"
  proof -
    have "map_of (zip new (map (\<lambda>u. Entry u now ex (inst s)) us)) c = None"
      using c by (metis map_of_eq_None_iff map_fst_zip_take set_take_subset subsetD list.set_map)
    then show ?thesis using new(5) f(4) keep(1) by (auto simp: map_add_def split: option.split)
  qed
  have sf: "same_frame s (s'\<lparr>rng := rng s\<rparr>)"
    using new(7) unfolding same_frame_def s1 by (cases s; cases s') (simp add: idx_put_def upd_shard_def)
  have inv: "idx_inv s \<longrightarrow> idx_inv s'"
    using new(8) idx_inv_put [of "s\<lparr>rng := r\<rparr>" c "Entry u now ex (inst s)"] by (simp add: s1 idx_inv_rng)
  have fresh: "\<forall>x \<in> set (c # new). idx s x = None \<and> length x = CODE_LEN \<and> hd x = pfx s \<and>
      (pfx s \<in> set ALPHABET \<longrightarrow> log_safe x)"
  proof
    fix x
    assume "x \<in> set (c # new)"
    then show "idx s x = None \<and> length x = CODE_LEN \<and> hd x = pfx s \<and> (pfx s \<in> set ALPHABET \<longrightarrow> log_safe x)"
      using f(1,2,3,6) new(4) f(4) keep(2) c by (cases "x = c") auto
  qed
  have ls: "the_aof s \<noteq> None \<longrightarrow>
      lines' = lines @ unlines (map (\<lambda>(c, u). row_line c u now ex (inst s) 0) (zip (c # new) (u # us)))"
    using new(6) keep by (simp add: row_line_into_eq)
  have "codes' = codes @ (c # new)" "length (c # new) = length (u # us)" "distinct (c # new)"
    using new(1-3) c by simp_all
  moreover have "tails s' = tails s" "\<forall>k. dirty (shards s' k) = dirty (shards s k)"
    using new(9,10) keep(4) d by simp_all
  ultimately show ?case
    using i' sf inv fresh ls by (intro exI [of _ "c # new"] conjI)
qed

lemma shorten_manyD:
  assumes "shorten_many sys now urls ttl s = Some (codes, s')"
  shows "length codes = length urls" "distinct codes"
    "\<forall>c \<in> set codes. idx s c = None \<and> length c = CODE_LEN \<and> hd c = pfx s"
    "idx s' = idx s ++ map_of (zip codes (map (\<lambda>u. Entry u now (expiry now ttl) (inst s)) urls))"
proof -
  obtain lines s1 where l: "shorten_many_loop now (expiry now ttl) urls [] [] s = Some (codes, lines, s1)"
    and s': "s' = links_delta (int (length codes)) (with_aof (\<lambda>a d. flush_if_full sys (push_raw lines a) d) s1)"
    using assms by (auto simp: shorten_many_def split: option.splits)
  have "idx s' = idx s1" by (simp add: s')
  then show "length codes = length urls" "distinct codes"
    "\<forall>c \<in> set codes. idx s c = None \<and> length c = CODE_LEN \<and> hd c = pfx s"
    "idx s' = idx s ++ map_of (zip codes (map (\<lambda>u. Entry u now (expiry now ttl) (inst s)) urls))"
    using shorten_many_loop_SomeD [OF l] by auto
qed

section \<open>Reading links\<close>

lemma idx_count_hit: "idx (count_hit env c e s) = (if track_hits env then (idx s)(c \<mapsto> add_hits 1 True e) else idx s)"
  by (simp add: count_hit_def fun_eq_iff um_simps)

lemma rows_count_hit [simp]: "idx s c = Some e \<Longrightarrow> rows (count_hit env c e s) = rows s"
  by (auto simp: rows_def idx_count_hit fun_eq_iff)

lemma resolve_found:
  assumes "idx s c = Some e"
  shows "resolve env clk c s = (if live (clk 0) e then (Some (e_u e), count_hit env c e s) else (None, s))"
  using assms by (simp add: resolve_def)

lemma resolve_rows:
  "rows (snd (resolve env clk c s)) =
     (if idx s c = None \<and> the_aof s \<noteq> None then fold abs_line (missed_lines (files (disk_of s)) (clk 1) c s) (rows s)
      else rows s)"
  by (auto simp: resolve_def Let_def rows_tail_missed split: option.split)

lemma shard_inv_dirty:
  "shard_inv (shard_of c) sh \<Longrightarrow> shard_inv (shard_of c) (sh\<lparr>dirty := um_put c n (dirty sh)\<rparr>)"
  by (auto simp: shard_inv_def um_inv_put um_put_keys)

lemma idx_inv_bump_dirty [um_invars]: "idx_inv s \<Longrightarrow> idx_inv (bump_dirty c s)"
  by (simp add: idx_inv_def bump_dirty_def upd_shard_def shard_inv_dirty)

lemma idx_inv_count_hit [um_invars]: "idx_inv s \<Longrightarrow> idx_inv (count_hit env c e s)"
  by (simp add: count_hit_def idx_inv_bump_dirty idx_inv_put)

lemma idx_inv_resolve [um_invars]: "idx_inv s \<Longrightarrow> idx_inv (snd (resolve env clk c s))"
  by (simp add: resolve_def Let_def idx_inv_count_hit idx_inv_tail_missed split: option.split)

text \<open>A walk over the shards meets every entry once.\<close>

definition scan :: "(string \<times> entry \<Rightarrow> bool) \<Rightarrow> proc \<Rightarrow> (string \<times> entry) list" where
  "scan Q s = concat (map (\<lambda>k. filter Q (data (shards s k))) [0..<NUM_SHARDS])"

lemma in_shard_iff:
  assumes "idx_inv s"
  shows "(c, e) \<in> set (data (shards s k)) \<and> k < NUM_SHARDS \<longleftrightarrow> idx s c = Some e \<and> k = shard_of c"
  using data_shard_of [OF assms, of c e k] idx_in_data [OF assms, of c e] shard_of_less [of c] by auto

lemma set_scan:
  assumes "idx_inv s"
  shows "(c, e) \<in> set (scan Q s) \<longleftrightarrow> idx s c = Some e \<and> Q (c, e)"
proof -
  have "(c, e) \<in> set (scan Q s) \<longleftrightarrow> (\<exists>k. ((c, e) \<in> set (data (shards s k)) \<and> k < NUM_SHARDS) \<and> Q (c, e))"
    by (auto simp: scan_def)
  then show ?thesis unfolding in_shard_iff [OF assms] by blast
qed

lemma distinct_scan:
  assumes "idx_inv s"
  shows "distinct (map fst (scan Q s))"
proof -
  have d: "distinct (map fst (filter Q (data (shards s k))))" for k
    using assms by (simp add: idx_inv_def shard_inv_def um_inv_def distinct_map_filter)
  have sub: "shard_of x = k" if "x \<in> fst ` set (filter Q (data (shards s k)))" for x k
    using that data_shard_of [OF assms] by force
  have "distinct (concat (map (\<lambda>k. map fst (filter Q (data (shards s k)))) ks))" if "distinct ks" for ks
    using that
  proof (induction ks)
    case (Cons k ks)
    have "x \<notin> fst ` set (filter Q (data (shards s j)))"
      if "x \<in> fst ` set (filter Q (data (shards s k)))" "j \<in> set ks" for x j
      using sub [of x k] sub [of x j] that Cons.prems by auto
    then show ?case using Cons d [of k] by (auto simp del: set_filter)
  qed simp
  then show ?thesis by (simp add: scan_def map_concat comp_def)
qed

lemma scan_key:
  assumes "idx_inv s" and "c \<in> fst ` set (scan Q s)"
  shows "\<exists>e. idx s c = Some e \<and> Q (c, e)"
proof -
  obtain e where "(c, e) \<in> set (scan Q s)" using assms(2) by force
  then show ?thesis using set_scan [OF assms(1)] by blast
qed

lemma map_of_scan:
  assumes "idx_inv s"
  shows "map_of (scan Q s) c = (case idx s c of None \<Rightarrow> None | Some e \<Rightarrow> if Q (c, e) then Some e else None)"
proof (cases "\<exists>e. idx s c = Some e \<and> Q (c, e)")
  case True
  then obtain e where e: "idx s c = Some e" "Q (c, e)" by blast
  then have "(c, e) \<in> set (scan Q s)" using set_scan [OF assms] by blast
  then have "map_of (scan Q s) c = Some e" by (rule map_of_is_SomeI [OF distinct_scan [OF assms]])
  then show ?thesis using e by simp
next
  case False
  then have "c \<notin> fst ` set (scan Q s)" using scan_key [OF assms] by blast
  then have "map_of (scan Q s) c = None" by (simp only: map_of_eq_None_iff simp_thms)
  then show ?thesis using False by (cases "idx s c") auto
qed

text \<open>The links a listing collects: one for every entry that matches, no code twice.\<close>

lemma collect_scan: "collect q s = map (\<lambda>(c, e). to_link c e) (scan (matches q) s)"
  by (simp add: collect_def scan_def map_concat comp_def)

lemma set_collect:
  assumes "idx_inv s"
  shows "set (collect q s) = {to_link c e | c e. idx s c = Some e \<and> matches q (c, e)}"
proof -
  have "set (collect q s) = {to_link c e | c e. (c, e) \<in> set (scan (matches q) s)}"
    by (force simp: collect_scan)
  then show ?thesis unfolding set_scan [OF assms] .
qed

lemma distinct_collect: "idx_inv s \<Longrightarrow> distinct (map l_code (collect q s))"
  using distinct_scan [of s "matches q"]
  by (simp add: collect_scan comp_def case_prod_unfold to_link_def)

text \<open>What the standard says of \<^verbatim>\<open>std::sort\<close>, for a comparison that is a strict weak order.\<close>

definition strict_weak :: "('a \<Rightarrow> 'a \<Rightarrow> bool) \<Rightarrow> bool" where
  "strict_weak lt \<longleftrightarrow> (\<forall>x. \<not> lt x x) \<and> transp lt \<and> transp (\<lambda>x y. \<not> lt x y \<and> \<not> lt y x)"

definition std_sort :: "(('a \<Rightarrow> 'a \<Rightarrow> bool) \<Rightarrow> 'a list \<Rightarrow> 'a list) \<Rightarrow> bool" where
  "std_sort srt \<longleftrightarrow> (\<forall>lt xs. strict_weak lt \<longrightarrow>
     mset (srt lt xs) = mset xs \<and> sorted_wrt (\<lambda>x y. \<not> lt y x) (srt lt xs))"

lemma strict_weak_by_sort: "strict_weak (by_sort ord)"
  by (auto simp: strict_weak_def by_sort_def transp_def)

definition sort_key_of :: "string \<Rightarrow> link \<Rightarrow> i64" where
  "sort_key_of ord l = (if ord = ''hits'' then l_hits l else l_created_at l)"

lemma sorted_links:
  assumes "std_sort srt"
  shows "mset (srt (by_sort ord) xs) = mset xs"
    "sorted_wrt (\<lambda>x y. sort_key_of ord y \<le> sort_key_of ord x) (srt (by_sort ord) xs)"
proof -
  have s: "mset (srt (by_sort ord) xs) = mset xs \<and> sorted_wrt (\<lambda>x y. \<not> by_sort ord y x) (srt (by_sort ord) xs)"
    using assms strict_weak_by_sort unfolding std_sort_def by blast
  then show "mset (srt (by_sort ord) xs) = mset xs" by simp
  show "sorted_wrt (\<lambda>x y. sort_key_of ord y \<le> sort_key_of ord x) (srt (by_sort ord) xs)"
    by (rule sorted_wrt_mono_rel [OF _ conjunct2 [OF s]]) (auto simp: sort_key_of_def by_sort_def split: if_splits)
qed

lemma paginate_eq: "offset + limit < 2 ^ 64 \<Longrightarrow> paginate limit offset items = (take limit (drop offset items), length items)"
  by (auto simp: paginate_def Let_def min_def)

lemma pages_concat:
  assumes "n * limit < 2 ^ 64"
  shows "concat (map (\<lambda>i. fst (paginate limit (i * limit) items)) [0..<n]) = take (n * limit) items"
proof -
  have "concat (map (\<lambda>i. take limit (drop (i * limit) items)) [0..<n]) = take (n * limit) items"
  proof (induction n)
    case (Suc n)
    have "take (n * limit + limit) items = take (n * limit) items @ take limit (drop (n * limit) items)"
      by (rule take_add)
    then show ?case using Suc by (simp add: add.commute)
  qed simp
  moreover have "fst (paginate limit (i * limit) items) = take limit (drop (i * limit) items)" if "i < n" for i
  proof -
    have "i * limit + limit = Suc i * limit" by simp
    also have "\<dots> \<le> n * limit" using that by (intro mult_le_mono1) simp
    finally have "i * limit + limit < 2 ^ 64" using assms by linarith
    then show ?thesis by (simp add: paginate_eq)
  qed
  ultimately show ?thesis by (metis (no_types, lifting) map_eq_conv atLeastLessThan_iff set_upt)
qed

lemma empty_iff: "idx_inv s \<Longrightarrow> empty s \<longleftrightarrow> idx s = Map.empty"
proof -
  assume inv: "idx_inv s"
  show ?thesis
  proof
    assume "empty s"
    then have "data (shards s (shard_of c)) = []" for c
      using shard_of_less [of c] by (simp add: empty_def list_all_iff)
    then show "idx s = Map.empty" by (simp add: idx_def fun_eq_iff)
  next
    assume e: "idx s = Map.empty"
    have "data (shards s k) = []" for k
    proof (rule ccontr)
      assume "data (shards s k) \<noteq> []"
      then obtain c v where "(c, v) \<in> set (data (shards s k))" by (metis list.set_intros(1) neq_Nil_conv surj_pair)
      with data_shard_of [OF inv this] have "idx s c = Some v" by (simp add: idx_in_data [OF inv])
      then show False using e by simp
    qed
    then show "empty s" by (simp add: empty_def list_all_iff)
  qed
qed

section \<open>Changing links\<close>

lemma idx_update_log [simp]: "idx (update_log c u a ex s) = idx s"
  by (simp add: update_log_def)

lemma idx_remove_log [simp]: "idx (remove_log c s) = idx s"
  by (simp add: remove_log_def)

lemma update_own:
  assumes "idx s c = Some e" and "e_i e = inst s"
  shows "fst (update now c url ttl has_ttl s) = Ok"
    "idx (snd (update now c url ttl has_ttl s)) =
       (idx s)(c \<mapsto> e\<lparr>e_u := url, e_e := (if has_ttl then expiry now ttl else e_e e)\<rparr>)"
  using assms by (simp_all add: update_def update_index_def fun_eq_iff um_simps Let_def)

lemma update_other:
  "idx s c = None \<Longrightarrow> update now c url ttl has_ttl s = (Missing, s)"
  "idx s c = Some e \<Longrightarrow> e_i e \<noteq> inst s \<Longrightarrow> update now c url ttl has_ttl s = (Remote, s)"
  by (simp_all add: update_def update_index_def)

lemma remove_own:
  assumes "idx s c = Some e" and "e_i e = inst s"
  shows "fst (remove c s) = Ok" "idx (snd (remove c s)) = (idx s)(c := None)"
  using assms by (simp_all add: remove_def remove_index_def fun_eq_iff um_simps)

lemma remove_other:
  "idx s c = None \<Longrightarrow> remove c s = (Missing, s)"
  "idx s c = Some e \<Longrightarrow> e_i e \<noteq> inst s \<Longrightarrow> remove c s = (Remote, s)"
  by (simp_all add: remove_def remove_index_def)

section \<open>Flushing\<close>

lemma dirty_lines_eq: "dirty_lines i m lines = lines @ unlines (map (\<lambda>(c, d). hit_line c d i) m)"
  by (induction m arbitrary: lines) (auto simp: hit_line_into_eq)

definition hit_lines :: "proc \<Rightarrow> nat list \<Rightarrow> string list" where
  "hit_lines s ks = concat (map (\<lambda>k. map (\<lambda>(c, d). hit_line c d (inst s)) (dirty (shards s k))) ks)"

lemma unlines_append [simp]: "unlines (xs @ ys) = unlines xs @ unlines ys"
  by (simp add: unlines_def)

lemma drain_eq:
  assumes "distinct ks"
  shows "drain ks lines s = (lines @ unlines (hit_lines s ks),
    s\<lparr>shards := (\<lambda>k. if k \<in> set ks then (shards s k)\<lparr>dirty := []\<rparr> else shards s k)\<rparr>)"
  using assms
proof (induction ks arbitrary: lines s)
  case Nil
  then show ?case by (simp add: hit_lines_def)
next
  case (Cons k ks)
  let ?s = "upd_shard k (\<lambda>sh. sh\<lparr>dirty := []\<rparr>) s"
  have h: "hit_lines ?s ks = hit_lines s ks"
    using Cons.prems by (auto simp: hit_lines_def upd_shard_def intro!: arg_cong [of _ _ concat])
  show ?case
  proof (cases "dirty (shards s k) = []")
    case True
    then have e: "shards s k = (shards s k)\<lparr>dirty := []\<rparr>" by (cases "shards s k") simp
    have "(\<lambda>j. if j \<in> set ks then (shards s j)\<lparr>dirty := []\<rparr> else shards s j) =
        (\<lambda>j. if j \<in> set (k # ks) then (shards s j)\<lparr>dirty := []\<rparr> else shards s j)"
      using e by (auto simp: fun_eq_iff)
    then show ?thesis using Cons True by (simp add: hit_lines_def)
  next
    case False
    have "(\<lambda>j. if j \<in> set ks then (shards ?s j)\<lparr>dirty := []\<rparr> else shards ?s j) =
        (\<lambda>j. if j \<in> set (k # ks) then (shards s j)\<lparr>dirty := []\<rparr> else shards s j)"
      by (auto simp: fun_eq_iff upd_shard_def)
    moreover have "unlines (hit_lines s (k # ks)) =
        unlines (map (\<lambda>(c, d). hit_line c d (inst s)) (dirty (shards s k))) @ unlines (hit_lines s ks)"
      by (simp add: hit_lines_def)
    ultimately show ?thesis
      using Cons False h by (simp add: dirty_lines_eq) (simp add: upd_shard_def)
  qed
qed

section \<open>Properties\<close>

text \<open>An engine without a log, to instantiate the properties at.\<close>

definition demo_mem :: proc where
  "demo_mem = inner0 \<lparr>files = [], durable = []\<rparr> 1 0"

definition demo_os :: os where
  "demo_os = byte_os\<lparr>os_write := (\<lambda>f p s. int (length s))\<rparr>"

lemma demo_mem_simps [simp]:
  "idx demo_mem c = None" "idx_inv demo_mem" "the_aof demo_mem = None" "inst demo_mem = 0" "pfx demo_mem = CHR ''0''"
  by (simp_all add: demo_mem_def inner0_def idx_def idx_inv_def shard_inv_def ALPHABET_def)

lemma live_stored: "e_e e = ex \<Longrightarrow> live t e \<longleftrightarrow> ex = 0 \<or> t < ex"
  by (auto simp: live_def)

text \<open>
  C6: A link that \<^verbatim>\<open>shorten\<close> creates is new, is the only change to the index, carries no hits, and
  resolves to its URL until it expires and to nothing from then on. With a lifetime that is not
  positive it never expires.
\<close>

theorem shorten_then_resolve:
  assumes "shorten sys now url al ttl s = Some (Some c, s')"
  shows "idx s c = None \<and> (\<forall>x. x \<noteq> c \<longrightarrow> idx s' x = idx s x) \<and>
    stats c s' = Some \<lparr>l_code = c, l_url = url, l_hits = 0, l_created_at = now, l_expires_at = expiry now ttl\<rparr> \<and>
    fst (resolve env clk c s') = (if ttl \<le> 0 \<or> expiry now ttl = 0 \<or> clk 0 < expiry now ttl then Some url else None)"
proof -
  note f = shorten_SomeD [OF assms]
  have e: "idx s' c = Some (Entry url now (expiry now ttl) (inst s))" using f(2) by simp
  have z: "ttl \<le> 0 \<Longrightarrow> expiry now ttl = 0" by (simp add: expiry_def)
  show ?thesis
    using f(1,2) z unfolding resolve_found [OF e]
    by (auto simp: stats_def e to_link_def Entry_def live_def)
qed

theorem shorten_then_resolve_witness:
  "case shorten demo_os 100 ''http://x'' (Some ''ali'') 50 demo_mem of
     Some (Some c, s') \<Rightarrow> fst (resolve Map.empty (\<lambda>_. 149) c s') = Some ''http://x'' \<and>
       fst (resolve Map.empty (\<lambda>_. 150) c s') = None
   | _ \<Rightarrow> False"
proof -
  obtain s' where s': "shorten demo_os 100 ''http://x'' (Some ''ali'') 50 demo_mem = Some (Some ''ali'', s')"
    using shorten_alias [of demo_mem "''ali''" demo_os 100 "''http://x''" 50] by (meson demo_mem_simps(1))
  have "expiry 100 50 = 150" by (simp add: expiry_def add64_def wrap64_id in_i64_def)
  then show ?thesis
    using shorten_then_resolve [OF s', where env = Map.empty and clk = "\<lambda>_. 149"]
      shorten_then_resolve [OF s', where env = Map.empty and clk = "\<lambda>_. 150"]
    by (simp add: s')
qed

text \<open>
  An alias that is taken is refused and nothing changes, expired links included: an expired
  link keeps its alias.
\<close>

lemma shorten_alias_taken:
  assumes "idx s c = Some e"
  shows "shorten sys now url (Some c) ttl s = Some (None, s)"
  using assms by (simp add: shorten_taken)

text \<open>
  C7: The loop that draws codes ends as soon as some draw of the generator is free, and shorten then
  returns a code of eight characters of the alphabet that starts with the prefix of the instance.
\<close>

theorem shorten_generates:
  assumes "idx s (fst (draw (pfx s) (rng s) n)) = None"
  shows "\<exists>c s'. shorten sys now url None ttl s = Some (Some c, s') \<and> length c = 8 \<and> hd c = pfx s \<and> idx s c = None"
proof -
  obtain c s1 where i: "insert_fresh url now (expiry now ttl) s = Some (c, s1)" using insert_fresh_total [OF assms] by blast
  have "shorten sys now url None ttl s = Some (Some c, shorten_log sys now url ttl c s1)"
    by (simp add: shorten_def shorten_insert_def i)
  then show ?thesis using insert_fresh_SomeD(1-3) [OF i] by (auto simp: CODE_LEN_def)
qed

theorem shorten_generates_witness:
  "\<exists>c s'. shorten demo_os 5 ''u'' None 0 demo_mem = Some (Some c, s') \<and> length c = 8 \<and> hd c = pfx demo_mem \<and> idx demo_mem c = None"
  by (rule shorten_generates [where n = 0]) simp

text \<open>
  C8: A bulk creation gives every URL a code of its own: as many codes as URLs, all different, all
  new, the i-th code resolving to the i-th URL, and no other entry of the index changed.
\<close>

theorem shorten_many_codes:
  assumes "shorten_many sys now urls ttl s = Some (codes, s')"
  shows "length codes = length urls \<and> distinct codes \<and> list_all (\<lambda>c. idx s c = None \<and> length c = 8 \<and> hd c = pfx s) codes \<and>
    map (idx s') codes = map (\<lambda>u. Some (Entry u now (expiry now ttl) (inst s))) urls \<and>
    (\<forall>x. x \<notin> set codes \<longrightarrow> idx s' x = idx s x)"
proof -
  note f = shorten_manyD [OF assms]
  let ?es = "map (\<lambda>u. Entry u now (expiry now ttl) (inst s)) urls"
  have z: "map_of (zip codes ?es) (codes ! i) = Some (?es ! i)" if "i < length codes" for i
    using that f(1,2) by (intro map_of_zip_nth) simp_all
  have "map (idx s') codes = map Some ?es"
    using f(1) z by (intro nth_equalityI) (simp_all add: f(4) map_add_def)
  moreover have "idx s' x = idx s x" if "x \<notin> set codes" for x
  proof -
    have "map_of (zip codes ?es) x = None" using that by (metis map_of_SomeD not_None_eq set_zip_leftD)
    then show ?thesis by (simp add: f(4) map_add_def)
  qed
  ultimately show ?thesis using f(1-3) by (simp add: list_all_iff CODE_LEN_def comp_def)
qed

theorem shorten_many_codes_witness:
  "case shorten_many demo_os 5 [''u''] 0 demo_mem of
     Some (codes, s') \<Rightarrow> length codes = 1 \<and> map (idx s') codes = [Some (Entry ''u'' 5 0 0)] | None \<Rightarrow> False"
proof -
  obtain c s1 where "insert_fresh ''u'' 5 (expiry 5 0) demo_mem = Some (c, s1)"
    using insert_fresh_total [of demo_mem 0 "''u''" 5 "expiry 5 0"] by auto
  then obtain codes s' where m: "shorten_many demo_os 5 [''u''] 0 demo_mem = Some (codes, s')"
    by (simp add: shorten_many_def)
  show ?thesis using shorten_many_codes [OF m] by (simp add: m expiry_def)
qed

text \<open>
  Resolving a link of the index: past its expiry the answer is a miss and nothing changes. Before,
  the answer is its URL; with hit tracking on, its own counters and the pending delta of its code
  grow by one, with it off nothing changes; no other entry and no row changes in either case.
\<close>

lemma resolve_counts_hit:
  assumes "idx s c = Some e" and "resolve env clk c s = (r, s')"
  shows "r = (if e_e e = 0 \<or> clk 0 < e_e e then Some (e_u e) else None) \<and>
    idx s' = (idx s)(c \<mapsto> if r \<noteq> None \<and> track_hits env
                          then e\<lparr>e_h := add64 (e_h e) 1, e_oh := add64 (e_oh e) 1\<rparr> else e) \<and>
    um_get 0 (dirty (shards s' (shard_of c))) c =
      (let d = um_get 0 (dirty (shards s (shard_of c))) c in if r \<noteq> None \<and> track_hits env then add64 d 1 else d) \<and>
    rows s' = rows s"
proof -
  have r: "r = (if live (clk 0) e then Some (e_u e) else None)"
    and s': "s' = (if live (clk 0) e then count_hit env c e s else s)"
    using assms(2) unfolding resolve_found [OF assms(1)] by (auto split: if_splits)
  have same: "(idx s)(c \<mapsto> e) = idx s" using assms(1) by (rule map_upd_triv)
  have "um_get 0 (dirty (shards (count_hit env c e s) (shard_of c))) c =
      (if track_hits env then add64 (um_get 0 (dirty (shards s (shard_of c))) c) 1
       else um_get 0 (dirty (shards s (shard_of c))) c)"
    by (simp add: count_hit_def bump_dirty_def upd_shard_def idx_put_def um_get_put)
  then show ?thesis
    using assms(1) same by (cases "live (clk 0) e") (simp_all add: r s' live_def idx_count_hit add_hits_def Let_def)
qed

text \<open>
  \<^verbatim>\<open>update\<close> and \<^verbatim>\<open>remove\<close> answer Missing for an unknown code and Remote for a link of another
  instance, in both cases changing nothing at all; for a link of its own \<^verbatim>\<open>update\<close> replaces URL and,
  if a lifetime is given, expiry, keeping creation time, owner and hits, and \<^verbatim>\<open>remove\<close> erases
  exactly that code, after which it resolves to nothing unless a sibling's log holds it.
\<close>

lemma mutate_own_only:
  "(case idx s c of
      None \<Rightarrow> update now c url ttl has_ttl s = (Missing, s) \<and> remove c s = (Missing, s)
    | Some e \<Rightarrow>
        if e_i e \<noteq> inst s then update now c url ttl has_ttl s = (Remote, s) \<and> remove c s = (Remote, s)
        else (\<exists>s1. update now c url ttl has_ttl s = (Ok, s1) \<and>
                idx s1 = (idx s)(c \<mapsto> e\<lparr>e_u := url, e_e := (if has_ttl then expiry now ttl else e_e e)\<rparr>)) \<and>
             (\<exists>s2. remove c s = (Ok, s2) \<and> idx s2 = (idx s)(c := None) \<and>
                (the_aof s = None \<longrightarrow> resolve env clk c s2 = (None, s2))))"
proof (cases "idx s c")
  case None
  then show ?thesis by (simp add: update_other remove_other)
next
  case (Some e)
  show ?thesis
  proof (cases "e_i e = inst s")
    case False
    then show ?thesis using Some by (simp add: update_other remove_other)
  next
    case True
    obtain s1 where "update now c url ttl has_ttl s = (Ok, s1)"
      "idx s1 = (idx s)(c \<mapsto> e\<lparr>e_u := url, e_e := (if has_ttl then expiry now ttl else e_e e)\<rparr>)"
      using update_own [OF Some True, of now url ttl has_ttl] by (metis prod.collapse)
    moreover obtain s2 where s2: "remove c s = (Ok, s2)" "idx s2 = (idx s)(c := None)"
      using remove_own [OF Some True] by (metis prod.collapse)
    moreover have "the_aof s2 = None" if "the_aof s = None"
      using s2(1) Some True that by (auto simp: remove_def remove_index_def remove_log_def links_delta_def)
    ultimately show ?thesis using Some True by (simp add: resolve_def)
  qed
qed

lemma e_i_Entry [simp]: "e_i (Entry u a e i) = i"
  by (simp add: Entry_def)

text \<open>
  C12: A listing shows every matching link: for any sorting routine that does what the standard
  requires of \<^verbatim>\<open>std::sort\<close>, the pages of a listing put together are the matching links, each code
  once, in order of falling hits or creation time, and the total is their number.
\<close>

theorem list_pages:
  assumes "idx_inv s" and "std_sort srt" and "n * limit < 2 ^ 64"
    and "snd (list_links srt limit 0 ord q s) \<le> n * limit"
  defines "pages \<equiv> concat (map (\<lambda>i. fst (list_links srt limit (i * limit) ord q s)) [0..<n])"
  shows "set pages = {to_link c e | c e. idx s c = Some e \<and> (q = [] \<or> sublist q c \<or> sublist q (e_u e))} \<and>
    distinct (map l_code pages) \<and> sorted_wrt (\<lambda>x y. sort_key_of ord y \<le> sort_key_of ord x) pages \<and>
    snd (list_links srt limit k ord q s) = length pages"
proof -
  let ?items = "srt (by_sort ord) (collect q s)"
  note so = sorted_links [OF assms(2), of ord "collect q s"]
  have snd: "snd (paginate limit j xs) = length xs" for j xs by (simp add: paginate_def Let_def)
  have "pages = take (n * limit) ?items"
    unfolding pages_def list_links_def using assms(3) by (rule pages_concat)
  then have p: "pages = ?items" using assms(4) by (simp add: list_links_def snd)
  have "set pages = set (collect q s)" unfolding p using so(1) by (metis mset_eq_setD)
  moreover have "distinct (map l_code pages)"
  proof -
    have "mset (map l_code ?items) = mset (map l_code (collect q s))" using so(1) by simp
    from mset_eq_imp_distinct_iff [OF this] show ?thesis unfolding p using distinct_collect [OF assms(1)] by blast
  qed
  ultimately show ?thesis
    using so(2) unfolding p list_links_def snd set_collect [OF assms(1)] by (simp add: matches_def contains_sublist)
qed

text \<open>A sorting routine of the kind the theorem asks for: insertion of each element in front of the first that is not smaller.\<close>

fun ins_by :: "('a \<Rightarrow> 'a \<Rightarrow> bool) \<Rightarrow> 'a \<Rightarrow> 'a list \<Rightarrow> 'a list" where
  "ins_by lt x [] = [x]"
| "ins_by lt x (y # ys) = (if lt y x then y # ins_by lt x ys else x # y # ys)"

definition isort :: "('a \<Rightarrow> 'a \<Rightarrow> bool) \<Rightarrow> 'a list \<Rightarrow> 'a list" where
  "isort lt xs = foldr (ins_by lt) xs []"

lemma mset_ins_by [simp]: "mset (ins_by lt x ys) = add_mset x (mset ys)"
  by (induction ys) auto

lemma strict_weakD: "strict_weak lt \<Longrightarrow> \<not> lt y x \<Longrightarrow> \<not> lt z y \<Longrightarrow> \<not> lt z x"
  unfolding strict_weak_def transp_def by blast

lemma sorted_ins_by:
  assumes "strict_weak lt" and "sorted_wrt (\<lambda>x y. \<not> lt y x) ys"
  shows "sorted_wrt (\<lambda>x y. \<not> lt y x) (ins_by lt x ys)"
  using assms(2)
proof (induction ys)
  case (Cons y ys)
  have s: "set (ins_by lt x ys) = insert x (set ys)" by (metis mset_ins_by set_mset_add_mset_insert set_mset_mset)
  have "\<not> lt x y" if "lt y x" using that assms(1) unfolding strict_weak_def transp_def by blast
  then show ?case using Cons s strict_weakD [OF assms(1), of y x] by auto
qed simp

lemma isort_std: "std_sort isort"
proof -
  have "mset (isort lt xs) = mset xs" for lt :: "'a \<Rightarrow> 'a \<Rightarrow> bool" and xs
    by (induction xs) (simp_all add: isort_def)
  moreover have "strict_weak lt \<Longrightarrow> sorted_wrt (\<lambda>x y. \<not> lt y x) (isort lt xs)" for lt :: "'a \<Rightarrow> 'a \<Rightarrow> bool" and xs
    by (induction xs) (simp_all add: isort_def sorted_ins_by)
  ultimately show ?thesis by (simp add: std_sort_def)
qed

theorem list_pages_witness:
  "let s = idx_put ''b'' (Entry ''u'' 7 0 0) demo_mem;
       pages = concat (map (\<lambda>i. fst (list_links isort 2 (i * 2) ''new'' [] s)) [0..<1])
   in distinct (map l_code pages) \<and> set pages = {to_link ''b'' (Entry ''u'' 7 0 0)}"
proof -
  let ?s = "idx_put ''b'' (Entry ''u'' 7 0 0) demo_mem"
  have i: "idx_inv ?s" by (simp add: idx_inv_put)
  have e: "idx ?s = [''b'' \<mapsto> Entry ''u'' 7 0 0]" by (simp add: fun_eq_iff um_simps)
  have l: "length (collect [] ?s) \<le> 1"
  proof -
    have "set (map l_code (collect [] ?s)) \<subseteq> {''b''}" by (auto simp: set_collect [OF i] e to_link_def split: if_splits)
    then have "card (set (map l_code (collect [] ?s))) \<le> card {''b''}" by (rule card_mono [rotated]) simp
    then show ?thesis using distinct_card [OF distinct_collect [OF i, of "[]"]] by simp
  qed
  have "snd (list_links isort 2 0 ''new'' [] ?s) = length (collect [] ?s)"
    using arg_cong [OF sorted_links(1) [OF isort_std, of "''new''" "collect [] ?s"], of size]
    by (simp add: list_links_def paginate_def Let_def)
  then have "snd (list_links isort 2 0 ''new'' [] ?s) \<le> 1 * 2" using l by simp
  from list_pages [OF i isort_std _ this] show ?thesis
    unfolding Let_def e by (auto split: if_splits)
qed

lemma resolve_sibling_lines:
  assumes "idx s c = None" and "the_aof s \<noteq> None" and "c \<noteq> []" and "alpha_idx (hd c) = j" and "0 \<le> j" and "j \<noteq> inst s"
    and t: "t = (case um_find (readers (tails s)) (log_name j) of Some t \<Rightarrow> t | None \<Rightarrow> TailReader (dir s @ ''/'' @ log_name j))"
    and f: "f = files (disk_of s)" and "in_step f t"
    and "whole_lines (file_content f (tr_path t)) = whole_lines (take (tr_offset t) (file_content f (tr_path t))) @ ls"
    and "fold abs_line ls (rows s) c = Some (u, a, e, i)"
  shows "fst (resolve env clk c s) = (if e = 0 \<or> clk 3 < e then Some u else None)"
proof -
  let ?s = "tail_missed f (clk 1) (clk 2) c s"
  obtain ls' t' where r: "read_new f t = (ls', t')" by (cases "read_new f t")
  then have l: "ls' = ls" using read_new_in_step(4) [OF assms(9) r] assms(10) by simp
  have "missed_lines f (clk 1) c s = ls"
    unfolding missed_lines_def assms(4) t [symmetric] r using assms(2,3,5,6) l by auto
  then have "rows ?s c = Some (u, a, e, i)" using assms(11) by (simp add: rows_tail_missed)
  then obtain x where x: "idx ?s c = Some x" "e_u x = u" "e_e x = e" by (auto simp: rows_at core_def)
  then show ?thesis using assms(1,2) f by (auto simp: resolve_def Let_def not_le)
qed

end
