(* ===== verification/Durability.thy ===== *)
theory Durability
  imports Store
begin

text \<open>
  What the log promises. The bytes on disk and in the buffer are a sequence of lines; replaying
  them gives back the rows of the index. The relation \<open>step\<close> collects every call on an open
  engine, the background threads, and what other processes do to their own files; \<open>dinv\<close> is its
  invariant. The claim is made for the codes that no sibling writes or deletes (\<open>P\<close>): two
  instances may both accept the same alias, and then the line read last wins.
\<close>

section \<open>The lines an engine stands for\<close>

definition own_log :: "'z inner_scheme \<Rightarrow> string" where
  "own_log s = dir s @ ''/'' @ own_name s"

definition own_snap :: "'z inner_scheme \<Rightarrow> string" where
  "own_snap s = dir s @ ''/'' @ snap_name (inst s)"

definition snap_bytes :: "proc \<Rightarrow> string" where
  "snap_bytes s = file_content (files (disk_of s)) (own_snap s)"

definition log_lines :: "proc \<Rightarrow> string list" where
  "log_lines s = (case the_aof s of None \<Rightarrow> [] | Some a \<Rightarrow> whole_lines (log_bytes a (disk_of s)))"

definition disk_lines :: "proc \<Rightarrow> string list" where
  "disk_lines s = whole_lines (snap_bytes s) @ log_lines s"

definition persisted :: "proc \<Rightarrow> string \<rightharpoonup> row" where
  "persisted s = fold abs_line (disk_lines s) Map.empty"

definition os_ok :: "os \<Rightarrow> bool" where
  "os_ok sys \<longleftrightarrow> write_ok sys \<and> (\<forall>f p. os_creat sys f p)"

definition names_ok :: "'z inner_scheme \<Rightarrow> bool" where
  "names_ok s \<longleftrightarrow> own_name s = log_name (inst s) \<and> 0 \<le> inst s \<and> inst s < 62 \<and> pfx s = ALPHABET ! nat (inst s)"

definition log_ok :: "os \<Rightarrow> proc \<Rightarrow> bool" where
  "log_ok sys s \<longleftrightarrow> complete (snap_bytes s) \<and>
     (\<exists>a. the_aof s = Some a \<and> log_inv sys a (disk_of s) \<and> aof_path a = own_log s \<and>
          complete (log_bytes a (disk_of s)))"

definition own_line :: "int \<Rightarrow> string \<Rightarrow> bool" where
  "own_line i l \<longleftrightarrow> (case parse_op l of None \<Rightarrow> True | Some p \<Rightarrow>
     op_x p = [] \<longrightarrow> op_h p = [] \<longrightarrow> log_safe (op_c p) \<and> wrap32 (op_i p) = i)"

definition foreign_line :: "(string \<Rightarrow> bool) \<Rightarrow> string \<Rightarrow> bool" where
  "foreign_line P l \<longleftrightarrow> (case parse_op l of None \<Rightarrow> True | Some p \<Rightarrow>
     (op_x p \<noteq> [] \<longrightarrow> \<not> P (op_x p)) \<and>
     (op_x p = [] \<longrightarrow> op_h p = [] \<longrightarrow> log_safe (op_c p) \<and> \<not> P (op_c p)))"

definition codes_ok :: "'z inner_scheme \<Rightarrow> bool" where
  "codes_ok s \<longleftrightarrow> (\<forall>c. idx s c \<noteq> None \<longrightarrow> log_safe c) \<and>
     (\<forall>k. \<forall>(c, d) \<in> set (dirty (shards s k)). log_safe c \<and> in_i64 d)"

definition dinv :: "os \<Rightarrow> (string \<Rightarrow> bool) \<Rightarrow> proc \<Rightarrow> bool" where
  "dinv sys P s \<longleftrightarrow> os_ok sys \<and> names_ok s \<and> log_ok sys s \<and> idx_inv s \<and> entries_ok s \<and> codes_ok s \<and>
     list_all (own_line (inst s)) (disk_lines s) \<and> (\<forall>c. P c \<longrightarrow> persisted s c = rows s c)"

section \<open>Lines and rows\<close>

lemma abs_line_row:
  assumes "log_safe c" "in_i64 a" "in_i64 e" "in_i64 i" "in_i64 n"
  shows "abs_line (row_line c u a e i n) m = m(c \<mapsto> (u, a, e, wrap32 i))"
  using assms parse_row_line [OF assms] by (simp add: abs_line_def abs_op_def row_op_def op0_def log_safe_def)

lemma abs_line_hit: "log_safe c \<Longrightarrow> in_i64 d \<Longrightarrow> in_i64 i \<Longrightarrow> abs_line (hit_line c d i) m = m"
  using parse_hit_line [of c d i] by (simp add: abs_line_def abs_op_def hit_op_def op0_def log_safe_def)

lemma abs_line_del: "log_safe c \<Longrightarrow> abs_line (del_line c) m = m(c := None)"
  using parse_del_line [of c] by (simp add: abs_line_def abs_op_def del_op_def op0_def log_safe_def)

lemma own_line_row:
  assumes "log_safe c" "in_i64 a" "in_i64 e" "in_i64 i" "in_i64 n" "wrap32 i = j"
  shows "own_line j (row_line c u a e i n)"
  using assms parse_row_line [OF assms(1-5)] by (simp add: own_line_def row_op_def op0_def)

lemma own_line_hit: "log_safe c \<Longrightarrow> in_i64 d \<Longrightarrow> in_i64 i \<Longrightarrow> own_line j (hit_line c d i)"
  using parse_hit_line [of c d i] by (simp add: own_line_def hit_op_def op0_def log_safe_def)

lemma own_line_del: "log_safe c \<Longrightarrow> own_line j (del_line c)"
  using parse_del_line [of c] by (simp add: own_line_def del_op_def op0_def log_safe_def)

lemma abs_line_local: "m c = m' c \<Longrightarrow> abs_line l m c = abs_line l m' c"
  by (cases "parse_op l") (simp_all only: abs_line_def abs_op_def option.case fun_upd_apply split: if_split, blast)

lemma abs_lines_local: "m c = m' c \<Longrightarrow> fold abs_line ls m c = fold abs_line ls m' c"
proof (induction ls arbitrary: m m')
  case (Cons l ls)
  have "abs_line l m c = abs_line l m' c" using Cons.prems by (rule abs_line_local)
  then have "fold abs_line ls (abs_line l m) c = fold abs_line ls (abs_line l m') c" by (rule Cons.IH)
  then show ?case by (simp only: fold_simps)
qed simp

lemma foreign_line_id: "foreign_line P l \<Longrightarrow> P c \<Longrightarrow> abs_line l m c = m c"
  by (auto simp: foreign_line_def abs_line_def abs_op_def split: option.splits)

lemma foreign_lines_id: "list_all (foreign_line P) ls \<Longrightarrow> P c \<Longrightarrow> fold abs_line ls m c = m c"
  by (induction ls arbitrary: m) (auto simp: foreign_line_id)

lemma parse_op_nonempty: "parse_op l = Some p \<Longrightarrow> op_x p = [] \<Longrightarrow> op_h p = [] \<Longrightarrow> op_c p \<noteq> []"
  by (auto simp: parse_op_def split: option.splits if_splits)

definition row_inst :: "row \<Rightarrow> int" where
  "row_inst r = (case r of (u, a, e, i) \<Rightarrow> i)"

lemma row_inst_simp [simp]: "row_inst (u, a, e, i) = i"
  by (simp add: row_inst_def)

lemma own_line_inst:
  assumes "own_line i l" and "pred_option (\<lambda>r. row_inst r = i) (m c)"
  shows "pred_option (\<lambda>r. row_inst r = i) (abs_line l m c)"
proof (cases "parse_op l")
  case None
  then show ?thesis using assms(2) by (simp add: abs_line_def)
next
  case (Some p)
  then show ?thesis using assms by (auto simp: abs_line_def abs_op_def own_line_def)
qed

lemma own_lines_inst:
  "list_all (own_line i) ls \<Longrightarrow> pred_option (\<lambda>r. row_inst r = i) (m c) \<Longrightarrow>
     pred_option (\<lambda>r. row_inst r = i) (fold abs_line ls m c)"
proof (induction ls arbitrary: m)
  case (Cons l ls)
  then show ?case using own_line_inst [of i l m c] by simp
qed simp

lemma wrap32_small: "0 \<le> i \<Longrightarrow> i < 62 \<Longrightarrow> wrap32 i = i"
  unfolding wrap32_def by (rule signed_take_bit_int_eq_self) auto

lemma in_i64_small_inst: "0 \<le> i \<Longrightarrow> i < 62 \<Longrightarrow> in_i64 i"
  by (simp add: in_i64_def)

section \<open>Steps that append to the log\<close>

definition log_step :: "os \<Rightarrow> aof \<Rightarrow> disk \<Rightarrow> string list \<Rightarrow> aof \<Rightarrow> disk \<Rightarrow> bool" where
  "log_step sys a d ls a' d' \<longleftrightarrow> log_inv sys a' d' \<and> aof_path a' = aof_path a \<and> complete (log_bytes a' d') \<and>
     whole_lines (log_bytes a' d') = whole_lines (log_bytes a d) @ ls \<and>
     (\<forall>q. q \<noteq> aof_path a \<longrightarrow> um_find (files d') q = um_find (files d) q)"

definition appends :: "os \<Rightarrow> (aof \<Rightarrow> disk \<Rightarrow> aof \<times> disk) \<Rightarrow> string list \<Rightarrow> bool" where
  "appends sys g ls \<longleftrightarrow> (\<forall>a d. log_inv sys a d \<longrightarrow> complete (log_bytes a d) \<longrightarrow>
     log_step sys a d ls (fst (g a d)) (snd (g a d)))"

lemma appendsI:
  "(\<And>a d. log_inv sys a d \<Longrightarrow> complete (log_bytes a d) \<Longrightarrow> log_step sys a d ls (fst (g a d)) (snd (g a d))) \<Longrightarrow>
     appends sys g ls"
  by (simp add: appends_def)

lemma appendsD:
  "appends sys g ls \<Longrightarrow> log_inv sys a d \<Longrightarrow> complete (log_bytes a d) \<Longrightarrow> log_step sys a d ls (fst (g a d)) (snd (g a d))"
  by (simp add: appends_def)

lemma log_step_trans: "log_step sys a d ls b e \<Longrightarrow> log_step sys b e ms a' d' \<Longrightarrow> log_step sys a d (ls @ ms) a' d'"
  by (simp add: log_step_def)

lemma log_stepD: "log_step sys a d ls a' d' \<Longrightarrow> log_inv sys a' d' \<and> complete (log_bytes a' d')"
  by (simp add: log_step_def)

lemma aof_path_push [simp]: "aof_path (push l a) = aof_path a" "aof_path (push_raw x a) = aof_path a"
  by (simp_all add: push_def push_raw_def)

lemma appends_push: "framed l \<Longrightarrow> appends sys (\<lambda>a d. (push l a, d)) [l]"
  by (simp add: appends_def log_step_def al.push_line al.inv_push)

lemma appends_push_raw: "list_all framed ls \<Longrightarrow> appends sys (\<lambda>a d. (push_raw (unlines ls) a, d)) ls"
  by (simp add: appends_def log_step_def al.push_lines al.inv_push_raw)

lemma appends_flush: "appends sys (aof_flush sys) []"
proof (rule appendsI)
  fix a d
  assume a: "log_inv sys a d" "complete (log_bytes a d)"
  note f = aof_flush_log [OF a(1) surjective_pairing]
  show "log_step sys a d [] (fst (aof_flush sys a d)) (snd (aof_flush sys a d))"
    using f(1,4,6) a(2) unfolding log_step_def f(2) by simp
qed

lemma appends_comp:
  assumes "appends sys g ls" and "appends sys h ms"
  shows "appends sys (\<lambda>a d. case g a d of (a, d) \<Rightarrow> h a d) (ls @ ms)"
proof (rule appendsI)
  fix a d
  assume "log_inv sys a d" "complete (log_bytes a d)"
  then have 1: "log_step sys a d ls (fst (g a d)) (snd (g a d))" by (rule appendsD [OF assms(1)])
  from appendsD [OF assms(2)] log_stepD [OF 1]
  have "log_step sys (fst (g a d)) (snd (g a d)) ms
      (fst (h (fst (g a d)) (snd (g a d)))) (snd (h (fst (g a d)) (snd (g a d))))" by blast
  from log_step_trans [OF 1 this]
  show "log_step sys a d (ls @ ms) (fst (case g a d of (a, d) \<Rightarrow> h a d)) (snd (case g a d of (a, d) \<Rightarrow> h a d))"
    by (simp add: case_prod_unfold)
qed

lemma appends_if: "appends sys g ls \<Longrightarrow> appends sys h ls \<Longrightarrow> appends sys (\<lambda>a d. if b a then g a d else h a d) ls"
  by (simp add: appends_def)

lemma appends_id: "appends sys (\<lambda>a d. (a, d)) []"
  by (simp add: appends_def log_step_def)

lemma appends_flush_if_full: "appends sys (flush_if_full sys) []"
  unfolding flush_if_full_def [abs_def] by (rule appends_if [OF appends_flush appends_id])

lemma appends_sync: "appends sys (aof_sync sys) []"
proof -
  have "appends sys (\<lambda>a d. (a, if aof_fd a \<noteq> None then fsync_file (aof_path a) d else d)) []"
    by (simp add: appends_def log_step_def log_inv_def log_bytes_def fsync_file_def)
  from appends_comp [OF appends_flush this] show ?thesis by (simp add: aof_sync_def [abs_def] Let_def)
qed

lemmas appends_intros =
  appends_comp [OF appends_push appends_flush_if_full, simplified]
  appends_comp [OF appends_push_raw appends_flush_if_full, simplified]
  appends_comp [OF appends_push_raw appends_flush, simplified]
  appends_push appends_sync

lemma log_snap_neq: "own_name s = log_name (inst s) \<Longrightarrow> own_snap s \<noteq> own_log s"
proof
  assume "own_name s = log_name (inst s)" and "own_snap s = own_log s"
  then have "rev (snap_name (inst s)) = rev (log_name (inst s))" by (simp add: own_snap_def own_log_def)
  then show False by (simp add: snap_name_def log_name_def)
qed

lemma log_ok_with_aof:
  assumes "log_ok sys s" and "own_name s = log_name (inst s)" and "appends sys g ls"
  shows "log_ok sys (with_aof g s)" "disk_lines (with_aof g s) = disk_lines s @ ls"
proof -
  obtain a where a: "the_aof s = Some a" "log_inv sys a (disk_of s)" "aof_path a = own_log s"
    "complete (log_bytes a (disk_of s))" "complete (snap_bytes s)" using assms(1) by (auto simp: log_ok_def)
  obtain a' d' where g: "g a (disk_of s) = (a', d')" by (cases "g a (disk_of s)")
  have r: "log_step sys a (disk_of s) ls a' d'" using appendsD [OF assms(3) a(2,4)] g by simp
  have s': "with_aof g s = s\<lparr>the_aof := Some a', disk_of := d'\<rparr>" by (simp add: with_aof_def a(1) g)
  have "um_find (files d') (own_snap s) = um_find (files (disk_of s)) (own_snap s)"
    using r a(3) log_snap_neq [OF assms(2)] by (simp add: log_step_def)
  then have sn: "snap_bytes (with_aof g s) = snap_bytes s"
    by (simp add: s' snap_bytes_def file_content_def um_get_def own_snap_def)
  show "log_ok sys (with_aof g s)" using r a sn by (simp add: log_ok_def log_step_def) (simp add: s' own_log_def)
  show "disk_lines (with_aof g s) = disk_lines s @ ls"
    using r a(1) sn by (simp add: disk_lines_def log_lines_def log_step_def) (simp add: s')
qed

section \<open>The invariant under each call\<close>

definition same_log :: "proc \<Rightarrow> proc \<Rightarrow> bool" where
  "same_log s s' \<longleftrightarrow> the_aof s' = the_aof s \<and> disk_of s' = disk_of s \<and> dir s' = dir s \<and>
     own_name s' = own_name s \<and> inst s' = inst s \<and> pfx s' = pfx s"

lemma same_logD:
  assumes "same_log s s'"
  shows "log_ok sys s' = log_ok sys s" "names_ok s' = names_ok s" "disk_lines s' = disk_lines s"
    "persisted s' = persisted s" "inst s' = inst s"
  using assms
  by (auto simp: same_log_def log_ok_def names_ok_def disk_lines_def log_lines_def snap_bytes_def own_log_def
      own_snap_def persisted_def cong: option.case_cong)

lemma same_log_frame: "same_frame s s' \<Longrightarrow> same_log s s'"
  using same_frameD [of s s'] same_frame_proc [of s s'] by (simp add: same_log_def)

text \<open>The part of the invariant that speaks of the memory of the process.\<close>

definition mem_ok :: "'z inner_scheme \<Rightarrow> bool" where
  "mem_ok s \<longleftrightarrow> idx_inv s \<and> entries_ok s \<and> codes_ok s"

lemma mem_ok_cong: "shards s' = shards s \<Longrightarrow> tails s' = tails s \<Longrightarrow> mem_ok s' = mem_ok s"
  by (simp add: mem_ok_def idx_inv_def entries_ok_def codes_ok_def idx_def)

lemma dinv_mem: "dinv sys P s \<longleftrightarrow> os_ok sys \<and> names_ok s \<and> log_ok sys s \<and> mem_ok s \<and>
    list_all (own_line (inst s)) (disk_lines s) \<and> (\<forall>c. P c \<longrightarrow> persisted s c = rows s c)"
  by (auto simp: dinv_def mem_ok_def)

lemma dinv_quiet:
  assumes "dinv sys P s" and "same_log s s'" and "mem_ok s'" and "\<And>c. P c \<Longrightarrow> rows s' c = rows s c"
  shows "dinv sys P s'"
  using assms(1,3,4) unfolding dinv_mem same_logD [OF assms(2)] by simp

lemma dinv_append:
  assumes "dinv sys P s" and "same_log s s1" and "mem_ok s1" and "appends sys g ls"
    and "list_all (own_line (inst s)) ls" and "\<And>c. P c \<Longrightarrow> rows s1 c = fold abs_line ls (rows s) c"
  shows "dinv sys P (with_aof g s1)"
proof -
  note d = assms(1) [unfolded dinv_mem]
  note e = same_logD [OF assms(2)]
  have l: "log_ok sys s1" "own_name s1 = log_name (inst s1)" using d e by (auto simp: names_ok_def)
  note w = log_ok_with_aof [OF l assms(4)]
  have "names_ok (with_aof g s1)" using d e by (simp add: names_ok_def)
  moreover have "list_all (own_line (inst s1)) (disk_lines s1 @ ls)" using d assms(5) unfolding e by simp
  moreover have "persisted (with_aof g s1) c = rows (with_aof g s1) c" if "P c" for c
  proof -
    have "persisted (with_aof g s1) c = fold abs_line ls (persisted s) c"
      unfolding persisted_def w(2) e(3) by simp
    also have "\<dots> = fold abs_line ls (rows s) c" using d that by (intro abs_lines_local) simp
    also have "\<dots> = rows (with_aof g s1) c" using assms(6) [OF that] by simp
    finally show ?thesis .
  qed
  ultimately show ?thesis
    using w(1) d mem_ok_cong [of "with_aof g s1" s1] assms(3) unfolding dinv_mem w(2) by simp
qed

lemma dinv_links [simp]: "dinv sys P (links_delta n s) = dinv sys P s"
proof -
  have "same_log s (links_delta n s)" by (simp add: same_log_def links_delta_def)
  moreover have "mem_ok (links_delta n s) = mem_ok s" by (rule mem_ok_cong) (simp_all add: links_delta_def)
  ultimately show ?thesis unfolding dinv_mem by (simp add: same_logD)
qed

lemma mem_ok_put:
  assumes "mem_ok s" and "entry_ok e" and "log_safe c"
  shows "mem_ok (idx_put c e s)"
proof -
  have "dirty (shards (idx_put c e s) k) = dirty (shards s k)" for k by (simp add: idx_put_def upd_shard_def)
  then show ?thesis
    using assms by (simp add: mem_ok_def idx_inv_put entries_ok_put codes_ok_def um_simps)
qed

lemma mem_ok_erase: "mem_ok s \<Longrightarrow> mem_ok (idx_erase c s)"
proof -
  have "dirty (shards (idx_erase c s) k) = dirty (shards s k)" for k by (simp add: idx_erase_def upd_shard_def)
  then show "mem_ok s \<Longrightarrow> mem_ok (idx_erase c s)"
    by (simp add: mem_ok_def idx_inv_erase entries_ok_erase codes_ok_def um_simps)
qed

lemma mem_okD: "mem_ok s \<Longrightarrow> idx s c = Some e \<Longrightarrow> entry_ok e \<and> log_safe c"
  by (simp add: mem_ok_def entries_ok_def codes_ok_def)

lemma entry_ok_Entry: "in_i64 a \<Longrightarrow> in_i64 e \<Longrightarrow> in_i64 i \<Longrightarrow> entry_ok (Entry u a e i)"
  by (simp add: entry_ok_def Entry_def)

lemma names_ok_pfx: "names_ok s \<Longrightarrow> pfx s \<in> set ALPHABET"
  using nth_mem [of "nat (inst s)" ALPHABET] by (simp add: names_ok_def nat_less_iff)

lemma names_okD: "names_ok s \<Longrightarrow> in_i64 (inst s) \<and> wrap32 (inst s) = inst s"
  by (simp add: names_ok_def in_i64_small_inst wrap32_small)

lemma framed_lines:
  "log_safe c \<Longrightarrow> framed (row_line c u a e i n)" "log_safe c \<Longrightarrow> framed (hit_line c d i)"
  "log_safe c \<Longrightarrow> framed (del_line c)"
  using row_line_framed hit_line_framed del_line_framed by (simp_all add: framed_def)

lemma dinv_put_row:
  assumes "dinv sys P s" and "same_log s s1" and "mem_ok s1" and "log_safe c" and "in_i64 a" and "in_i64 ex"
    and "rows s1 = (rows s)(c \<mapsto> (u, a, ex, inst s))" and "appends sys g [row_line c u a ex (inst s) 0]"
  shows "dinv sys P (with_aof g s1)"
proof (rule dinv_append [OF assms(1,2,3,8)])
  have i: "in_i64 (inst s)" "wrap32 (inst s) = inst s"
    using assms(1) names_okD [of s] by (auto simp: dinv_def)
  then show "list_all (own_line (inst s)) [row_line c u a ex (inst s) 0]"
    using assms(4-6) by (simp add: own_line_row)
  show "rows s1 x = fold abs_line [row_line c u a ex (inst s) 0] (rows s) x" for x
    using assms(4-7) i by (simp add: abs_line_row)
qed

lemma dinv_shorten:
  assumes "dinv sys P s" and "shorten sys now url al ttl s = Some (r, s')" and "in_i64 now"
    and "\<And>x. al = Some x \<Longrightarrow> log_safe x"
  shows "dinv sys P s'"
proof (cases r)
  case None
  then have "s' = s" using assms(2) by (auto simp: shorten_def shorten_insert_def Let_def split: option.splits if_splits)
  then show ?thesis using assms(1) by simp
next
  case (Some c)
  note f = shorten_SomeD [OF assms(2) [unfolded Some]]
  obtain s1 rn where s': "s' = shorten_log sys now url ttl c s1"
    and s1: "s1 = idx_put c (Entry url now (expiry now ttl) (inst s)) (s\<lparr>rng := rn\<rparr>)" using f(5) by blast
  have d: "names_ok s" "mem_ok s" using assms(1) by (auto simp: dinv_mem)
  have c: "log_safe c" using f(4,6) assms(4) names_ok_pfx [OF d(1)] by (cases al) auto
  have "mem_ok (s\<lparr>rng := rn\<rparr>)" using d(2) mem_ok_cong [of "s\<lparr>rng := rn\<rparr>" s] by simp
  then have m: "mem_ok s1" unfolding s1 using c assms(3) names_okD [OF d(1)]
    by (intro mem_ok_put) (simp_all add: entry_ok_Entry)
  have l: "same_log s s1" by (simp add: same_log_def s1)
  have "rows s1 = (rows s)(c \<mapsto> (url, now, expiry now ttl, inst s))" by (simp add: s1 rows_put)
  from dinv_put_row [OF assms(1) l m c assms(3) in_i64_expiry this appends_intros(1) [OF framed_lines(1) [OF c]]]
  show ?thesis using l by (simp add: s' shorten_log_def same_log_def)
qed

lemma dinv_update:
  assumes "dinv sys P s"
  shows "dinv sys P (snd (update now c url ttl has_ttl s))"
proof (cases "\<exists>e. idx s c = Some e \<and> e_i e = inst s")
  case False
  then show ?thesis using assms update_other [of s c] by (cases "idx s c") auto
next
  case True
  then obtain e where e: "idx s c = Some e" "e_i e = inst s" by blast
  have d: "names_ok s" "mem_ok s" using assms(1) by (auto simp: dinv_mem)
  define ex where "ex = (if has_ttl then expiry now ttl else e_e e)"
  define s1 where "s1 = idx_put c (e\<lparr>e_u := url, e_e := ex\<rparr>) s"
  have o: "entry_ok e" "log_safe c" using mem_okD [OF d(2) e(1)] by simp_all
  have m: "mem_ok s1" unfolding s1_def using o
    by (intro mem_ok_put [OF d(2)]) (simp_all add: entry_ok_def ex_def)
  have l: "same_log s s1" by (simp add: same_log_def s1_def)
  have r: "rows s1 = (rows s)(c \<mapsto> (url, e_a e, ex, inst s))" using e by (simp add: s1_def rows_put core_def)
  have "in_i64 (e_a e)" "in_i64 ex" using o by (simp_all add: entry_ok_def ex_def)
  from dinv_put_row [OF assms l m o(2) this r appends_push [OF framed_lines(1) [OF o(2)]]]
  show ?thesis using e l
    by (simp add: update_def update_index_def update_log_def s1_def ex_def same_log_def Let_def)
qed

lemma dinv_remove:
  assumes "dinv sys P s"
  shows "dinv sys P (snd (remove c s))"
proof (cases "\<exists>e. idx s c = Some e \<and> e_i e = inst s")
  case False
  then show ?thesis using assms remove_other [of s c] by (cases "idx s c") auto
next
  case True
  then obtain e where e: "idx s c = Some e" "e_i e = inst s" by blast
  have d: "mem_ok s" using assms(1) by (auto simp: dinv_mem)
  have c: "log_safe c" using mem_okD [OF d e(1)] by simp
  have "dinv sys P (with_aof (\<lambda>l d. (push (del_line c) l, d)) (idx_erase c s))"
  proof (rule dinv_append [OF assms _ mem_ok_erase [OF d] appends_push [OF framed_lines(3) [OF c]]])
    show "same_log s (idx_erase c s)" by (simp add: same_log_def)
    show "list_all (own_line (inst s)) [del_line c]" by (simp add: own_line_del [OF c])
    show "rows (idx_erase c s) x = fold abs_line [del_line c] (rows s) x" for x
      by (simp add: abs_line_del [OF c] rows_erase)
  qed
  then show ?thesis using e by (simp add: remove_def remove_index_def remove_log_def)
qed

subsection \<open>Bulk creation\<close>

lemma abs_lines_rows:
  assumes "list_all (\<lambda>(c, u). log_safe c) cs" and "in_i64 a" "in_i64 ex" "in_i64 i" "wrap32 i = i" "distinct (map fst cs)"
  shows "fold abs_line (map (\<lambda>(c, u). row_line c u a ex i 0) cs) m =
    m ++ map_of (map (\<lambda>(c, u). (c, (u, a, ex, i))) cs)"
  using assms(1,6)
proof (induction cs arbitrary: m)
  case (Cons p cs)
  obtain c u where p: "p = (c, u)" by force
  have "map_of (map (\<lambda>(c, u). (c, (u, a, ex, i))) cs) c = None"
    using Cons.prems(2) by (auto simp: p map_of_eq_None_iff image_def)
  then show ?case
    using Cons assms(2-5) by (auto simp: p abs_line_row map_add_def fun_eq_iff split: option.split)
qed simp

lemma shorten_many_loopD:
  assumes "shorten_many_loop now ex urls [] [] s = Some (codes, lines, s1)"
    and "pfx s \<in> set ALPHABET" and "the_aof s \<noteq> None"
  shows "length codes = length urls" "distinct codes" "\<forall>c \<in> set codes. idx s c = None \<and> log_safe c"
    "idx s1 = idx s ++ map_of (zip codes (map (\<lambda>u. Entry u now ex (inst s)) urls))"
    "lines = unlines (map (\<lambda>(c, u). row_line c u now ex (inst s) 0) (zip codes urls))"
    "same_frame s (s1\<lparr>rng := rng s\<rparr>)" "idx_inv s \<longrightarrow> idx_inv s1"
    "tails s1 = tails s" "\<forall>k. dirty (shards s1 k) = dirty (shards s k)"
proof -
  note l = shorten_many_loop_SomeD [OF assms(1)]
  show "length codes = length urls" "distinct codes" "\<forall>c \<in> set codes. idx s c = None \<and> log_safe c"
    using l assms(2) by force+
  show "idx s1 = idx s ++ map_of (zip codes (map (\<lambda>u. Entry u now ex (inst s)) urls))"
    "same_frame s (s1\<lparr>rng := rng s\<rparr>)" "idx_inv s \<longrightarrow> idx_inv s1"
    "tails s1 = tails s" "\<forall>k. dirty (shards s1 k) = dirty (shards s k)"
    using l by force+
  show "lines = unlines (map (\<lambda>(c, u). row_line c u now ex (inst s) 0) (zip codes urls))"
    using l assms(3) by force
qed

lemma dinv_shorten_many:
  assumes d: "dinv sys P s" and e: "shorten_many sys now urls ttl s = Some (codes, s')" and n: "in_i64 now"
  shows "dinv sys P s'"
proof -
  let ?ex = "expiry now ttl"
  obtain lines s1 where l: "shorten_many_loop now ?ex urls [] [] s = Some (codes, lines, s1)"
    and s': "s' = links_delta (int (length codes)) (with_aof (\<lambda>a d. flush_if_full sys (push_raw lines a) d) s1)"
    using e by (auto simp: shorten_many_def split: option.splits)
  let ?ls = "map (\<lambda>(c, u). row_line c u now ?ex (inst s) 0) (zip codes urls)"
  have nm: "names_ok s" "mem_ok s" "log_ok sys s" using d by (auto simp: dinv_mem)
  then have p: "pfx s \<in> set ALPHABET" and ao: "the_aof s \<noteq> None" by (auto simp: names_ok_pfx log_ok_def)
  note f = shorten_many_loopD [OF l p ao]
  note i = names_okD [OF nm(1)]
  have safe: "list_all (\<lambda>(c, u). log_safe c) (zip codes urls)"
    using f(3) by (auto simp: list_all_iff dest: set_zip_leftD)
  have new: "idx s1 c = idx s c \<or> (\<exists>u. idx s1 c = Some (Entry u now ?ex (inst s)) \<and> c \<in> set codes)" for c
  proof (cases "map_of (zip codes (map (\<lambda>u. Entry u now ?ex (inst s)) urls)) c")
    case None
    then show ?thesis unfolding f(4) by (simp add: map_add_def)
  next
    case (Some x)
    from map_of_SomeD [OF this] have "c \<in> set codes" "x \<in> (\<lambda>u. Entry u now ?ex (inst s)) ` set urls"
      by (auto dest: set_zip_leftD set_zip_rightD)
    then show ?thesis using Some unfolding f(4) by (auto simp: map_add_def)
  qed
  have m: "mem_ok s1"
    unfolding mem_ok_def entries_ok_def codes_ok_def
  proof (intro conjI allI impI)
    show "idx_inv s1" using f(7) nm(2) by (simp add: mem_ok_def)
    show "entry_ok x" if "idx s1 c = Some x" for c x
      using new [of c] that mem_okD [OF nm(2), of c x] n i by (auto simp: entry_ok_Entry)
    show "log_safe c" if "idx s1 c \<noteq> None" for c
      using new [of c] that mem_okD [OF nm(2), of c] f(3) by auto
    show "\<forall>(c, d) \<in> set (dirty (shards s1 k)). log_safe c \<and> in_i64 d" for k
      using nm(2) f(9) by (simp add: mem_ok_def codes_ok_def)
  qed
  have sl: "same_log s s1"
    using same_log_frame [OF f(6)] by (simp add: same_log_def)
  have "dinv sys P (with_aof (\<lambda>a d. flush_if_full sys (push_raw lines a) d) s1)"
  proof (rule dinv_append [OF d sl m])
    have "list_all framed ?ls" using safe by (auto simp: list_all_iff framed_lines)
    then show "appends sys (\<lambda>a d. flush_if_full sys (push_raw lines a) d) ?ls"
      unfolding f(5) by (rule appends_intros(2))
    show "list_all (own_line (inst s)) ?ls" using safe n i by (auto simp: list_all_iff own_line_row)
    have z: "map (\<lambda>(c, u). (c, u, now, ?ex, inst s)) (zip codes urls) = zip codes (map (\<lambda>u. (u, now, ?ex, inst s)) urls)"
      by (simp add: zip_map2)
    have z': "zip codes (map (\<lambda>u. (u, now, ?ex, inst s)) urls) =
        map (\<lambda>(c, x). (c, core x)) (zip codes (map (\<lambda>u. Entry u now ?ex (inst s)) urls))"
      by (auto simp: zip_map2)
    have "fold abs_line ?ls (rows s) = rows s ++ map_of (zip codes (map (\<lambda>u. (u, now, ?ex, inst s)) urls))"
      using abs_lines_rows [OF safe n in_i64_expiry conjunct1 [OF i] conjunct2 [OF i], of now ttl "rows s"] f(1,2)
      by (simp add: z)
    also have "\<dots> = rows s1"
      unfolding z' map_of_map rows_def f(4) by (auto simp: map_add_def fun_eq_iff split: option.split)
    finally show "rows s1 c = fold abs_line ?ls (rows s) c" for c by simp
  qed
  then show ?thesis by (simp add: s')
qed

subsection \<open>Lines from siblings\<close>

definition safe_line :: "string \<Rightarrow> bool" where
  "safe_line l \<longleftrightarrow> (case parse_op l of None \<Rightarrow> True | Some p \<Rightarrow> op_x p = [] \<longrightarrow> op_h p = [] \<longrightarrow> log_safe (op_c p))"

lemma safe_lineI: "own_line i l \<Longrightarrow> safe_line l" "foreign_line P l \<Longrightarrow> safe_line l"
  by (auto simp: safe_line_def own_line_def foreign_line_def split: option.splits)

lemma safe_linesI: "list_all (own_line i) ls \<Longrightarrow> list_all safe_line ls" "list_all (foreign_line P) ls \<Longrightarrow> list_all safe_line ls"
  by (auto simp: list_all_iff safe_lineI)

definition dom_safe :: "(string \<rightharpoonup> 'a) \<Rightarrow> bool" where
  "dom_safe m \<longleftrightarrow> (\<forall>c \<in> dom m. log_safe c)"

lemma dom_safe_line: "dom_safe m \<Longrightarrow> safe_line l \<Longrightarrow> dom_safe (abs_line l m)"
  by (auto simp: dom_safe_def safe_line_def abs_line_def abs_op_def split: option.splits)

lemma dom_safe_lines: "dom_safe m \<Longrightarrow> list_all safe_line ls \<Longrightarrow> dom_safe (fold abs_line ls m)"
  by (induction ls arbitrary: m) (auto intro: dom_safe_line)

lemma dom_safe_rows: "dom_safe (rows s) \<longleftrightarrow> (\<forall>c. idx s c \<noteq> None \<longrightarrow> log_safe c)"
  by (simp add: dom_safe_def rows_def dom_def)

lemma mem_ok_lines:
  assumes "mem_ok s" and "idx_inv s'" and "entries_ok s'" and "\<And>k. dirty (shards s' k) = dirty (shards s k)"
    and "rows s' = fold abs_line ls (rows s)" and "list_all safe_line ls"
  shows "mem_ok s'"
proof -
  have "dom_safe (rows s)" using assms(1) by (simp add: mem_ok_def codes_ok_def dom_safe_rows)
  then have "dom_safe (rows s')" unfolding assms(5) by (rule dom_safe_lines [OF _ assms(6)])
  then show ?thesis using assms(1-4) by (simp add: mem_ok_def codes_ok_def dom_safe_rows)
qed

lemma dirty_basic [simp]:
  "dirty (shards (idx_put c e s) k) = dirty (shards s k)" "dirty (shards (idx_erase c s) k) = dirty (shards s k)"
  "dirty (shards (upd_stray h s) k) = dirty (shards s k)" "dirty (shards (set_readers rs s) k) = dirty (shards s k)"
  "dirty (shards (set_last_poll t s) k) = dirty (shards s k)"
  by (simp_all add: idx_put_def idx_erase_def upd_shard_def upd_stray_def set_readers_def set_last_poll_def)

lemma dirty_apply_line [simp]: "dirty (shards (apply_line l s) k) = dirty (shards s k)"
  by (simp add: apply_line_def apply_op_def Let_def split: option.split)

lemma dirty_apply_lines [simp]: "dirty (shards (fold apply_line ls s) k) = dirty (shards s k)"
  by (induction ls arbitrary: s) simp_all

lemma dirty_poll_locked [simp]: "dirty (shards (poll_locked f now s) k) = dirty (shards s k)"
  by (simp add: poll_locked_eq)

lemma dirty_tail_missed [simp]: "dirty (shards (tail_missed f now1 now2 c s) k) = dirty (shards s k)"
  by (simp add: tail_missed_def Let_def split: prod.split)

lemma dinv_tail_missed:
  assumes "dinv sys P s" and "list_all (foreign_line P) (missed_lines f now1 c s)"
  shows "dinv sys P (tail_missed f now1 now2 c s)"
proof (rule dinv_quiet [OF assms(1) same_log_frame [OF same_frame_tail_missed]])
  have m: "mem_ok s" using assms(1) by (simp add: dinv_mem)
  show "mem_ok (tail_missed f now1 now2 c s)"
    using m idx_inv_tail_missed entries_ok_tail_missed
    by (intro mem_ok_lines [OF m _ _ _ rows_tail_missed safe_linesI(2) [OF assms(2)]]) (auto simp: mem_ok_def)
  show "rows (tail_missed f now1 now2 c s) x = rows s x" if "P x" for x
    unfolding rows_tail_missed by (rule foreign_lines_id [OF assms(2) that])
qed

lemma rows_poll_locked: "rows (poll_locked f now s) = fold abs_line (poll_lines f (poll_set f s)) (rows s)"
  by (simp add: poll_locked_eq rows_apply_lines)

lemma dinv_poll:
  assumes "dinv sys P s" and "list_all (foreign_line P) (poll_lines (files (disk_of s)) (poll_set (files (disk_of s)) s))"
  shows "dinv sys P (poll_tails now s)"
proof (cases "the_aof s = None")
  case True
  then show ?thesis using assms(1) by (simp add: poll_tails_def)
next
  case False
  have m: "mem_ok s" using assms(1) by (simp add: dinv_mem)
  let ?s = "poll_locked (files (disk_of s)) now s"
  have "dinv sys P ?s"
  proof (rule dinv_quiet [OF assms(1) same_log_frame [OF same_frame_poll_locked]])
    show "mem_ok ?s" using m idx_inv_poll_locked entries_ok_poll_locked
      by (intro mem_ok_lines [OF m _ _ _ rows_poll_locked safe_linesI(2) [OF assms(2)]]) (auto simp: mem_ok_def)
    show "rows ?s x = rows s x" if "P x" for x
      unfolding rows_poll_locked by (rule foreign_lines_id [OF assms(2) that])
  qed
  then show ?thesis unfolding poll_tails_def using False by (simp only: if_False)
qed

subsection \<open>Resolving and flushing\<close>

lemma um_put_subset: "set (um_put k v m) \<subseteq> insert (k, v) (set m)"
  by (induction m) (auto simp: um_put_def split: if_splits)

lemma mem_ok_bump:
  assumes "mem_ok s" and "log_safe c"
  shows "mem_ok (bump_dirty c s)"
proof -
  have "\<forall>(x, d) \<in> set (dirty (shards (bump_dirty c s) k)). log_safe x \<and> in_i64 d" for k
  proof -
    let ?m = "dirty (shards s (shard_of c))"
    have "\<forall>(x, d) \<in> insert (c, add64 (um_get 0 ?m c) 1) (set ?m). log_safe x \<and> in_i64 d"
      using assms by (simp add: mem_ok_def codes_ok_def)
    then have "\<forall>(x, d) \<in> set (um_put c (add64 (um_get 0 ?m c) 1) ?m). log_safe x \<and> in_i64 d"
      using um_put_subset by fast
    then show ?thesis using assms(1) by (simp add: mem_ok_def codes_ok_def bump_dirty_def upd_shard_def)
  qed
  then show ?thesis
    using assms by (simp add: mem_ok_def idx_inv_bump_dirty entries_ok_def codes_ok_def)
qed

lemma same_log_count_hit: "same_log s (count_hit env c e s)"
  by (simp add: same_log_def count_hit_def bump_dirty_def upd_shard_def idx_put_def)

lemma dinv_count_hit:
  assumes "dinv sys P s" and "idx s c = Some e"
  shows "dinv sys P (count_hit env c e s)"
proof (rule dinv_quiet [OF assms(1) same_log_count_hit])
  have m: "mem_ok s" using assms(1) by (simp add: dinv_mem)
  show "mem_ok (count_hit env c e s)"
    using m mem_okD [OF m assms(2)] by (simp add: count_hit_def mem_ok_bump mem_ok_put)
qed (simp add: assms(2))

lemma dinv_resolve:
  assumes "dinv sys P s"
    and "idx s c = None \<Longrightarrow> list_all (foreign_line P) (missed_lines (files (disk_of s)) (clk 1) c s)"
  shows "dinv sys P (snd (resolve env clk c s))"
proof (cases "idx s c")
  case None
  have "dinv sys P (tail_missed (files (disk_of s)) (clk 1) (clk 2) c s)"
    by (rule dinv_tail_missed [OF assms(1) assms(2) [OF None]])
  then show ?thesis
    using None assms(1) dinv_count_hit by (auto simp: resolve_def Let_def split: option.split)
next
  case (Some e)
  then show ?thesis using assms(1) dinv_count_hit by (simp add: resolve_found)
qed

definition drained :: "proc \<Rightarrow> proc" where
  "drained s = s\<lparr>shards := (\<lambda>k. if k \<in> set [0..<NUM_SHARDS] then (shards s k)\<lparr>dirty := []\<rparr> else shards s k)\<rparr>"

lemma flush_locked_eq:
  "the_aof s \<noteq> None \<Longrightarrow> flush_locked sys s =
     with_aof (\<lambda>a d. aof_flush sys (push_raw (unlines (hit_lines s [0..<NUM_SHARDS])) a) d) (drained s)"
  by (cases "the_aof s") (simp_all add: flush_locked_def drain_eq drained_def)

lemma idx_drained [simp]: "idx (drained s) = idx s"
  by (simp add: idx_def drained_def fun_eq_iff)

lemma mem_ok_drained: "mem_ok s \<Longrightarrow> mem_ok (drained s)"
  unfolding mem_ok_def entries_ok_def codes_ok_def idx_drained
  by (simp add: idx_inv_def drained_def shard_inv_def)

lemma hit_lines_ok:
  assumes "mem_ok s" and "names_ok s"
  shows "list_all framed (hit_lines s ks)" "list_all (own_line (inst s)) (hit_lines s ks)"
    "fold abs_line (hit_lines s ks) m = m"
proof -
  have each: "\<exists>c d. l = hit_line c d (inst s) \<and> log_safe c \<and> in_i64 d" if "l \<in> set (hit_lines s ks)" for l
    using that assms(1) by (fastforce simp: hit_lines_def mem_ok_def codes_ok_def)
  then show "list_all framed (hit_lines s ks)" "list_all (own_line (inst s)) (hit_lines s ks)"
    using names_okD [OF assms(2)] by (fastforce simp: list_all_iff framed_lines own_line_hit)+
  have "\<forall>l \<in> set ls. \<exists>c d. l = hit_line c d (inst s) \<and> log_safe c \<and> in_i64 d \<Longrightarrow> fold abs_line ls m = m" for ls
    using names_okD [OF assms(2)] by (induction ls) (auto simp: abs_line_hit)
  then show "fold abs_line (hit_lines s ks) m = m" using each by blast
qed

lemma dinv_flush:
  assumes "dinv sys P s"
  shows "dinv sys P (flush_locked sys s)"
proof -
  have d: "mem_ok s" "names_ok s" "the_aof s \<noteq> None" using assms by (auto simp: dinv_mem log_ok_def)
  note h = hit_lines_ok [OF d(1,2), of "[0..<NUM_SHARDS]"]
  show ?thesis unfolding flush_locked_eq [OF d(3)]
  proof (rule dinv_append [OF assms _ mem_ok_drained [OF d(1)] appends_intros(3) [OF h(1)] h(2)])
    show "same_log s (drained s)" by (simp add: same_log_def drained_def)
    show "rows (drained s) c = fold abs_line (hit_lines s [0..<NUM_SHARDS]) (rows s) c" for c
      unfolding h(3) by (simp add: rows_def)
  qed
qed

lemma dinv_sync: "dinv sys P s \<Longrightarrow> dinv sys P (with_aof (aof_sync sys) s)"
  by (rule dinv_append [OF _ _ _ appends_sync]) (simp_all add: same_log_def dinv_mem)

text \<open>After a flush the buffer is empty, so the file alone holds the lines.\<close>

lemma flushed:
  assumes "dinv sys P s" and "the_aof (flush_locked sys s) = Some a"
  shows "aof_buf a = []"
proof -
  obtain b where b: "the_aof s = Some b" "log_inv sys b (disk_of s)" using assms(1) by (auto simp: dinv_def log_ok_def)
  let ?b = "push_raw (unlines (hit_lines s [0..<NUM_SHARDS])) b"
  have dr: "the_aof (drained s) = Some b" "disk_of (drained s) = disk_of s" using b(1) by (simp_all add: drained_def)
  have "flush_locked sys s = with_aof (\<lambda>a d. aof_flush sys (push_raw (unlines (hit_lines s [0..<NUM_SHARDS])) a) d) (drained s)"
    using b(1) by (simp add: flush_locked_eq)
  then have "a = fst (aof_flush sys ?b (disk_of s))"
    using assms(2) by (simp add: with_aof_def dr split: prod.splits)
  then show ?thesis using aof_flush_log(3) [OF al.inv_push_raw [OF b(2)] surjective_pairing] by simp
qed

subsection \<open>Compaction\<close>

lemma write_snap_ok:
  assumes "os_ok sys" and "um_inv (files d)"
  shows "um_find (files (write_snap sys p bytes d)) p = Some bytes" "um_inv (files (write_snap sys p bytes d))"
    "q \<noteq> p \<Longrightarrow> q \<noteq> p @ ''.tmp'' \<Longrightarrow> um_find (files (write_snap sys p bytes d)) q = um_find (files d) q"
proof -
  let ?t = "p @ ''.tmp''"
  let ?g = "um_put ?t [] (files d)"
  let ?f = "fst (flush_loop sys ?g ?t (Offset 0) bytes)"
  have w: "write_ok sys" "os_creat sys (files d) ?t" using assms(1) by (simp_all add: os_ok_def)
  have f: "um_inv ?f \<and> (\<forall>x. um_find ?f x = (if x = ?t then Some bytes else um_find (files d) x))"
  proof (cases "bytes = []")
    case True
    have "?f = ?g" by (subst flush_loop.simps) (simp add: True)
    then show ?thesis using assms(2) True by (simp add: um_simps um_inv_put)
  next
    case False
    have "at_end (Offset 0) (file_content ?g ?t)" by (simp add: at_end_def)
    from flush_loop_ok [OF w(1) this False] assms(2) show ?thesis
      by (auto simp: um_inv_put um_find_put_at)
  qed
  then have c: "file_content ?f ?t = bytes" by (simp add: file_content_def um_get_def)
  have s: "files (write_snap sys p bytes d) = um_put p bytes (um_erase ?t ?f)"
    using w(2) c by (simp add: write_snap_def Let_def fsync_file_def)
  show "um_find (files (write_snap sys p bytes d)) p = Some bytes" unfolding s by (simp add: um_simps)
  show "um_inv (files (write_snap sys p bytes d))" unfolding s using f by (simp add: um_inv_put um_inv_erase)
  show "q \<noteq> p \<Longrightarrow> q \<noteq> ?t \<Longrightarrow> um_find (files (write_snap sys p bytes d)) q = um_find (files d) q"
    unfolding s using f by (simp add: um_simps)
qed

lemma snap_lines_scan:
  "snap_lines s = map (\<lambda>(c, e). row_line c (e_u e) (e_a e) (e_e e) (e_i e) (e_oh e)) (scan (\<lambda>(c, e). e_i e = inst s) s)"
  by (simp add: snap_lines_def scan_def map_concat comp_def)

lemma abs_lines_entries:
  assumes "list_all (\<lambda>(c, e). log_safe c \<and> entry_ok e \<and> wrap32 (e_i e) = e_i e) kvs" and "distinct (map fst kvs)"
  shows "fold abs_line (map (\<lambda>(c, e). row_line c (e_u e) (e_a e) (e_e e) (e_i e) (e_oh e)) kvs) m x =
    (case map_of kvs x of Some e \<Rightarrow> Some (core e) | None \<Rightarrow> m x)"
  using assms
proof (induction kvs arbitrary: m)
  case (Cons p kvs)
  obtain c e where p: "p = (c, e)" by force
  have l: "abs_line (row_line c (e_u e) (e_a e) (e_e e) (e_i e) (e_oh e)) m = m(c \<mapsto> core e)"
    using Cons.prems(1) by (simp add: p abs_line_row entry_ok_def core_def)
  have "map_of kvs c = None" using Cons.prems(2) by (simp add: p map_of_eq_None_iff)
  then show ?case using Cons by (auto simp: p l split: option.split)
qed simp

lemma snap_lines_ok:
  assumes "mem_ok s" and "names_ok s"
  shows "list_all framed (snap_lines s)" "list_all (own_line (inst s)) (snap_lines s)"
    "fold abs_line (snap_lines s) Map.empty c =
       (case idx s c of Some e \<Rightarrow> if e_i e = inst s then Some (core e) else None | None \<Rightarrow> None)"
proof -
  have inv: "idx_inv s" using assms(1) by (simp add: mem_ok_def)
  note i = names_okD [OF assms(2)]
  let ?kvs = "scan (\<lambda>(c, e). e_i e = inst s) s"
  have each: "log_safe c \<and> entry_ok e \<and> e_i e = inst s" if "(c, e) \<in> set ?kvs" for c e
    using that mem_okD [OF assms(1), of c e] unfolding set_scan [OF inv] by simp
  show "list_all framed (snap_lines s)" "list_all (own_line (inst s)) (snap_lines s)"
    using each i by (auto simp: snap_lines_scan list_all_iff framed_lines own_line_row entry_ok_def)
  have "list_all (\<lambda>(c, e). log_safe c \<and> entry_ok e \<and> wrap32 (e_i e) = e_i e) ?kvs"
    using each i by (auto simp: list_all_iff)
  then show "fold abs_line (snap_lines s) Map.empty c =
      (case idx s c of Some e \<Rightarrow> if e_i e = inst s then Some (core e) else None | None \<Rightarrow> None)"
    unfolding snap_lines_scan by (simp add: abs_lines_entries distinct_scan [OF inv] map_of_scan [OF inv] split: option.split)
qed

lemma own_entry:
  assumes "dinv sys P s" and "P c" and "idx s c = Some e"
  shows "e_i e = inst s"
proof -
  have "list_all (own_line (inst s)) (disk_lines s)" "persisted s c = Some (core e)"
    using assms by (auto simp: dinv_def rows_def)
  then show ?thesis using own_lines_inst [of "inst s" "disk_lines s" Map.empty c]
    by (simp add: persisted_def core_def)
qed

lemma snap_tmp_neq: "own_name s = log_name (inst s) \<Longrightarrow> own_snap s @ ''.tmp'' \<noteq> own_log s"
proof
  assume "own_name s = log_name (inst s)" and "own_snap s @ ''.tmp'' = own_log s"
  then have "rev (snap_name (inst s) @ ''.tmp'') = rev (log_name (inst s))" by (simp add: own_snap_def own_log_def)
  then show False by (simp add: snap_name_def log_name_def)
qed

lemma unlines_concat: "concat (map (\<lambda>l. l @ [NL]) ls) = unlines ls"
  by (simp add: unlines_def)

text \<open>What truncation leaves of the log when nothing is buffered: an empty file, opened at its start.\<close>

lemma dinv_truncate:
  assumes d: "dinv sys P s" and a: "the_aof s = Some a" "aof_buf a = []"
  defines "s' \<equiv> with_aof (aof_truncate sys) (s\<lparr>disk_of := write_snap sys (own_snap s) (unlines (snap_lines s)) (disk_of s)\<rparr>)"
  shows "dinv sys P s'"
proof -
  let ?d = "write_snap sys (own_snap s) (unlines (snap_lines s)) (disk_of s)"
  let ?a = "a\<lparr>aof_fd := Some (Offset 0)\<rparr>" and ?e = "?d\<lparr>files := um_put (own_log s) [] (files ?d)\<rparr>"
  have o: "os_ok sys" "names_ok s" "mem_ok s" "log_ok sys s" using d by (auto simp: dinv_mem)
  have l: "log_inv sys a (disk_of s)" "aof_path a = own_log s" using o(4) a by (auto simp: log_ok_def)
  have n: "own_name s = log_name (inst s)" using o(2) by (simp add: names_ok_def)
  note w = write_snap_ok [OF o(1), of "disk_of s" "own_snap s" "unlines (snap_lines s)"]
  have u: "um_inv (files (disk_of s))" using l by (simp add: log_inv_def)
  have "aof_truncate sys a ?d = (?a, ?e)"
    using o(1) a(2) l by (simp add: aof_truncate_def aof_flush_def os_ok_def log_inv_def split: option.split)
  then have s': "s' = s\<lparr>the_aof := Some ?a, disk_of := ?e\<rparr>" by (simp add: s'_def with_aof_def a(1))
  note sl = snap_lines_ok [OF o(3,2)]
  have li: "log_inv sys ?a ?e" using o(1) w(2) [OF u] l(2)
    by (simp add: log_inv_def os_ok_def um_inv_put um_count_def um_simps at_end_def)
  have lb: "log_bytes ?a ?e = []" using a(2) l(2) by (simp add: log_bytes_def)
  have sb: "snap_bytes s' = unlines (snap_lines s)"
    using w(1) [OF u] log_snap_neq [OF n]
    by (simp add: snap_bytes_def s' own_snap_def [of "the_aof_update _ _"] file_content_def um_get_def um_simps)
      (simp add: own_snap_def)
  have dl: "disk_lines s' = snap_lines s"
    using sl(1) lb unfolding disk_lines_def sb log_lines_def by (simp add: whole_lines_unlines s')
  have "log_ok sys s'"
    using sl(1) li lb l(2) unfolding log_ok_def sb by (simp add: complete_unlines s' own_log_def)
  moreover have "names_ok s'" "inst s' = inst s" using o(2) by (simp_all add: names_ok_def s')
  moreover have "mem_ok s'" using o(3) mem_ok_cong [of s' s] by (simp add: s')
  moreover have "persisted s' c = rows s' c" if "P c" for c
  proof -
    have r: "rows s' c = rows s c" by (simp add: rows_def s')
    show ?thesis using own_entry [OF d that] unfolding r
      by (cases "idx s c") (simp_all add: persisted_def dl sl(3) rows_at)
  qed
  ultimately show ?thesis using o(1) sl(2) unfolding dinv_mem dl by simp
qed

lemma flush_locked_fields [simp]:
  "dir (flush_locked sys s) = dir s" "inst (flush_locked sys s) = inst s" "own_name (flush_locked sys s) = own_name s"
  "(the_aof (flush_locked sys s) = None) = (the_aof s = None)" "rows (flush_locked sys s) = rows s"
proof -
  have "flush_locked sys s = s \<and> the_aof s = None \<or> (\<exists>g. flush_locked sys s = with_aof g (drained s))"
    using flush_locked_eq [of s sys] by (cases "the_aof s") (auto simp: flush_locked_def)
  then show "dir (flush_locked sys s) = dir s" "inst (flush_locked sys s) = inst s"
    "own_name (flush_locked sys s) = own_name s" "(the_aof (flush_locked sys s) = None) = (the_aof s = None)"
    "rows (flush_locked sys s) = rows s"
    by (auto simp: drained_def) (auto simp: rows_def idx_def fun_eq_iff)
qed

lemma dinv_compact:
  assumes "dinv sys P s"
  shows "dinv sys P (compact sys s)"
proof -
  let ?s = "flush_locked sys s"
  have d: "dinv sys P ?s" using assms by (rule dinv_flush)
  then obtain a where a: "the_aof ?s = Some a" by (auto simp: dinv_def log_ok_def)
  have "the_aof s \<noteq> None" using assms by (auto simp: dinv_def log_ok_def)
  then have "compact sys s =
      with_aof (aof_truncate sys) (?s\<lparr>disk_of := write_snap sys (own_snap ?s) (unlines (snap_lines ?s)) (disk_of ?s)\<rparr>)"
    by (cases "the_aof s") (simp_all add: compact_def Let_def own_snap_def unlines_concat)
  then show ?thesis using dinv_truncate [OF d a flushed [OF assms a]] by simp
qed

section \<open>Opening\<close>

definition own_files_ok :: "fs \<Rightarrow> string \<Rightarrow> int \<Rightarrow> bool" where
  "own_files_ok f d i \<longleftrightarrow>
     (let snap = file_content f (d @ ''/'' @ snap_name i); log = file_content f (d @ ''/'' @ log_name i)
      in complete snap \<and> complete log \<and> list_all (own_line i) (whole_lines snap @ whole_lines log))"

definition sibling_lines :: "fs \<Rightarrow> string \<Rightarrow> string list \<Rightarrow> string list" where
  "sibling_lines f d names =
     concat (map (\<lambda>n. whole_lines (file_content f (d @ ''/'' @ take (length n - 4) n @ ''.snap''))) names)"

lemma replay_file_eq: "replay_file f p cb s = fold cb (whole_lines (file_content f p)) s"
  by (simp add: replay_file_def file_content_def um_get_def whole_lines_def split: option.split)

lemma boot_sibling_step:
  fixes s :: proc
  shows "same_frame s (boot_sibling f n s)"
    "rows (boot_sibling f n s) =
       fold abs_line (whole_lines (file_content f (dir s @ ''/'' @ take (length n - 4) n @ ''.snap''))) (rows s)"
    "idx_inv s \<Longrightarrow> idx_inv (boot_sibling f n s)" "entries_ok s \<Longrightarrow> entries_ok (boot_sibling f n s)"
    "dirty (shards (boot_sibling f n s) k) = dirty (shards s k)"
proof -
  let ?ls = "whole_lines (file_content f (dir s @ ''/'' @ take (length n - 4) n @ ''.snap''))"
  let ?s = "fold apply_line ?ls s"
  have b: "boot_sibling f n s = set_readers (um_emplace n (TailReader (dir s @ ''/'' @ n)) (readers (tails ?s))) ?s"
    using same_frameD [OF same_frame_apply_lines [of s ?ls]] by (simp add: boot_sibling_def Let_def replay_file_eq)
  show "same_frame s (boot_sibling f n s)" "rows (boot_sibling f n s) = fold abs_line ?ls (rows s)"
    "dirty (shards (boot_sibling f n s) k) = dirty (shards s k)"
    unfolding b by (simp_all add: rows_apply_lines)
  show "entries_ok s \<Longrightarrow> entries_ok (boot_sibling f n s)" unfolding b by (simp add: entries_ok_apply_lines)
  show "idx_inv (boot_sibling f n s)" if "idx_inv s"
  proof -
    have "idx_inv ?s" using that by (rule idx_inv_apply_lines)
    then show ?thesis unfolding b by (intro idx_inv_set_readers um_inv_emplace) (auto simp: idx_inv_def)
  qed
qed

lemma boot_siblings:
  fixes s :: proc
  shows "same_frame s (fold (boot_sibling f) ns s) \<and>
    rows (fold (boot_sibling f) ns s) = fold abs_line (sibling_lines f (dir s) ns) (rows s) \<and>
    (idx_inv s \<longrightarrow> idx_inv (fold (boot_sibling f) ns s)) \<and>
    (entries_ok s \<longrightarrow> entries_ok (fold (boot_sibling f) ns s)) \<and>
    dirty (shards (fold (boot_sibling f) ns s) k) = dirty (shards s k)"
proof (induction ns arbitrary: s)
  case Nil
  then show ?case by (simp add: sibling_lines_def)
next
  case (Cons n ns)
  let ?s = "boot_sibling f n s"
  note b = boot_sibling_step [where f = f and n = n and s = s]
  have "dir ?s = dir s" using same_frameD [OF b(1)] by simp
  then show ?case using Cons.IH [of ?s] b same_frame_trans [OF b(1)] by (simp add: sibling_lines_def)
qed

text \<open>A fresh engine replays its snapshot, its log and the snapshots of its siblings, in this order.\<close>

lemma boot_replay_eq:
  fixes s :: proc
  defines "f \<equiv> files (disk_of s)"
  assumes "own_name s = log_name (inst s)"
  shows "same_frame s (boot_replay s) \<and>
    rows (boot_replay s) = fold abs_line (sibling_lines f (dir s) (shard_files f (dir s) (own_name s)))
      (fold abs_line (whole_lines (file_content f (own_snap s)) @ whole_lines (file_content f (own_log s))) (rows s)) \<and>
    (idx_inv s \<longrightarrow> idx_inv (boot_replay s)) \<and> (entries_ok s \<longrightarrow> entries_ok (boot_replay s)) \<and>
    dirty (shards (boot_replay s) k) = dirty (shards s k)"
proof -
  let ?ls = "whole_lines (file_content f (own_snap s)) @ whole_lines (file_content f (own_log s))"
  let ?s = "fold apply_line ?ls s"
  let ?s1 = "fold apply_line (whole_lines (file_content f (own_snap s))) s"
  have sf: "same_frame s ?s" "same_frame s ?s1" by (rule same_frame_apply_lines)+
  have "boot_replay s = fold (boot_sibling f) (shard_files f (dir s) (own_name s)) ?s"
    using same_frameD [OF sf(1)] same_frameD [OF sf(2)]
    by (simp add: boot_replay_def Let_def replay_file_eq f_def [symmetric] own_snap_def own_log_def)
  then show ?thesis
    using boot_siblings [where s = ?s and f = f and ns = "shard_files f (dir s) (own_name s)" and k = k]
      same_frame_trans [OF sf(1)] same_frameD [OF sf(1)] rows_apply_lines [of ?ls s]
      idx_inv_apply_lines [of s ?ls] entries_ok_apply_lines [of s ?ls]
    by simp
qed

definition booting :: "string \<Rightarrow> int \<Rightarrow> string \<Rightarrow> aof \<Rightarrow> disk \<Rightarrow> 64 word \<Rightarrow> i64 \<Rightarrow> proc" where
  "booting d i lock a disk st n =
     (inner0 disk st n)\<lparr>inst := i, pfx := ALPHABET ! nat i, dir := d, own_name := log_name i, lock_path := lock,
       the_aof := Some a\<rparr>"

lemma open_storeD:
  assumes "open_store sys env d i disk st n = Inr s" and "d \<noteq> '':memory:''"
  obtains id lock a disk' where "s = start_threads env (boot_replay (booting d id lock a disk' st n))"
    "0 \<le> id" "id < 62" "a = \<lparr>aof_buf = [], aof_fd = Some Append, aof_path = d @ ''/'' @ log_name id\<rparr>"
    "um_count (files disk') (d @ ''/'' @ log_name id)" "0 \<le> i \<Longrightarrow> id = i"
    "0 \<le> i \<Longrightarrow> disk' = disk\<lparr>files := um_emplace (d @ ''/'' @ log_name i) [] (files disk)\<rparr>"
proof -
  obtain id lock f where c: "(if 0 \<le> i then ((i, []), files disk) else claim_instance sys d (files disk)) = ((id, lock), f)"
    by (cases "(if 0 \<le> i then ((i, []), files disk) else claim_instance sys d (files disk))") (metis surj_pair)
  let ?disk = "disk\<lparr>files := um_emplace (d @ ''/'' @ log_name id) [] f\<rparr>"
  let ?a = "\<lparr>aof_buf = [], aof_fd = Some Append, aof_path = d @ ''/'' @ log_name id\<rparr>"
  have r: "0 \<le> id" "id < 62" and cr: "os_creat sys f (d @ ''/'' @ log_name id)"
    and s: "s = start_threads env (boot_replay (booting d id lock ?a ?disk st n))"
    using assms c by (auto simp: open_store_def open_at_def aof0_def booting_def inner0_def MAX_INSTANCES_def Let_def
        split: if_splits)
  have "um_count (files ?disk) (d @ ''/'' @ log_name id)" by (simp add: um_count_iff um_emplace_keys)
  moreover have "0 \<le> i \<Longrightarrow> id = i \<and> f = files disk" using c by simp
  ultimately show ?thesis using that [OF s r refl] by simp
qed

lemma start_threads_fields [simp]:
  "rows (start_threads env s) = rows s" "shards (start_threads env s) = shards s" "tails (start_threads env s) = tails s"
  "the_aof (start_threads env s) = the_aof s" "disk_of (start_threads env s) = disk_of s" "dir (start_threads env s) = dir s"
  "own_name (start_threads env s) = own_name s" "inst (start_threads env s) = inst s" "pfx (start_threads env s) = pfx s"
  by (simp_all add: start_threads_def rows_def idx_def fun_eq_iff)

lemma booting_fields [simp]:
  "rows (booting d i lock a disk st n) = Map.empty" "the_aof (booting d i lock a disk st n) = Some a"
  "disk_of (booting d i lock a disk st n) = disk" "dir (booting d i lock a disk st n) = d"
  "own_name (booting d i lock a disk st n) = log_name i" "inst (booting d i lock a disk st n) = i"
  "pfx (booting d i lock a disk st n) = ALPHABET ! nat i" "dirty (shards (booting d i lock a disk st n) k) = []"
  "own_snap (booting d i lock a disk st n) = d @ ''/'' @ snap_name i"
  "own_log (booting d i lock a disk st n) = d @ ''/'' @ log_name i"
  by (simp_all add: booting_def inner0_def rows_def idx_def fun_eq_iff own_snap_def own_log_def)

lemma booting_mem: "mem_ok (booting d i lock a disk st n)"
  by (simp add: mem_ok_def idx_inv_def entries_ok_def codes_ok_def idx_def booting_def inner0_def shard_inv_def)

lemma opened_rows:
  assumes "open_store sys env d i disk st n = Inr s" and "d \<noteq> '':memory:''"
  defines "f \<equiv> files (disk_of s)"
  shows "rows s = fold abs_line (sibling_lines f d (shard_files f d (log_name (inst s))))
      (fold abs_line (whole_lines (file_content f (d @ ''/'' @ snap_name (inst s))) @
                      whole_lines (file_content f (d @ ''/'' @ log_name (inst s)))) Map.empty)"
    "names_ok s" "dir s = d"
    "the_aof s = Some \<lparr>aof_buf = [], aof_fd = Some Append, aof_path = d @ ''/'' @ log_name (inst s)\<rparr>"
    "um_count f (d @ ''/'' @ log_name (inst s))"
    "list_all safe_line (sibling_lines f d (shard_files f d (log_name (inst s)))) \<Longrightarrow>
     list_all safe_line (whole_lines (file_content f (d @ ''/'' @ snap_name (inst s))) @
                      whole_lines (file_content f (d @ ''/'' @ log_name (inst s)))) \<Longrightarrow> mem_ok s"
proof -
  obtain id lock a disk' where s: "s = start_threads env (boot_replay (booting d id lock a disk' st n))"
    and r: "0 \<le> id" "id < 62" and a: "a = \<lparr>aof_buf = [], aof_fd = Some Append, aof_path = d @ ''/'' @ log_name id\<rparr>"
    and c: "um_count (files disk') (d @ ''/'' @ log_name id)"
    using open_storeD [OF assms(1,2)] by metis
  let ?b = "booting d id lock a disk' st n"
  note b = boot_replay_eq [of ?b, simplified]
  have fr: "same_frame ?b (boot_replay ?b)" using b by blast
  have i: "inst s = id" "dir s = d" "the_aof s = Some a" "own_name s = log_name id" "pfx s = ALPHABET ! nat id"
    using same_frameD [OF fr] by (simp_all add: s)
  have ff: "f = files disk'" using same_frame_proc [OF fr] by (simp add: f_def s)
  show rw: "rows s = fold abs_line (sibling_lines f d (shard_files f d (log_name (inst s))))
      (fold abs_line (whole_lines (file_content f (d @ ''/'' @ snap_name (inst s))) @
                      whole_lines (file_content f (d @ ''/'' @ log_name (inst s)))) Map.empty)"
    using b by (simp add: s [symmetric] i ff) (simp add: s)
  show "names_ok s" using r i by (simp add: names_ok_def)
  show "dir s = d" "the_aof s = Some \<lparr>aof_buf = [], aof_fd = Some Append, aof_path = d @ ''/'' @ log_name (inst s)\<rparr>"
    "um_count f (d @ ''/'' @ log_name (inst s))"
    using i a c ff by simp_all
  assume ls: "list_all safe_line (sibling_lines f d (shard_files f d (log_name (inst s))))"
    "list_all safe_line (whole_lines (file_content f (d @ ''/'' @ snap_name (inst s))) @
                      whole_lines (file_content f (d @ ''/'' @ log_name (inst s))))"
  have "mem_ok (boot_replay ?b)"
  proof (rule mem_ok_lines [OF booting_mem])
    show "idx_inv (boot_replay ?b)" "entries_ok (boot_replay ?b)"
      using b booting_mem [of d id lock a disk' st n] by (simp_all add: mem_ok_def)
    show "dirty (shards (boot_replay ?b) k) = dirty (shards ?b k)" for k
      using boot_replay_eq [of ?b k] by simp
    show "rows (boot_replay ?b) = fold abs_line ((whole_lines (file_content f (d @ ''/'' @ snap_name (inst s))) @
        whole_lines (file_content f (d @ ''/'' @ log_name (inst s)))) @
        sibling_lines f d (shard_files f d (log_name (inst s)))) (rows ?b)"
      using rw by (simp add: s)
  qed (use ls in simp)
  then show "mem_ok s" using mem_ok_cong [of s "boot_replay ?b"] by (simp add: s)
qed

lemma opened_disk:
  assumes "open_store sys env d i disk st n = Inr s" and "d \<noteq> '':memory:''" and "0 \<le> i"
  shows "inst s = i" "disk_of s = disk\<lparr>files := um_emplace (d @ ''/'' @ log_name i) [] (files disk)\<rparr>"
proof -
  obtain lock a where s: "s = start_threads env (boot_replay (booting d i lock a
      (disk\<lparr>files := um_emplace (d @ ''/'' @ log_name i) [] (files disk)\<rparr>) st n))"
    using open_storeD [OF assms(1,2)] assms(3) by metis
  let ?b = "booting d i lock a (disk\<lparr>files := um_emplace (d @ ''/'' @ log_name i) [] (files disk)\<rparr>) st n"
  have "same_frame ?b (boot_replay ?b)" by (rule conjunct1 [OF boot_replay_eq]) simp
  from same_frameD [OF this] same_frame_proc [OF this]
  show "inst s = i" "disk_of s = disk\<lparr>files := um_emplace (d @ ''/'' @ log_name i) [] (files disk)\<rparr>"
    by (simp_all add: s)
qed

lemma open_store_total:
  assumes "os_ok sys" and "d \<noteq> '':memory:''" and "0 \<le> i" and "i < 62"
  shows "\<exists>s. open_store sys env d i disk st n = Inr s"
  using assms by (simp add: open_store_def open_at_def os_ok_def MAX_INSTANCES_def Let_def)

lemma dinv_open:
  assumes o: "open_store sys env d i disk st n = Inr s" and m: "d \<noteq> '':memory:''" and sys: "os_ok sys"
    and u: "um_inv (files (disk_of s))" and own: "own_files_ok (files (disk_of s)) d (inst s)"
    and fl: "list_all (foreign_line P)
      (sibling_lines (files (disk_of s)) d (shard_files (files (disk_of s)) d (log_name (inst s))))"
  shows "dinv sys P s"
proof -
  note r = opened_rows [OF o m]
  let ?f = "files (disk_of s)"
  have paths: "own_log s = d @ ''/'' @ log_name (inst s)" "own_snap s = d @ ''/'' @ snap_name (inst s)"
    using r(2,3) by (simp_all add: own_log_def own_snap_def names_ok_def)
  have w: "complete (file_content ?f (own_snap s))" "complete (file_content ?f (own_log s))"
    "list_all (own_line (inst s)) (whole_lines (file_content ?f (own_snap s)) @ whole_lines (file_content ?f (own_log s)))"
    using own unfolding own_files_ok_def Let_def paths by simp_all
  have lb: "log_bytes \<lparr>aof_buf = [], aof_fd = Some Append, aof_path = own_log s\<rparr> (disk_of s) = file_content ?f (own_log s)"
    by (simp add: log_bytes_def)
  have dl: "disk_lines s = whole_lines (file_content ?f (own_snap s)) @ whole_lines (file_content ?f (own_log s))"
    using r(4) lb by (simp add: disk_lines_def snap_bytes_def log_lines_def paths)
  have "log_ok sys s"
    using r(4,5) w(1,2) lb sys u
    by (simp add: log_ok_def snap_bytes_def paths log_inv_def os_ok_def at_end_def)
  moreover have "mem_ok s"
    using r(6) safe_linesI(2) [OF fl] safe_linesI(1) [OF w(3)] unfolding paths by blast
  moreover have "persisted s c = rows s c" if "P c" for c
    unfolding persisted_def dl r(1) paths foreign_lines_id [OF fl that] ..
  ultimately show ?thesis using r(2) sys w(3) unfolding dinv_mem dl by blast
qed

section \<open>Runs of an open engine\<close>

text \<open>
  Every call of the interface with any arguments and clock, the work of the three background
  threads, and whatever other processes do to files that are not this engine's own.
\<close>

inductive step :: "os \<Rightarrow> environ \<Rightarrow> (string \<Rightarrow> bool) \<Rightarrow> proc \<Rightarrow> proc \<Rightarrow> bool"
  for sys env P where
  shorten: "step sys env P s s'"
    if "shorten sys now url al ttl s = Some (r, s')" and "in_i64 now" and "\<And>x. al = Some x \<Longrightarrow> log_safe x"
| shorten_many: "step sys env P s s'"
    if "shorten_many sys now urls ttl s = Some (codes, s')" and "in_i64 now"
| resolve: "step sys env P s (snd (resolve env clk c s))"
    if "idx s c = None \<Longrightarrow> list_all (foreign_line P) (missed_lines (files (disk_of s)) (clk 1) c s)"
| update: "step sys env P s (snd (update now c url ttl has_ttl s))"
| remove: "step sys env P s (snd (remove c s))"
| flush: "step sys env P s (flush_public sys s)"
| sync: "step sys env P s (with_aof (aof_sync sys) s)"
| poll: "step sys env P s (poll_tails now s)"
    if "list_all (foreign_line P) (poll_lines (files (disk_of s)) (poll_set (files (disk_of s)) s))"
| compact: "step sys env P s (compact sys s)"
| elsewhere: "step sys env P s (s\<lparr>disk_of := d'\<rparr>)"
    if "um_inv (files d')" and "um_find (files d') (own_log s) = um_find (files (disk_of s)) (own_log s)"
      and "um_find (files d') (own_snap s) = um_find (files (disk_of s)) (own_snap s)"

inductive reach :: "os \<Rightarrow> environ \<Rightarrow> (string \<Rightarrow> bool) \<Rightarrow> proc \<Rightarrow> bool"
  for sys env P where
  opened: "reach sys env P s"
    if "open_store sys env d i disk st n = Inr s" and "d \<noteq> '':memory:''" and "um_inv (files (disk_of s))"
      and "own_files_ok (files (disk_of s)) d (inst s)"
      and "list_all (foreign_line P)
        (sibling_lines (files (disk_of s)) d (shard_files (files (disk_of s)) d (log_name (inst s))))"
| stepped: "reach sys env P s'" if "reach sys env P s" and "step sys env P s s'"

lemma dinv_elsewhere:
  assumes "dinv sys P s" and "um_inv (files d')"
    and "um_find (files d') (own_log s) = um_find (files (disk_of s)) (own_log s)"
    and "um_find (files d') (own_snap s) = um_find (files (disk_of s)) (own_snap s)"
  shows "dinv sys P (s\<lparr>disk_of := d'\<rparr>)"
proof -
  let ?s = "s\<lparr>disk_of := d'\<rparr>"
  have fc: "file_content (files d') (own_log s) = file_content (files (disk_of s)) (own_log s)"
    "file_content (files d') (own_snap s) = file_content (files (disk_of s)) (own_snap s)"
    using assms(3,4) by (simp_all add: file_content_def um_get_def)
  obtain a where a: "the_aof s = Some a" "log_inv sys a (disk_of s)" "aof_path a = own_log s"
    "complete (log_bytes a (disk_of s))" "complete (snap_bytes s)" using assms(1) by (auto simp: dinv_def log_ok_def)
  have b: "log_bytes a d' = log_bytes a (disk_of s)" "snap_bytes ?s = snap_bytes s"
    using fc a(3) by (simp_all add: log_bytes_def snap_bytes_def own_snap_def)
  have "log_inv sys a d'" using a(2,3) assms(2,3) fc by (simp add: log_inv_def um_count_def)
  then have "log_ok sys ?s" using a b by (simp add: log_ok_def own_log_def)
  moreover have dl: "disk_lines ?s = disk_lines s" using a(1) b by (simp add: disk_lines_def log_lines_def)
  moreover have "names_ok ?s = names_ok s" "persisted ?s = persisted s"
    using dl by (simp_all add: names_ok_def persisted_def)
  moreover have "mem_ok ?s = mem_ok s" by (rule mem_ok_cong) simp_all
  ultimately show ?thesis using assms(1) unfolding dinv_mem by simp
qed

lemma dinv_step: "step sys env P s s' \<Longrightarrow> dinv sys P s \<Longrightarrow> dinv sys P s'"
proof (induction rule: step.induct)
  case (shorten now url al ttl s r s')
  then show ?case by (blast intro: dinv_shorten)
next
  case (shorten_many now urls ttl s codes s')
  then show ?case by (blast intro: dinv_shorten_many)
next
  case (resolve s c clk)
  show ?case using dinv_resolve [where s = s and c = c and clk = clk and P = P] resolve.prems resolve.hyps by simp
next
  case (elsewhere d' s)
  then show ?case by (blast intro: dinv_elsewhere)
qed (auto simp: flush_public_def intro: dinv_update dinv_remove dinv_flush dinv_sync dinv_poll dinv_compact)

lemma dinv_reach: "reach sys env P s \<Longrightarrow> os_ok sys \<Longrightarrow> dinv sys P s"
  by (induction rule: reach.induct) (auto intro: dinv_open dinv_step)

text \<open>The files of an engine that has flushed hold exactly its own lines.\<close>

lemma flushed_files:
  assumes d: "dinv sys P s"
  defines "f \<equiv> files (disk_of (flush_locked sys s))"
  shows "whole_lines (file_content f (own_snap s)) @ whole_lines (file_content f (own_log s)) = disk_lines (flush_locked sys s)"
    "own_files_ok f (dir s) (inst s)" "um_inv f" "um_count f (own_log s)"
proof -
  let ?s = "flush_locked sys s"
  have e: "dinv sys P ?s" using d by (rule dinv_flush)
  then obtain a where a: "the_aof ?s = Some a" "log_inv sys a (disk_of ?s)" "aof_path a = own_log ?s"
    "complete (log_bytes a (disk_of ?s))" "complete (snap_bytes ?s)" by (auto simp: dinv_def log_ok_def)
  have p: "own_log ?s = own_log s" "own_snap ?s = own_snap s" by (simp_all add: own_log_def own_snap_def)
  have b: "log_bytes a (disk_of ?s) = file_content f (own_log s)"
    using flushed [OF d a(1)] a(3) p by (simp add: log_bytes_def f_def)
  show dl: "whole_lines (file_content f (own_snap s)) @ whole_lines (file_content f (own_log s)) = disk_lines ?s"
    using a(1) b p by (simp add: disk_lines_def log_lines_def snap_bytes_def f_def)
  have "own_log s = dir s @ ''/'' @ log_name (inst s)" using d by (simp add: dinv_def names_ok_def own_log_def)
  moreover have "list_all (own_line (inst s)) (whole_lines (file_content f (own_snap s)) @ whole_lines (file_content f (own_log s)))"
    using e unfolding dl by (simp add: dinv_def)
  ultimately show "own_files_ok f (dir s) (inst s)"
    using a(4,5) b p by (simp add: own_files_ok_def snap_bytes_def f_def own_snap_def)
  show "um_inv f" "um_count f (own_log s)" using a(2,3) p by (simp_all add: log_inv_def f_def)
qed

lemma reopen_files:
  assumes d: "dinv sys P s" and m: "dir s \<noteq> '':memory:''"
    and o: "open_store sys env (dir s) (inst s) (disk_of (flush_locked sys s)) st n = Inr s2"
  shows "files (disk_of s2) = files (disk_of (flush_locked sys s))" "inst s2 = inst s"
proof -
  have n: "own_log s = dir s @ ''/'' @ log_name (inst s)" "0 \<le> inst s"
    using d by (simp_all add: dinv_def names_ok_def own_log_def)
  show "files (disk_of s2) = files (disk_of (flush_locked sys s))" "inst s2 = inst s"
    using opened_disk [OF o m n(2)] flushed_files(4) [OF d] by (simp_all add: um_emplace_def n)
qed

lemma reopen_rows:
  assumes d: "dinv sys P s" and m: "dir s \<noteq> '':memory:''"
    and o: "open_store sys env (dir s) (inst s) (disk_of (flush_locked sys s)) st n = Inr s2"
    and fl: "list_all (foreign_line P) (sibling_lines (files (disk_of s2)) (dir s)
      (shard_files (files (disk_of s2)) (dir s) (log_name (inst s))))"
    and c: "P c"
  shows "rows s2 c = rows s c"
proof -
  let ?s = "flush_locked sys s"
  have n: "names_ok s" using d by (simp add: dinv_def)
  note f = flushed_files [OF d]
  have p: "own_log s = dir s @ ''/'' @ log_name (inst s)" "own_snap s = dir s @ ''/'' @ snap_name (inst s)"
    using n by (simp_all add: names_ok_def own_log_def own_snap_def)
  note ff = reopen_files [OF d m o]
  have "rows s2 c = fold abs_line (disk_lines ?s) Map.empty c"
    unfolding opened_rows(1) [OF o m] ff p [symmetric] f(1) by (rule foreign_lines_id [OF fl [unfolded ff(1)] c])
  also have "\<dots> = rows s c"
    using dinv_flush [OF d] c by (simp add: dinv_def persisted_def)
  finally show ?thesis .
qed

end
