(* ===== verification/Recovery.thy ===== *)
theory Recovery
  imports Durability
begin

text \<open>
  What is left after a restart, a crash at any byte, or a compaction, for every engine the step
  relation of \<^verbatim>\<open>Durability\<close> can reach; and the places where the log says something else than the
  index: hit counts after an update, the order of a creation and a deletion that overlap, a
  compaction without its snapshot, a torn last line.
\<close>

section \<open>Engines alone in their directory\<close>

lemma with_aof_elsewhere:
  assumes "log_ok sys s" and "appends sys g ls" and "q \<noteq> own_log s"
  shows "um_find (files (disk_of (with_aof g s))) q = um_find (files (disk_of s)) q"
proof -
  obtain a where a: "the_aof s = Some a" "log_inv sys a (disk_of s)" "aof_path a = own_log s"
    "complete (log_bytes a (disk_of s))" using assms(1) by (auto simp: log_ok_def)
  obtain a' d' where g: "g a (disk_of s) = (a', d')" by (cases "g a (disk_of s)")
  have "log_step sys a (disk_of s) ls a' d'" using appendsD [OF assms(2) a(2,4)] g by simp
  then show ?thesis using a(1,3) assms(3) g by (simp add: with_aof_def log_step_def)
qed

lemma flush_elsewhere:
  assumes "dinv sys P s" and "q \<noteq> own_log s"
  shows "um_find (files (disk_of (flush_locked sys s))) q = um_find (files (disk_of s)) q"
proof -
  have d: "mem_ok s" "names_ok s" "the_aof s \<noteq> None" "log_ok sys s" using assms(1) by (auto simp: dinv_mem log_ok_def)
  have l: "same_log s (drained s)" by (simp add: same_log_def drained_def)
  then have l': "log_ok sys (drained s)" "own_log (drained s) = own_log s" "disk_of (drained s) = disk_of s"
    using d(4) same_logD(1) [OF l] by (simp_all add: own_log_def same_log_def)
  show ?thesis unfolding flush_locked_eq [OF d(3)]
    using with_aof_elsewhere [OF l'(1) appends_intros(3) [OF hit_lines_ok(1) [OF d(1,2)]]] assms(2) l'(2,3) by simp
qed

definition only_own :: "proc \<Rightarrow> bool" where
  "only_own s \<longleftrightarrow> (\<forall>q. q \<noteq> own_log s \<longrightarrow> um_find (files (disk_of s)) q = None)"

lemma shard_files_alone:
  assumes "\<And>q. q \<noteq> d @ ''/'' @ own \<Longrightarrow> um_find f q = None"
  shows "shard_files f d own = []"
proof -
  have own: "p = d @ ''/'' @ own" if "p \<in> fst ` set f" for p
  proof (rule ccontr)
    assume "p \<noteq> d @ ''/'' @ own"
    from assms [OF this] have "\<not> um_count f p" by (simp add: um_count_def)
    then show False using that by (simp add: um_count_iff)
  qed
  have "set (dir_names f d) \<subseteq> {own}"
  proof
    fix n assume "n \<in> set (dir_names f d)"
    then obtain p where p: "p \<in> fst ` set f" "n = drop (Suc (length d)) p" unfolding dir_names_def set_map set_filter by blast
    show "n \<in> {own}" using own [OF p(1)] p(2) by simp
  qed
  then have "filter (\<lambda>n. is_shard_log n \<and> n \<noteq> own) (dir_names f d) = []" unfolding filter_empty_conv by blast
  then show ?thesis unfolding shard_files_def by simp
qed

lemma flush_alone: "dinv sys P s \<Longrightarrow> only_own s \<Longrightarrow> only_own (flush_locked sys s)"
  using flush_elsewhere by (simp add: only_own_def own_log_def)

lemma siblings_alone: "only_own s \<Longrightarrow> names_ok s \<Longrightarrow>
    sibling_lines (files (disk_of s)) (dir s) (shard_files (files (disk_of s)) (dir s) (log_name (inst s))) = []"
  using shard_files_alone [of "dir s" "own_name s" "files (disk_of s)"]
  by (simp add: sibling_lines_def only_own_def own_log_def names_ok_def)

lemma demo_os_ok: "os_ok demo_os"
  by (simp add: os_ok_def write_ok_def demo_os_def byte_os_def)

text \<open>An engine opened on an empty directory, for the examples below.\<close>

lemma demo_opened_at:
  assumes i: "0 \<le> i" "i < 62"
  obtains s where "reach demo_os Map.empty P s" "inst s = i" "dir s = ''d''" "rows s = Map.empty" "only_own s"
proof -
  let ?p = "''d/'' @ log_name i"
  obtain s where o: "open_store demo_os Map.empty ''d'' i \<lparr>files = [], durable = []\<rparr> 1 0 = Inr s"
    using open_store_total [OF demo_os_ok, of "''d''" i] i by fastforce
  have f: "files (disk_of s) = [(?p, [])]" "inst s = i"
    using opened_disk [OF o _ i(1)] by (simp_all add: um_emplace_def um_put_def um_count_def)
  have sh: "shard_files [(?p, [])] ''d'' (log_name i) = []" by (rule shard_files_alone) simp
  have c: "file_content [(?p, [])] q = []" for q by (simp add: file_content_def um_get_def)
  note r = opened_rows [OF o, unfolded f sh c]
  have rw: "rows s = Map.empty" "dir s = ''d''" "names_ok s" using r(1-3) by (simp_all add: sibling_lines_def)
  have a: "only_own s" using rw(2,3) by (simp add: only_own_def own_log_def f names_ok_def)
  have "reach demo_os Map.empty P s"
    by (rule reach.opened [OF o]) (simp_all add: f sh [simplified] c [simplified] sibling_lines_def own_files_ok_def um_inv_def)
  then show ?thesis using that f a rw by blast
qed

lemmas demo_opened = demo_opened_at [of 0, simplified]

lemma demo_run_code:
  assumes c: "log_safe c"
  obtains s where "reach demo_os Map.empty P s" "inst s = 0" "dir s = ''d''"
    "rows s = [c \<mapsto> (''http://x'', 5, 0, 0)]" "only_own s" "pfx s = CHR ''0''"
proof -
  obtain s where s: "reach demo_os Map.empty P s" "inst s = 0" "dir s = ''d''" "rows s = Map.empty" "only_own s"
    by (rule demo_opened)
  let ?e = "Entry ''http://x'' 5 0 0"
  let ?s1 = "idx_put c ?e s"
  have e: "idx s c = None" using fun_cong [OF s(4), of "c"] by (simp add: rows_at split: option.splits)
  have sh: "shorten demo_os 5 ''http://x'' (Some c) 0 s = Some (Some c, shorten_log demo_os 5 ''http://x'' 0 c ?s1)"
    using e s(2) by (simp add: shorten_def shorten_insert_def expiry_def)
  let ?s2 = "shorten_log demo_os 5 ''http://x'' 0 c ?s1"
  have l: "same_log s ?s1" by (simp add: same_log_def)
  have "log_ok demo_os s" using dinv_reach [OF s(1) demo_os_ok] by (simp add: dinv_def)
  then have l1: "log_ok demo_os ?s1" using same_logD(1) [OF l] by simp
  have "step demo_os Map.empty P s ?s2" using step.shorten [OF sh] c by (auto simp: in_i64_def)
  then have "reach demo_os Map.empty P ?s2" using s(1) by (rule reach.stepped [rotated])
  moreover have "rows ?s2 = [c \<mapsto> (''http://x'', 5, 0, 0)]"
    using s(4) by (simp add: shorten_log_def rows_put)
  moreover have "pfx ?s2 = CHR ''0''"
    using dinv_reach [OF s(1) demo_os_ok] s(2) by (simp add: shorten_log_def links_delta_def dinv_def names_ok_def ALPHABET_def)
  moreover have "only_own ?s2"
    using with_aof_elsewhere [OF l1 appends_intros(1) [OF framed_lines(1) [OF c]]] s(5)
    by (simp add: only_own_def shorten_log_def own_log_def links_delta_def)
  ultimately show ?thesis using that s(2,3) by (simp add: shorten_log_def links_delta_def)
qed

lemma demo_run:
  obtains s where "reach demo_os Map.empty P s" "inst s = 0" "dir s = ''d''"
    "rows s = [''ali'' \<mapsto> (''http://x'', 5, 0, 0)]" "only_own s"
  using demo_run_code [of "''ali''"] by (auto simp: log_safe_def)

section \<open>Restart\<close>

text \<open>
  C1: Links survive a restart. For every engine that any sequence of calls, background work and
  sibling activity can bring about: after a flush, opening the directory again as the same
  instance succeeds, every code that no sibling writes has exactly the row it had before (URL,
  creation time, expiry, owner, or none), and the new engine satisfies what the old one did.
\<close>

theorem restart_keeps_links:
  assumes "os_ok sys" and "reach sys env P s" and "dir s \<noteq> '':memory:''"
    and "f = files (disk_of (flush_public sys s))"
    and "list_all (foreign_line P) (sibling_lines f (dir s) (shard_files f (dir s) (log_name (inst s))))"
  shows "\<exists>s2. open_store sys env' (dir s) (inst s) (disk_of (flush_public sys s)) st n = Inr s2 \<and>
    (\<forall>c. P c \<longrightarrow> rows s2 c = rows s c) \<and> reach sys env' P s2"
proof -
  note fl = assms(5) [unfolded assms(4) flush_public_def]
  have d: "dinv sys P s" using assms(1,2) by (rule dinv_reach [rotated])
  have "0 \<le> inst s" "inst s < 62" using d by (simp_all add: dinv_def names_ok_def)
  then obtain s2 where o: "open_store sys env' (dir s) (inst s) (disk_of (flush_locked sys s)) st n = Inr s2"
    using open_store_total [OF assms(1,3)] by blast
  note r = reopen_files [OF d assms(3) o]
  have "reach sys env' P s2"
    by (rule reach.opened [OF o assms(3)]) (use fl flushed_files [OF d] in \<open>simp_all add: r\<close>)
  moreover have "rows s2 c = rows s c" if "P c" for c
    using fl by (intro reopen_rows [OF d assms(3) o _ that]) (simp only: r)
  ultimately show ?thesis using o by (auto simp: flush_public_def)
qed

theorem restart_keeps_links_witness:
  "\<exists>s s2. reach demo_os Map.empty (\<lambda>_. True) s \<and>
     open_store demo_os Map.empty ''d'' 0 (disk_of (flush_public demo_os s)) 1 0 = Inr s2 \<and>
     rows s2 = [''ali'' \<mapsto> (''http://x'', 5, 0, 0)]"
proof -
  obtain s where s: "reach demo_os Map.empty (\<lambda>_. True) s" "inst s = 0" "dir s = ''d''"
    "rows s = [''ali'' \<mapsto> (''http://x'', 5, 0, 0)]" "only_own s" by (rule demo_run)
  have d: "dinv demo_os (\<lambda>_. True) s" using s(1) demo_os_ok by (rule dinv_reach)
  have "names_ok (flush_locked demo_os s)" using dinv_flush [OF d] by (simp add: dinv_def)
  from siblings_alone [OF flush_alone [OF d s(5)] this] s(2,3)
  obtain s2 where "open_store demo_os Map.empty (dir s) (inst s) (disk_of (flush_public demo_os s)) 1 0 = Inr s2"
    "\<forall>c. rows s2 c = rows s c"
    using restart_keeps_links [OF demo_os_ok s(1) _ refl, of Map.empty 1 0] by (auto simp: flush_public_def)
  then show ?thesis using s by (intro exI [of _ s] exI [of _ s2]) (simp add: fun_eq_iff)
qed

section \<open>Crash\<close>

lemma whole_lines_extend: "\<exists>ls. whole_lines (s @ t) = whole_lines s @ ls"
  by (auto simp: whole_lines_def split_lines_append split: prod.split)

lemma whole_lines_take: "\<exists>j. whole_lines (s @ take k t) = take j (whole_lines (s @ t)) \<and> length (whole_lines s) \<le> j"
proof -
  obtain l1 l2 where "whole_lines (s @ take k t) = whole_lines s @ l1"
    "whole_lines ((s @ take k t) @ drop k t) = whole_lines (s @ take k t) @ l2"
    using whole_lines_extend by metis
  then show ?thesis by (intro exI [of _ "length (whole_lines (s @ take k t))"]) simp
qed

text \<open>
  C2: A crash loses at most the newest operations. When the process dies at any moment, with any number of
  bytes of its buffer written, and the directory is opened again as the same instance, each code
  that no sibling writes has the row that some prefix of the logged history gives it; that prefix
  holds at least every line the log file held before the last, interrupted write.
\<close>

theorem crash_keeps_prefix:
  assumes "os_ok sys" and "reach sys env P s" and "the_aof s = Some a" and "f = files d'"
    and "file_content f (own_log s) = file_content (files (disk_of s)) (own_log s) @ take k (aof_buf a)"
    and "file_content f (own_snap s) = snap_bytes s" and "um_count f (own_log s)"
    and "open_store sys env' (dir s) (inst s) d' st n = Inr s2" and "dir s \<noteq> '':memory:''"
    and "list_all (foreign_line P) (sibling_lines f (dir s) (shard_files f (dir s) (log_name (inst s))))"
  shows "\<exists>j. length (whole_lines (snap_bytes s)) + length (whole_lines (file_content (files (disk_of s)) (own_log s))) \<le> j \<and>
    (\<forall>c. P c \<longrightarrow> rows s2 c = fold abs_line (take j (disk_lines s)) Map.empty c)"
proof -
  let ?log = "file_content (files (disk_of s)) (own_log s)"
  have d: "dinv sys P s" using assms(1,2) by (rule dinv_reach [rotated])
  then have a: "aof_path a = own_log s" and n: "names_ok s" using assms(3) by (auto simp: dinv_def log_ok_def)
  have p: "own_log s = dir s @ ''/'' @ log_name (inst s)" "own_snap s = dir s @ ''/'' @ snap_name (inst s)" "0 \<le> inst s"
    using n by (simp_all add: names_ok_def own_log_def own_snap_def)
  have ff: "files (disk_of s2) = f" and i: "inst s2 = inst s"
    using opened_disk [OF assms(8,9) p(3)] assms(4,7) by (simp_all add: um_emplace_def p)
  have dl: "disk_lines s = whole_lines (snap_bytes s) @ whole_lines (?log @ aof_buf a)"
    using assms(3) a by (simp add: disk_lines_def log_lines_def log_bytes_def)
  obtain j where j: "whole_lines (?log @ take k (aof_buf a)) = take j (whole_lines (?log @ aof_buf a))"
    "length (whole_lines ?log) \<le> j" using whole_lines_take by blast
  let ?j = "length (whole_lines (snap_bytes s)) + j"
  have t: "take ?j (disk_lines s) = whole_lines (snap_bytes s) @ whole_lines (?log @ take k (aof_buf a))"
    by (simp add: dl j(1))
  have "rows s2 c = fold abs_line (take ?j (disk_lines s)) Map.empty c" if "P c" for c
    unfolding opened_rows(1) [OF assms(8,9)] ff i p(1,2) [symmetric] assms(5,6) t
    by (rule foreign_lines_id [OF assms(10) that])
  then show ?thesis using j(2) by (intro exI [of _ ?j]) simp
qed

theorem crash_keeps_prefix_witness:
  "\<exists>s s2. reach demo_os Map.empty (\<lambda>_. True) s \<and> rows s \<noteq> Map.empty \<and>
     open_store demo_os Map.empty ''d'' 0 (disk_of s) 1 0 = Inr s2 \<and>
     (\<exists>j. \<forall>c. rows s2 c = fold abs_line (take j (disk_lines s)) Map.empty c)"
proof -
  obtain s where s: "reach demo_os Map.empty (\<lambda>_. True) s" "inst s = 0" "dir s = ''d''"
    "rows s = [''ali'' \<mapsto> (''http://x'', 5, 0, 0)]" "only_own s" by (rule demo_run)
  have d: "dinv demo_os (\<lambda>_. True) s" using s(1) demo_os_ok by (rule dinv_reach)
  then obtain a where a: "the_aof s = Some a" "um_count (files (disk_of s)) (own_log s)" "names_ok s"
    by (auto simp: dinv_def log_ok_def log_inv_def)
  obtain s2 where o: "open_store demo_os Map.empty (dir s) (inst s) (disk_of s) 1 0 = Inr s2"
    using open_store_total [OF demo_os_ok, of "dir s" "inst s"] s(2,3) by fastforce
  have "\<exists>j. \<forall>c. rows s2 c = fold abs_line (take j (disk_lines s)) Map.empty c"
    using crash_keeps_prefix [OF demo_os_ok s(1) a(1) refl _ _ a(2) o, of 0] siblings_alone [OF s(5) a(3)] s(3)
    by (auto simp: snap_bytes_def)
  then show ?thesis using s o by (intro exI [of _ s] exI [of _ s2]) auto
qed

section \<open>Compaction\<close>

lemma idx_flush_locked [simp]: "idx (flush_locked sys s) = idx s"
  using flush_locked_eq [of s sys] by (cases "the_aof s") (simp_all add: flush_locked_def)

lemma length_snap_lines:
  assumes "idx_inv s"
  shows "length (snap_lines s) = card {c. \<exists>e. idx s c = Some e \<and> e_i e = inst s}"
proof -
  let ?kvs = "scan (\<lambda>(c, e). e_i e = inst s) s"
  have "fst ` set ?kvs = {c. \<exists>e. idx s c = Some e \<and> e_i e = inst s}" 
  proof (rule set_eqI)
    fix c
    have "c \<in> fst ` A \<longleftrightarrow> (\<exists>e. (c, e) \<in> A)" for A :: "(string \<times> entry) set" by force
    then show "c \<in> fst ` set ?kvs \<longleftrightarrow> c \<in> {c. \<exists>e. idx s c = Some e \<and> e_i e = inst s}" by (simp only: set_scan [OF assms]) simp
  qed
  then show ?thesis using distinct_card [OF distinct_scan [OF assms], of "\<lambda>(c, e). e_i e = inst s"]
    by (simp add: snap_lines_scan)
qed

lemma compact_files:
  assumes "dinv sys P s"
  shows "rows (compact sys s) = rows s" "file_content (files (disk_of (compact sys s))) (own_log s) = []"
    "whole_lines (file_content (files (disk_of (compact sys s))) (own_snap s)) = snap_lines (flush_locked sys s)"
proof -
  let ?s = "flush_locked sys s"
  let ?w = "write_snap sys (own_snap s) (unlines (snap_lines ?s)) (disk_of ?s)"
  have d: "dinv sys P ?s" using assms by (rule dinv_flush)
  then obtain a where a: "the_aof ?s = Some a" "log_inv sys a (disk_of ?s)" "aof_path a = own_log ?s" by (auto simp: dinv_def log_ok_def)
  have b: "aof_buf a = []" using assms a(1) by (rule flushed)
  have o: "os_ok sys" "names_ok ?s" "mem_ok ?s" using d by (auto simp: dinv_mem)
  have p: "own_snap ?s = own_snap s" "own_log ?s = own_log s" by (simp_all add: own_snap_def own_log_def)
  have t: "aof_truncate sys a ?w = (a\<lparr>aof_fd := Some (Offset 0)\<rparr>, ?w\<lparr>files := um_put (own_log s) [] (files ?w)\<rparr>)"
    using o(1) a b p by (simp add: aof_truncate_def aof_flush_def os_ok_def log_inv_def split: option.split)
  have "the_aof s \<noteq> None" using assms by (auto simp: dinv_def log_ok_def)
  then have c: "compact sys s = with_aof (aof_truncate sys) (?s\<lparr>disk_of := ?w\<rparr>)"
    by (cases "the_aof s") (simp_all add: compact_def Let_def own_snap_def unlines_concat)
  have f: "files (disk_of (compact sys s)) = um_put (own_log s) [] (files ?w)"
    unfolding c by (simp add: with_aof_def a(1) t)
  show "rows (compact sys s) = rows s"
  proof -
    have "rows (compact sys s) = rows ?s" unfolding c by (simp add: rows_def idx_def fun_eq_iff)
    then show ?thesis by simp
  qed
  show "file_content (files (disk_of (compact sys s))) (own_log s) = []" by (simp add: f)
  have "own_snap s \<noteq> own_log s" using assms by (intro log_snap_neq) (simp add: dinv_def names_ok_def)
  then show "whole_lines (file_content (files (disk_of (compact sys s))) (own_snap s)) = snap_lines ?s"
    using write_snap_ok(1) [OF o(1), of "disk_of ?s" "own_snap s" "unlines (snap_lines ?s)"] a(2)
      whole_lines_unlines [OF snap_lines_ok(1) [OF o(3,2)]]
    by (simp add: f log_inv_def) (simp add: file_content_def um_get_def)
qed

text \<open>
  C3: Compaction changes no link and leaves the smallest history that says the same: the log is empty,
  the snapshot has exactly one line for each link this instance owns, and replaying the snapshot
  alone gives every code that no sibling writes the row it has in memory.
\<close>

theorem compact_minimal:
  assumes "os_ok sys" and "reach sys env P s"
    and "f = files (disk_of (compact sys s))" and "snap = whole_lines (file_content f (own_snap s))"
  shows "rows (compact sys s) = rows s \<and> file_content f (own_log s) = [] \<and>
    length snap = card {c. \<exists>e. idx s c = Some e \<and> e_i e = inst s} \<and>
    (\<forall>c. P c \<longrightarrow> fold abs_line snap Map.empty c = rows s c)"
proof -
  have d: "dinv sys P s" using assms(1,2) by (rule dinv_reach [rotated])
  note c = compact_files [OF d]
  let ?s = "flush_locked sys s"
  have sn: "snap = snap_lines ?s" unfolding assms(3,4) by (rule c(3))
  have e: "dinv sys P ?s" using d by (rule dinv_flush)
  then have m: "mem_ok ?s" "names_ok ?s" by (auto simp: dinv_mem)
  have "idx_inv ?s" using m(1) by (simp add: mem_ok_def)
  from length_snap_lines [OF this] have "length snap = card {c. \<exists>e. idx s c = Some e \<and> e_i e = inst s}" by (simp add: sn)
  moreover have "fold abs_line snap Map.empty x = rows s x" if "P x" for x
    using own_entry [OF d that] snap_lines_ok(3) [OF m, of x] by (cases "idx s x") (simp_all add: sn rows_at)
  ultimately show ?thesis using c(1,2) by (simp add: assms(3))
qed

theorem compact_minimal_witness:
  "\<exists>s. reach demo_os Map.empty (\<lambda>_. True) s \<and>
     length (whole_lines (file_content (files (disk_of (compact demo_os s))) (own_snap s))) = 1"
proof -
  obtain s where s: "reach demo_os Map.empty (\<lambda>_. True) s" "inst s = 0"
    "rows s = [''ali'' \<mapsto> (''http://x'', 5, 0, 0)]" by (rule demo_run)
  have "{c. \<exists>e. idx s c = Some e \<and> e_i e = inst s} = {''ali''}"
  proof -
    have "(\<exists>e. idx s c = Some e \<and> e_i e = inst s) = (c = ''ali'')" for c
      using fun_cong [OF s(3), of c] s(2) by (cases "idx s c") (auto simp: rows_at core_def split: if_splits)
    then show ?thesis by simp
  qed
  then show ?thesis using compact_minimal [OF demo_os_ok s(1) refl refl] s(1) by (intro exI [of _ s]) simp
qed

section \<open>What the log forgets\<close>

text \<open>
  C23: An update is not faithful to the hit count once it is replayed: in memory the link keeps its
  hits, but the row line the update logs carries a count of zero, so that the same entry read back
  from the log starts again from nothing.
\<close>

theorem update_line_forgets_hits:
  assumes "idx s c = Some e" and "e_i e = inst s" and "the_aof s = Some a" and "log_safe c" and "entry_ok e"
    and "in_i64 (inst s)" and "um_find (stray (tails s)) c = None"
  shows "\<exists>s' l. update now c url ttl has_ttl s = (Ok, s') \<and> the_aof s' = Some (push l a) \<and>
    map_option e_h (idx s' c) = Some (e_h e) \<and> map_option e_h (idx (apply_line l s') c) = Some 0"
proof -
  let ?ex = "if has_ttl then expiry now ttl else e_e e"
  let ?l = "row_line c url (e_a e) ?ex (inst s) 0"
  let ?s = "idx_put c (e\<lparr>e_u := url, e_e := ?ex\<rparr>) s"
  have u: "update now c url ttl has_ttl s = (Ok, update_log c url (e_a e) ?ex ?s)"
    using assms(1,2) by (simp add: update_def update_index_def Let_def)
  have st: "um_find (stray (tails (update_log c url (e_a e) ?ex ?s))) c = None"
    using assms(7) by (simp add: update_log_def)
  have p: "parse_op ?l = Some (row_op c url (e_a e) ?ex (inst s) 0)"
    using assms(4-6) by (intro parse_row_line) (simp_all add: entry_ok_def in_i64_0)
  have "map_option e_h (idx (apply_line ?l (update_log c url (e_a e) ?ex ?s)) c) = Some 0"
    using st assms(4) by (simp add: apply_line_def p apply_op_def row_op_def op0_def log_safe_def Let_def um_simps add64_def wrap64_id in_i64_def)
  then show ?thesis using u assms(3) by (intro exI [of _ "update_log c url (e_a e) ?ex ?s"] exI [of _ ?l])
    (simp add: update_log_def with_aof_def um_simps)
qed

theorem update_line_forgets_hits_witness:
  "let s = idx_put ''a'' ((Entry ''u'' 1 0 0)\<lparr>e_h := 9, e_oh := 9\<rparr>) (demo_mem\<lparr>the_aof := Some aof0\<rparr>)
   in \<exists>s' l. update 5 ''a'' ''v'' 0 False s = (Ok, s') \<and> map_option e_h (idx s' ''a'') = Some 9 \<and>
        map_option e_h (idx (apply_line l s') ''a'') = Some 0"
proof -
  let ?e = "(Entry ''u'' 1 0 0)\<lparr>e_h := 9, e_oh := 9\<rparr>"
  let ?s = "idx_put ''a'' ?e (demo_mem\<lparr>the_aof := Some aof0\<rparr>)"
  have "idx ?s ''a'' = Some ?e" "e_i ?e = inst ?s" "the_aof ?s = Some aof0" "log_safe ''a''" "entry_ok ?e"
    "in_i64 (inst ?s)" "um_find (stray (tails ?s)) ''a'' = None"
    by (simp_all add: um_simps entry_ok_def in_i64_def log_safe_def Entry_def demo_mem_def inner0_def)
  from update_line_forgets_hits [OF this, of 5 "''v''" 0 False] show ?thesis by (auto simp: Let_def)
qed

text \<open>
  C24: Creation and deletion log outside the lock of the index, so they can log in the wrong order. If a
  deletion runs completely between the two halves of the creation of its link, the link is gone
  from memory while the log ends with its row: a restart brings it back.
\<close>

theorem remove_race_resurrects:
  assumes "os_ok sys" and "reach sys env P s" and "idx s c = None" and "log_safe c" and "in_i64 now"
    and "shorten_insert now url (Some c) ttl s = Some (Some c, s1)" and "remove_index c s1 = (Ok, s2)"
    and "s4 = shorten_log sys now url ttl c (remove_log c s2)"
  shows "idx s4 c = None \<and> persisted s4 c = Some (url, now, expiry now ttl, inst s)"
proof -
  let ?row = "row_line c url now (expiry now ttl) (inst s) 0"
  have d: "dinv sys P s" using assms(1,2) by (rule dinv_reach [rotated])
  then have i: "in_i64 (inst s)" "wrap32 (inst s) = inst s" and n: "own_name s = log_name (inst s)" and lo: "log_ok sys s"
    using names_okD [of s] by (auto simp: dinv_def names_ok_def)
  have s1: "s1 = idx_put c (Entry url now (expiry now ttl) (inst s)) s"
    using assms(3,6) by (auto simp: shorten_insert_def split: if_splits)
  have s2: "s2 = idx_erase c s1" using assms(7) s1 by (auto simp: remove_index_def um_simps split: if_splits)
  have l: "same_log s s2" by (simp add: same_log_def s1 s2)
  have l2: "log_ok sys s2" "own_name s2 = log_name (inst s2)" using same_logD(1) [OF l] lo l n by (simp_all add: same_log_def)
  let ?w = "with_aof (\<lambda>l d. (push (del_line c) l, d)) s2" and ?s3 = "remove_log c s2"
  note w3 = log_ok_with_aof [OF l2 appends_push [OF framed_lines(3) [OF assms(4)]]]
  have l3: "same_log ?w ?s3" by (simp add: same_log_def remove_log_def links_delta_def)
  have l4: "log_ok sys ?s3" "own_name ?s3 = log_name (inst ?s3)" "inst ?s3 = inst s"
    using same_logD(1) [OF l3] w3(1) l2(2) l3 l by (simp_all add: same_log_def)
  let ?v = "with_aof (\<lambda>a d. flush_if_full sys (push ?row a) d) ?s3"
  note w4 = log_ok_with_aof [OF l4(1,2) appends_intros(1) [OF framed_lines(1) [OF assms(4)]]]
  have l5: "same_log ?v s4" by (simp add: same_log_def assms(8) shorten_log_def l4(3) links_delta_def)
  have "disk_lines s4 = disk_lines s2 @ [del_line c, ?row]"
    using same_logD(3) [OF l5] same_logD(3) [OF l3] w3(2) w4(2) by simp
  then have "persisted s4 c = Some (url, now, expiry now ttl, inst s)"
    using assms(4,5) i by (simp add: persisted_def abs_line_row)
  moreover have "idx s4 c = None"
    by (simp add: assms(8) shorten_log_def remove_log_def s2 um_simps)
  ultimately show ?thesis by simp
qed

theorem remove_race_resurrects_witness:
  "\<exists>s s1 s2. reach demo_os Map.empty (\<lambda>_. True) s \<and>
     shorten_insert 5 ''http://x'' (Some ''ali'') 0 s = Some (Some ''ali'', s1) \<and> remove_index ''ali'' s1 = (Ok, s2) \<and>
     persisted (shorten_log demo_os 5 ''http://x'' 0 ''ali'' (remove_log ''ali'' s2)) ''ali'' = Some (''http://x'', 5, 0, 0)"
proof -
  obtain s where s: "reach demo_os Map.empty (\<lambda>_. True) s" "inst s = 0" "rows s = Map.empty" by (rule demo_opened)
  have c: "log_safe ''ali''" by (simp add: log_safe_def)
  have e: "idx s ''ali'' = None" using fun_cong [OF s(3), of "''ali''"] by (simp add: rows_at split: option.splits)
  let ?s1 = "idx_put ''ali'' (Entry ''http://x'' 5 0 0) s"
  have h: "shorten_insert 5 ''http://x'' (Some ''ali'') 0 s = Some (Some ''ali'', ?s1)"
    using e s(2) by (simp add: shorten_insert_def expiry_def)
  have r: "remove_index ''ali'' ?s1 = (Ok, idx_erase ''ali'' ?s1)" using s(2) by (simp add: remove_index_def um_simps)
  have "in_i64 5" by (simp add: in_i64_def)
  from remove_race_resurrects [OF demo_os_ok s(1) e c this h r refl] show ?thesis
    using s h r by (intro exI [of _ s] exI [of _ ?s1] exI [of _ "idx_erase ''ali'' ?s1"]) (simp add: expiry_def)
qed

text \<open>
  Compaction truncates the log even when it could not write the snapshot. If the temporary file
  cannot be created, the rows in memory stay as they are, but on disk everything since the previous
  snapshot is gone.
\<close>

lemma compact_without_snapshot:
  assumes "names_ok s" and "log_ok sys s" and "mem_ok s"
    and "\<And>f. \<not> os_creat sys f (own_snap s @ ''.tmp'')" and "\<And>f. os_creat sys f (own_log s)"
  shows "rows (compact sys s) = rows s \<and>
    persisted (compact sys s) = fold abs_line (whole_lines (snap_bytes s)) Map.empty"
proof -
  let ?s = "flush_locked sys s"
  have a0: "the_aof s \<noteq> None" using assms(2) by (auto simp: log_ok_def)
  have l: "same_log s (drained s)" by (simp add: same_log_def drained_def)
  have ld: "log_ok sys (drained s)" "own_name (drained s) = log_name (inst (drained s))" "own_log (drained s) = own_log s"
    "disk_of (drained s) = disk_of s"
    using same_logD(1) [OF l] assms(1,2) l by (simp_all add: same_log_def names_ok_def own_log_def)
  note ap = appends_intros(3) [OF hit_lines_ok(1) [OF assms(3,1), of "[0..<NUM_SHARDS]"]]
  have lf: "log_ok sys ?s" unfolding flush_locked_eq [OF a0] by (rule log_ok_with_aof(1) [OF ld(1,2) ap])
  then obtain a where a: "the_aof ?s = Some a" "aof_path a = own_log s" by (auto simp: log_ok_def own_log_def)
  have w: "compact sys s = with_aof (aof_truncate sys) ?s"
    using a0 assms(4) by (cases "the_aof s") (simp_all add: compact_def write_snap_def Let_def own_snap_def)
  obtain b d where f: "aof_flush sys a (disk_of ?s) = (b, d)" by (cases "aof_flush sys a (disk_of ?s)")
  note fl = aof_flush_log [OF _ f]
  have li: "log_inv sys a (disk_of ?s)" using lf a(1) by (simp add: log_ok_def)
  have bb: "aof_buf b = []" "aof_path b = own_log s" using fl(3,4) [OF li] a(2) by simp_all
  have c: "compact sys s = ?s\<lparr>the_aof := Some (b\<lparr>aof_fd := Some (Offset 0)\<rparr>), disk_of := d\<lparr>files := um_put (own_log s) [] (files d)\<rparr>\<rparr>"
    using assms(5) bb(2) by (simp add: w with_aof_def a(1) aof_truncate_def f)
  have nq: "own_snap s \<noteq> own_log s" using assms(1) by (intro log_snap_neq) (simp add: names_ok_def)
  have "um_find (files d) (own_snap s) = um_find (files (disk_of ?s)) (own_snap s)" using fl(6) [OF li] nq a(2) by simp
  moreover have "um_find (files (disk_of ?s)) (own_snap s) = um_find (files (disk_of s)) (own_snap s)"
    unfolding flush_locked_eq [OF a0] using with_aof_elsewhere [OF ld(1) ap] nq ld(3,4) by simp
  ultimately have "snap_bytes (compact sys s) = snap_bytes s"
    using nq by (simp add: snap_bytes_def c own_snap_def file_content_def um_get_def um_simps)
  moreover have "log_lines (compact sys s) = []" by (simp add: log_lines_def c log_bytes_def bb)
  moreover have "rows (compact sys s) = rows ?s" by (simp add: c rows_def idx_def fun_eq_iff)
  ultimately show ?thesis by (simp add: persisted_def disk_lines_def)
qed

text \<open>
  A torn line at the end of the log, as a crash leaves it, is not cut off when the log is opened
  again: the next line written is glued to it, and neither of the two is read back as written.
\<close>

lemma torn_tail_swallows_next:
  assumes "log_inv sys a d" and "aof_buf a = []" and "split_lines [] (file_content (files d) (aof_path a)) = (ls, r)"
    and "r \<noteq> []" and "framed l" and "aof_flush sys (push l a) d = (a', d')"
  shows "whole_lines (file_content (files d') (aof_path a)) = ls @ [r @ l]"
proof -
  have "log_inv sys (push l a) d" using assms(1) by (rule al.inv_push)
  note f = aof_flush_log [OF this assms(6)]
  have "file_content (files d') (aof_path a) = file_content (files d) (aof_path a) @ l @ [NL]"
    using f(2,3,4) assms(2) by (simp add: log_bytes_def push_def)
  moreover have "split_lines r (l @ [NL]) = ([r @ l], [])"
    using assms(4,5) by (simp add: split_lines_append split_lines_torn framed_def)
  ultimately show ?thesis using assms(3) by (simp add: whole_lines_def split_lines_append)
qed

end
