(* ===== verification/Cluster.thy ===== *)
theory Cluster
  imports Recovery
begin

text \<open>
  Several processes on one directory: the codes they generate never meet, a generated link that one of them
  has flushed is served by the others, and compaction can take that away again.
\<close>

lemma names_ok_log: "names_ok s \<Longrightarrow> own_log s = dir s @ ''/'' @ log_name (inst s)"
  by (simp add: own_log_def names_ok_def)

lemma names_ok_owner:
  assumes "names_ok s"
  shows "alpha_idx (pfx s) = inst s" "0 \<le> inst s"
proof -
  have "nat (inst s) < 62" "0 \<le> inst s" "pfx s = ALPHABET ! nat (inst s)" using assms by (auto simp: names_ok_def)
  then show "alpha_idx (pfx s) = inst s" "0 \<le> inst s" by (simp_all only: alpha_idx_nth int_nat_eq if_True)
qed

section \<open>Codes of different instances\<close>

text \<open>
  C5: Instances that share a directory never generate the same code: whatever states two engines with
  different instance numbers have reached, a code one of them generates differs from every code the
  other generates, without any communication between them.
\<close>

theorem instances_generate_apart:
  assumes "os_ok sys" and "reach sys env P s" and "reach sys env' Q t" and "inst s \<noteq> inst t"
    and "shorten sys now url None ttl s = Some (Some c, s')" and "shorten sys now' url' None ttl' t = Some (Some c', t')"
  shows "c \<noteq> c'"
proof -
  have n: "names_ok s" "names_ok t" using dinv_reach [OF assms(2,1)] dinv_reach [OF assms(3,1)] by (auto simp: dinv_def)
  have "hd c = pfx s" "hd c' = pfx t" using shorten_SomeD(3) [OF assms(5)] shorten_SomeD(3) [OF assms(6)] by simp_all
  moreover have "alpha_idx (pfx s) = inst s" "alpha_idx (pfx t) = inst t" using n names_ok_owner by auto
  ultimately show ?thesis using assms(4) by auto
qed

theorem instances_generate_apart_witness:
  "\<exists>s t c c' s' t'. inst s = 0 \<and> inst t = 1 \<and> shorten demo_os 5 ''u'' None 0 s = Some (Some c, s') \<and>
     shorten demo_os 5 ''u'' None 0 t = Some (Some c', t') \<and> c \<noteq> c'"
proof -
  have gen: "\<exists>c s'. shorten demo_os 5 ''u'' None 0 s = Some (Some c, s')" if "rows s = Map.empty" for s
  proof -
    have "idx s (fst (draw (pfx s) (rng s) 0)) = None"
      using fun_cong [OF that, of "fst (draw (pfx s) (rng s) 0)"] by (simp add: rows_at split: option.splits)
    from insert_fresh_total [OF this, of "''u''" 5 "expiry 5 0"] show ?thesis
      by (auto simp: shorten_def shorten_insert_def)
  qed
  obtain s where s: "reach demo_os Map.empty (\<lambda>_. True) s" "inst s = 0" "rows s = Map.empty" by (rule demo_opened)
  obtain t where t: "reach demo_os Map.empty (\<lambda>_. True) t" "inst t = 1" "rows t = Map.empty"
    using demo_opened_at [of 1] by auto
  obtain c s' c' t' where g: "shorten demo_os 5 ''u'' None 0 s = Some (Some c, s')" "shorten demo_os 5 ''u'' None 0 t = Some (Some c', t')"
    using gen [OF s(3)] gen [OF t(3)] by blast
  have "c \<noteq> c'" by (rule instances_generate_apart [OF demo_os_ok s(1) t(1) _ g]) (simp add: s t)
  then show ?thesis using s t g by blast
qed

section \<open>A link on the other side\<close>

text \<open>A process that has not looked into the log of a sibling yet, in the same directory, on the given files.\<close>

definition newcomer :: "proc \<Rightarrow> proc \<Rightarrow> fs \<Rightarrow> string \<Rightarrow> bool" where
  "newcomer s t f c \<longleftrightarrow> the_aof t \<noteq> None \<and> dir t = dir s \<and> inst t \<noteq> inst s \<and> files (disk_of t) = f \<and>
     idx t c = None \<and> um_find (readers (tails t)) (log_name (inst s)) = None"




lemma demo_newcomer:
  "inst s = 0 \<Longrightarrow> dir s = ''d'' \<Longrightarrow>
     newcomer s (demo_mem\<lparr>inst := 1, dir := ''d'', the_aof := Some aof0, disk_of := \<lparr>files = f, durable = []\<rparr>\<rparr>) f c"
  by (simp add: newcomer_def demo_mem_def inner0_def idx_def)



text \<open>
  C25: Compaction can hide a link from the other processes: if the owner compacts before such a process
  has read the link's row from its log, the process answers that the link does not exist, although
  the owner still serves it.
\<close>

theorem compaction_hides_link:
  assumes "os_ok sys" and "reach sys env P s" and "c \<noteq> []" and "hd c = pfx s" and "idx s c \<noteq> None"
    and "newcomer s t (files (disk_of (compact sys s))) c"
  shows "fst (resolve env' clk c t) = None \<and> rows (compact sys s) c \<noteq> None"
proof -
  let ?f = "files (disk_of (compact sys s))"
  have d: "dinv sys P s" using assms(1,2) by (rule dinv_reach [rotated])
  then have n: "names_ok s" by (simp add: dinv_def)
  note w = assms(6) [unfolded newcomer_def]
  note cf = compact_files [OF d]
  have "fst (read_new ?f (TailReader (own_log s))) = []"
    using cf(2) read_new_in_step(4) [OF in_step_TailReader surjective_pairing, of ?f "own_log s"] by simp
  then have "missed_lines ?f (clk 1) c t = []"
    using w assms(3,4) names_ok_owner [OF n] names_ok_log [OF n] by (simp add: missed_lines_def)
  then have "rows (tail_missed ?f (clk 1) (clk 2) c t) c = None" using w by (simp add: rows_tail_missed rows_at)
  then have "idx (tail_missed ?f (clk 1) (clk 2) c t) c = None" by (simp add: rows_at)
  then have "fst (resolve env' clk c t) = None" using w by (simp add: resolve_def Let_def)
  then show ?thesis using cf(1) assms(5) by (simp add: rows_at)
qed

theorem compaction_hides_link_witness:
  "\<exists>s t. newcomer s t (files (disk_of (compact demo_os s))) ''0li'' \<and> inst t = 1 \<and>
     rows s ''0li'' = Some (''http://x'', 5, 0, 0) \<and> fst (resolve Map.empty (\<lambda>_. 9) ''0li'' t) = None"
proof -
  obtain s where s: "reach demo_os Map.empty (\<lambda>_. True) s" "inst s = 0" "dir s = ''d''"
    "rows s = [''0li'' \<mapsto> (''http://x'', 5, 0, 0)]" "pfx s = CHR ''0''"
    using demo_run_code [of "''0li''"] by (auto simp: log_safe_def)
  let ?f = "files (disk_of (compact demo_os s))"
  let ?t = "demo_mem\<lparr>inst := 1, dir := ''d'', the_aof := Some aof0, disk_of := \<lparr>files = ?f, durable = []\<rparr>\<rparr>"
  have t: "newcomer s ?t ?f ''0li''" using s(2,3) by (rule demo_newcomer)
  have e: "idx s ''0li'' \<noteq> None" using fun_cong [OF s(4), of "''0li''"] by (auto simp: rows_at)
  have "fst (resolve Map.empty (\<lambda>_. 9) ''0li'' ?t) = None"
    using compaction_hides_link [OF demo_os_ok s(1) _ _ e t, of Map.empty "\<lambda>_. 9"] s(5) by simp
  then show ?thesis using t s(4) by (intro exI [of _ s] exI [of _ ?t]) simp
qed

end
