(* ===== verification/App.thy ===== *)
theory App
  imports Json Metrics Rate_Limit Cluster
begin

text \<open>
  The request handler of \<^verbatim>\<open>src/src/app.cpp\<close>: validation, replies, query strings and the routing of a
  request to the methods of a store, the counters and the limiter. The store is a record of its
  methods, so the handler is the same for every engine.
\<close>

section \<open>Definitions\<close>

definition MAX_BODY :: nat where
  "MAX_BODY = 4096"

definition MAX_BULK_BODY :: nat where
  "MAX_BULK_BODY = 2 ^ 20"

definition MAX_BULK_URLS :: nat where
  "MAX_BULK_URLS = 10000"

definition MAX_LIST_LIMIT :: i64 where
  "MAX_LIST_LIMIT = 1000"

definition link_ttl_ms :: "environ \<Rightarrow> i64" where
  "link_ttl_ms env = env_i64 env ''LINK_TTL_MS'' 86400000"

definition cors_origin :: "environ \<Rightarrow> string" where
  "cors_origin env = env_str env ''CORS_ORIGIN'' ''*''"

record reply =
  status :: int
  location :: "string option"
  body :: string
  ctype :: "string option"

text \<open>
  The methods of \<^verbatim>\<open>Store\<close> a request can call, with the readings of the clock they take already
  fixed; \<open>None\<close> is a call that never returns. \<open>so_links\<close> reads the gauge the store
  keeps, \<open>so_mets\<close> puts the counters of the store among the others.
\<close>

record 's store_ops =
  so_healthy :: "'s \<Rightarrow> bool \<times> 's"
  so_list :: "nat \<Rightarrow> nat \<Rightarrow> string \<Rightarrow> string \<Rightarrow> 's \<Rightarrow> (link list \<times> nat) \<times> 's"
  so_stats :: "string \<Rightarrow> 's \<Rightarrow> link option \<times> 's"
  so_resolve :: "string \<Rightarrow> 's \<Rightarrow> string option \<times> 's"
  so_shorten :: "string \<Rightarrow> string option \<Rightarrow> i64 \<Rightarrow> 's \<Rightarrow> (string option \<times> 's) option"
  so_shorten_many :: "string list \<Rightarrow> i64 \<Rightarrow> 's \<Rightarrow> (string list \<times> 's) option"
  so_update :: "string \<Rightarrow> string \<Rightarrow> i64 \<Rightarrow> bool \<Rightarrow> 's \<Rightarrow> mut_result \<times> 's"
  so_remove :: "string \<Rightarrow> 's \<Rightarrow> mut_result \<times> 's"
  so_links :: "'s \<Rightarrow> i64"
  so_mets :: "'s \<Rightarrow> metrics \<Rightarrow> metrics"

text \<open>What a request can change: the store, the counters, the limiter.\<close>

record 's world =
  the_store :: 's
  mets :: metrics
  limit_of :: limiter
  rate_limited :: "64 word"

text \<open>
  A request may call a loop that never ends, run into behaviour the language leaves undefined, or throw an exception; no
  caller of the handler catches one, so the process ends.
\<close>

datatype fault = Loops | Undefined | Uncaught

definition metrics_op :: "nat \<Rightarrow> 's world \<Rightarrow> 's world" where
  "metrics_op i w = w\<lparr>mets := count_op i (mets w)\<rparr>"

subsection \<open>Validation\<close>

definition isalnum :: "char \<Rightarrow> bool" where
  "isalnum c \<longleftrightarrow> digit_val c \<noteq> None"

definition code_ok :: "string \<Rightarrow> bool" where
  "code_ok s \<longleftrightarrow> s \<noteq> [] \<and> length s \<le> 64 \<and> list_all (\<lambda>c. isalnum c \<or> c = CHR ''_'' \<or> c = CHR ''-'') s"

definition url_rest :: "string \<Rightarrow> string option" where
  "url_rest u =
     (if starts_with u ''http://'' then Some (drop 7 u)
      else if starts_with u ''https://'' then Some (drop 8 u)
      else None)"

definition is_valid_url :: "string \<Rightarrow> bool" where
  "is_valid_url u \<longleftrightarrow>
     u \<noteq> [] \<and> length u \<le> 2048 \<and>
     (case url_rest u of
        None \<Rightarrow> False
      | Some r \<Rightarrow>
          (let host = takeWhile (\<lambda>c. c \<noteq> CHR ''/'' \<and> c \<noteq> CHR ''?'' \<and> c \<noteq> CHR ''#'') r
           in host \<noteq> [] \<and>
              list_all (\<lambda>c. \<not> (c = CHR '' '' \<or> c = DQ \<or> c = BSL \<or> (of_char c :: nat) < 33)) host))"

definition ok_bulk_url :: "string \<Rightarrow> bool" where
  "ok_bulk_url u \<longleftrightarrow>
     7 < length u \<and> length u \<le> 2048 \<and>
     (starts_with u ''http://'' \<or> starts_with u ''https://'') \<and>
     list_all (\<lambda>c. \<not> (c = DQ \<or> c = BSL \<or> c = NL \<or> c = CHR 0x0D)) u"

definition admin_ok :: "environ \<Rightarrow> string \<Rightarrow> bool" where
  "admin_ok env token \<longleftrightarrow> (case env ''ADMIN_TOKEN'' of None \<Rightarrow> False | Some want \<Rightarrow> want \<noteq> [] \<and> token = want)"

subsection \<open>Replies\<close>

definition mk :: "int \<Rightarrow> string \<Rightarrow> reply" where
  "mk s b = \<lparr>status = s, location = None, body = b, ctype = None\<rparr>"

definition bad :: "string \<Rightarrow> reply" where
  "bad err = mk 400 (''{\"error\":\"'' @ err @ ''\"}'')"

definition not_found :: reply where
  "not_found = mk 404 ''{\"error\":\"not found\"}''"

definition link_json :: "string \<Rightarrow> link \<Rightarrow> string" where
  "link_json b l =
     (let b = b @ ''{\"code\":\"'' @ l_code l @ ''\",\"url\":\"'' @
                concat (map (\<lambda>ch. if ch = DQ \<or> ch = BSL then [BSL, ch] else [ch]) (l_url l)) @ ''\",\"hits\":'';
          b = itoa b (l_hits l) @ '',\"created_at\":'';
          b = itoa b (l_created_at l) @ '',\"expires_at\":'';
          b = (if l_expires_at l \<noteq> 0 then itoa b (l_expires_at l) else b @ ''null'')
      in b @ ''}'')"

fun links_json :: "string \<Rightarrow> bool \<Rightarrow> link list \<Rightarrow> string" where
  "links_json b first [] = b"
| "links_json b first (l # ls) = links_json (link_json (if first then b else b @ '','') l) False ls"

fun codes_json :: "string \<Rightarrow> bool \<Rightarrow> string list \<Rightarrow> string" where
  "codes_json b first [] = b"
| "codes_json b first (c # cs) = codes_json ((if first then b else b @ '','') @ ''\"'' @ c @ ''\"'') False cs"

subsection \<open>Query strings\<close>

definition hv :: "char \<Rightarrow> nat option" where
  "hv c = (case digit_val c of Some d \<Rightarrow> if d < 16 then Some d else None | None \<Rightarrow> None)"

fun url_decode :: "string \<Rightarrow> string" where
  "url_decode [] = []"
| "url_decode (c # s) =
     (case (if c = CHR ''%'' \<and> 2 \<le> length s then (hv (s ! 0), hv (s ! 1)) else (None, None)) of
        (Some hi, Some lo) \<Rightarrow> char_of (hi * 16 + lo) # url_decode (drop 2 s)
      | _ \<Rightarrow> (if c = CHR ''+'' then CHR '' '' else c) # url_decode s)"

function parse_query_from :: "(string, string) umap \<Rightarrow> string \<Rightarrow> (string, string) umap" where
  "parse_query_from m q =
     (if q = [] then m
      else
        (let kv = takeWhile (\<lambda>c. c \<noteq> CHR ''&'') q;
             m = (case chr_find CHR ''='' kv of
                    Some eq \<Rightarrow> um_put (url_decode (take eq kv)) (url_decode (drop (eq + 1) kv)) m
                  | None \<Rightarrow> m)
         in parse_query_from m (drop (length kv + 1) q)))"
  by pat_completeness auto
termination
  by (relation "measure (\<lambda>(m, q). length q)") auto

declare parse_query_from.simps [simp del]

definition parse_query :: "string \<Rightarrow> (string, string) umap" where
  "parse_query q = parse_query_from [] q"

subsection \<open>Creating links\<close>

definition created :: "string \<Rightarrow> reply" where
  "created code = mk 201 (''{\"code\":\"'' @ code @ ''\",\"short_url\":\"/'' @ code @ ''\"}'')"

text \<open>The alias and the lifetime of a request; \<open>Inl\<close> is the reply that refuses it.\<close>

definition req_alias :: "J \<Rightarrow> reply + string option" where
  "req_alias p =
     (case j_find ''alias'' p of
        Some (J_STR a) \<Rightarrow> if code_ok a then Inr (Some a) else Inl (bad ''invalid alias'')
      | _ \<Rightarrow> Inr None)"

definition req_ttl :: "environ \<Rightarrow> J \<Rightarrow> (fault + reply) + i64" where
  "req_ttl env p =
     (case j_find ''ttl_ms'' p of
        None \<Rightarrow> Inr (link_ttl_ms env)
      | Some (J_NUM x) \<Rightarrow>
          if dle x (Fin 0) then Inl (Inr (bad ''invalid ttl_ms''))
          else (case to_i64 x of
                  None \<Rightarrow> Inl (Inl Undefined)
                | Some t \<Rightarrow> Inr (min t (link_ttl_ms env)))
      | Some _ \<Rightarrow> Inl (Inr (bad ''invalid ttl_ms'')))"

definition shorten_one :: "'s store_ops \<Rightarrow> environ \<Rightarrow> J \<Rightarrow> 's world \<Rightarrow> fault + reply \<times> 's world" where
  "shorten_one ops env p w =
     (case j_find ''url'' p of
        Some (J_STR url) \<Rightarrow>
          if \<not> is_valid_url url then Inr (bad ''invalid url'', w)
          else
            (case req_alias p of
               Inl r \<Rightarrow> Inr (r, w)
             | Inr al \<Rightarrow>
                 (case req_ttl env p of
                    Inl (Inl f) \<Rightarrow> Inl f
                  | Inl (Inr r) \<Rightarrow> Inr (r, w)
                  | Inr ttl \<Rightarrow>
                      (case so_shorten ops url al ttl (the_store w) of
                         None \<Rightarrow> Inl Loops
                       | Some (None, s) \<Rightarrow> Inr (mk 409 ''{\"error\":\"alias taken\"}'', w\<lparr>the_store := s\<rparr>)
                       | Some (Some code, s) \<Rightarrow> Inr (created code, w\<lparr>the_store := s\<rparr>))))
      | _ \<Rightarrow> Inr (bad ''invalid url'', w))"

definition bulk_msg :: string where
  "bulk_msg = ''urls must be 1-'' @ to_string (int MAX_BULK_URLS) @ '' valid http(s) urls''"

fun bulk_urls :: "J list \<Rightarrow> string list option" where
  "bulk_urls [] = Some []"
| "bulk_urls (j # js) =
     (case j of
        J_STR u \<Rightarrow> if ok_bulk_url u then map_option ((#) u) (bulk_urls js) else None
      | _ \<Rightarrow> None)"

definition shorten_bulk :: "'s store_ops \<Rightarrow> environ \<Rightarrow> J \<Rightarrow> 's world \<Rightarrow> fault + reply \<times> 's world" where
  "shorten_bulk ops env p w =
     (case j_find ''urls'' p of
        Some (J_ARR js) \<Rightarrow>
          if js = [] \<or> MAX_BULK_URLS < length js then Inr (bad bulk_msg, w)
          else
            (case bulk_urls js of
               None \<Rightarrow> Inr (bad bulk_msg, w)
             | Some us \<Rightarrow>
                 (case so_shorten_many ops us (link_ttl_ms env) (the_store w) of
                    None \<Rightarrow> Inl Loops
                  | Some (codes, s) \<Rightarrow>
                      (let b = itoa ''{\"count\":'' (int (length codes)) @ '',\"codes\":['';
                           b = codes_json b True codes
                       in Inr (mk 201 (b @ '']}''), w\<lparr>the_store := s\<rparr>))))
      | _ \<Rightarrow> Inr (bad bulk_msg, w))"

subsection \<open>Routing\<close>

definition list_reply :: "'s store_ops \<Rightarrow> string \<Rightarrow> 's world \<Rightarrow> reply \<times> 's world" where
  "list_reply ops query w =
     (let p = parse_query query;
          limit = (case um_find p ''limit'' of Some v \<Rightarrow> let n = strtoll v in if n \<noteq> 0 then n else 50 | None \<Rightarrow> 50);
          limit = max 1 (min MAX_LIST_LIMIT limit);
          offset = (case um_find p ''offset'' of Some v \<Rightarrow> let n = strtoll v in if 0 < n then n else 0 | None \<Rightarrow> 0);
          ord = (if um_find p ''sort'' = Some ''hits'' then ''hits'' else ''created'');
          q = um_get [] p ''q'';
          ((links, total), s) = so_list ops (nat limit) (nat offset) ord q (the_store w);
          b = links_json ''{\"links\":['' True links @ ''],\"total\":'';
          b = itoa b (int total) @ ''}''
      in (mk 200 b, w\<lparr>the_store := s\<rparr>))"

definition redirect :: "string \<Rightarrow> reply" where
  "redirect target = \<lparr>status = 302, location = Some target, body = [], ctype = None\<rparr>"

text \<open>\<^verbatim>\<open>substr(1)\<close> of an empty path throws \<^verbatim>\<open>std::out_of_range\<close>.\<close>

definition route_get ::
  "'s store_ops \<Rightarrow> string \<Rightarrow> (nat \<Rightarrow> i64) \<Rightarrow> string \<Rightarrow> string \<Rightarrow> 's world \<Rightarrow> fault + reply \<times> 's world"
where
  "route_get ops html clk pathname query w =
     (if pathname = ''/api/health'' then
        (let w = metrics_op OP_HEALTH w; (up, s) = so_healthy ops (the_store w)
         in Inr (if up then mk 200 ''{\"ok\":true}'' else mk 503 ''{\"ok\":false}'', w\<lparr>the_store := s\<rparr>))
      else if pathname = ''/api/metrics'' then
        (let w = metrics_op OP_METRICS w in Inr (mk 200 (snapshot (clk 1) (clk 2) (mets w)), w))
      else if pathname = ''/metrics'' then
        (let w = metrics_op OP_METRICS w
         in Inr ((mk 200 (prometheus (sint (rate_limited w)) (so_links ops (the_store w)) (clk 1) (so_mets ops (the_store w) (mets w))))
               \<lparr>ctype := Some ''text/plain; version=0.0.4''\<rparr>, w))
      else if pathname = ''/'' then
        (let w = metrics_op OP_UI w
         in Inr (if html = [] then not_found else (mk 200 html)\<lparr>ctype := Some ''text/html; charset=utf-8''\<rparr>, w))
      else if pathname = ''/api/links'' then Inr (list_reply ops query (metrics_op OP_LIST w))
      else if starts_with pathname ''/api/stats/'' then
        (let w = metrics_op OP_STATS w; (l, s) = so_stats ops (drop 11 pathname) (the_store w)
         in Inr (case l of None \<Rightarrow> not_found | Some l \<Rightarrow> mk 200 (link_json [] l), w\<lparr>the_store := s\<rparr>))
      else if pathname = [] then Inl Uncaught
      else
        (let code = drop 1 pathname
         in if code_ok code then
              (let w = metrics_op OP_REDIRECT w; (target, s) = so_resolve ops code (the_store w)
               in Inr (case target of Some t \<Rightarrow> redirect t | None \<Rightarrow> not_found, w\<lparr>the_store := s\<rparr>))
            else Inr (not_found, w)))"

definition bulk_cost :: "string \<Rightarrow> J \<Rightarrow> dbl" where
  "bulk_cost pathname p =
     (if pathname = ''/api/shorten/bulk'' then
        (case j_find ''urls'' p of Some (J_ARR js) \<Rightarrow> dmax (Fin 1) (of_i64 (int (length js))) | _ \<Rightarrow> Fin 1)
      else Fin 1)"

definition route_post ::
  "'s store_ops \<Rightarrow> environ \<Rightarrow> (nat \<Rightarrow> i64) \<Rightarrow> string \<Rightarrow> string \<Rightarrow> string \<Rightarrow> 's world \<Rightarrow> fault + reply \<times> 's world"
where
  "route_post ops env clk pathname bdy client w =
     (if pathname \<noteq> ''/api/shorten'' \<and> pathname \<noteq> ''/api/shorten/bulk'' then Inr (not_found, metrics_op OP_OTHER w)
      else
        (case jparse bdy of
           None \<Rightarrow> Inr (bad ''invalid json'', w)
         | Some p \<Rightarrow>
             (let (allowed, rl) = allow (clk 1) client (bulk_cost pathname p) (limit_of w);
                  w = w\<lparr>limit_of := rl\<rparr>
              in if \<not> allowed then
                   Inr (mk 429 ''{\"error\":\"rate limited\"}'',
                        metrics_op OP_OTHER (w\<lparr>rate_limited := rate_limited w + 1\<rparr>))
                 else if pathname = ''/api/shorten'' then shorten_one ops env p (metrics_op OP_SHORTEN w)
                 else shorten_bulk ops env p (metrics_op OP_BULK w))))"

definition mut_reply :: "reply \<Rightarrow> mut_result \<Rightarrow> reply" where
  "mut_reply ok r =
     (case r of
        Ok \<Rightarrow> ok
      | Missing \<Rightarrow> not_found
      | Remote \<Rightarrow> mk 409 ''{\"error\":\"owned by another instance\"}'')"

definition no_content :: reply where
  "no_content = \<lparr>status = 204, location = None, body = [], ctype = None\<rparr>"

text \<open>The lifetime a change asks for: none, or one given in milliseconds.\<close>

definition patch_ttl :: "environ \<Rightarrow> J \<Rightarrow> fault + i64 \<times> bool" where
  "patch_ttl env p =
     (case j_find ''ttl_ms'' p of
        Some (J_NUM x) \<Rightarrow>
          (case to_i64 x of None \<Rightarrow> Inl Undefined | Some t \<Rightarrow> Inr (min t (link_ttl_ms env), True))
      | _ \<Rightarrow> Inr (0, False))"

definition route_mutate ::
  "'s store_ops \<Rightarrow> environ \<Rightarrow> string \<Rightarrow> string \<Rightarrow> string \<Rightarrow> string \<Rightarrow> 's world \<Rightarrow> fault + reply \<times> 's world"
where
  "route_mutate ops env mthd pathname bdy admin_token w =
     (if \<not> starts_with pathname ''/api/links/'' \<or> \<not> admin_ok env admin_token then Inr (not_found, w)
      else
        (let code = drop 11 pathname
         in if \<not> code_ok code then Inr (bad ''invalid code'', w)
            else if mthd = ''DELETE'' then
              (let w = metrics_op OP_DELETE w; (r, s) = so_remove ops code (the_store w)
               in Inr (mut_reply no_content r, w\<lparr>the_store := s\<rparr>))
            else
              (case jparse bdy of
                 None \<Rightarrow> Inr (bad ''invalid json'', w)
               | Some p \<Rightarrow>
                   (case j_find ''url'' p of
                      None \<Rightarrow> Inr (bad ''nothing to update'', w)
                    | Some u \<Rightarrow>
                        (case u of
                           J_STR url \<Rightarrow>
                             if \<not> is_valid_url url then Inr (bad ''invalid url'', w)
                             else
                               (case patch_ttl env p of
                                  Inl f \<Rightarrow> Inl f
                                | Inr (ttl, has_ttl) \<Rightarrow>
                                    (let w = metrics_op OP_UPDATE w;
                                         (r, s) = so_update ops code url ttl has_ttl (the_store w)
                                     in Inr (mut_reply (mk 200 ''{\"ok\":true}'') r, w\<lparr>the_store := s\<rparr>)))
                         | _ \<Rightarrow> Inr (bad ''invalid url'', w))))))"

definition route ::
  "'s store_ops \<Rightarrow> environ \<Rightarrow> string \<Rightarrow> (nat \<Rightarrow> i64) \<Rightarrow> string \<Rightarrow> string \<Rightarrow> string \<Rightarrow> string \<Rightarrow> string \<Rightarrow> 's world \<Rightarrow>
     fault + reply \<times> 's world"
where
  "route ops env html clk mthd path bdy admin_token client w =
     (let pathname = takeWhile (\<lambda>c. c \<noteq> CHR ''?'') path;
          query = drop (length pathname + 1) path;
          w = w\<lparr>mets := tick (clk 0) (mets w)\<rparr>
      in if mthd = ''OPTIONS'' then Inr (no_content, w)
         else if mthd = ''GET'' then route_get ops html clk pathname query w
         else if mthd = ''POST'' then route_post ops env clk pathname bdy client w
         else if mthd = ''PATCH'' \<or> mthd = ''DELETE'' then route_mutate ops env mthd pathname bdy admin_token w
         else Inr (not_found, w))"

definition handle ::
  "'s store_ops \<Rightarrow> environ \<Rightarrow> string \<Rightarrow> (nat \<Rightarrow> i64) \<Rightarrow> string \<Rightarrow> string \<Rightarrow> string \<Rightarrow> string \<Rightarrow> string \<Rightarrow> 's world \<Rightarrow>
     fault + reply \<times> 's world"
where
  "handle ops env html clk mthd path bdy admin_token client w =
     (case route ops env html clk mthd path bdy admin_token client w of
        Inl f \<Rightarrow> Inl f
      | Inr (r, w) \<Rightarrow> Inr (r, w\<lparr>mets := count_status (status r) (mets w)\<rparr>))"

section \<open>What the handler relies on\<close>

text \<open>A web address as the validation leaves it: one of the two schemes and a bounded length.\<close>

definition web_url :: "string \<Rightarrow> bool" where
  "web_url u \<longleftrightarrow> (starts_with u ''http://'' \<or> starts_with u ''https://'') \<and> length u \<le> 2048"

definition urls_ok :: "(string \<Rightarrow> (string \<times> i64) option) \<Rightarrow> bool" where
  "urls_ok v \<longleftrightarrow> (\<forall>c u ex. v c = Some (u, ex) \<longrightarrow> web_url u)"

lemma store_metrics_op [simp]: "the_store (metrics_op i w) = the_store w" "limit_of (metrics_op i w) = limit_of w"
  by (simp_all add: metrics_op_def)

lemma url_rest_append:
  assumes "url_rest s = Some r" and "r \<noteq> []"
  shows "url_rest (s @ y) = Some (r @ y)"
  using assms by (auto simp: url_rest_def prefix_def split: if_splits)

text \<open>Only the host is looked at: what follows the slash after it may be anything.\<close>

lemma is_valid_url_path:
  assumes "is_valid_url (v @ ''/'')" and "length (v @ ''/'' @ y) \<le> 2048"
  shows "is_valid_url (v @ ''/'' @ y)"
proof -
  let ?h = "takeWhile (\<lambda>c. c \<noteq> CHR ''/'' \<and> c \<noteq> CHR ''?'' \<and> c \<noteq> CHR ''#'')"
  obtain r where r: "url_rest (v @ ''/'') = Some r" "?h r \<noteq> []"
    using assms(1) by (auto simp: is_valid_url_def Let_def split: option.splits)
  then have n: "r \<noteq> []" by auto
  obtain k where k: "r = drop k (v @ ''/'')" using r(1) by (auto simp: url_rest_def split: if_splits)
  then have "last r = last (v @ ''/'')" using n by (metis last_drop drop_all not_less)
  then have "last r = CHR ''/''" by simp
  then have "CHR ''/'' \<in> set r" using last_in_set [OF n] by simp
  then have "?h (r @ y) = ?h r" by (rule takeWhile_append1) simp
  then show ?thesis using assms r(1) url_rest_append [OF r(1) n, of y] by (simp add: is_valid_url_def Let_def)
qed

lemma is_valid_url_web: "is_valid_url u \<Longrightarrow> web_url u"
  by (auto simp: is_valid_url_def url_rest_def web_url_def split: option.splits if_splits)

lemma bulk_urls_web: "bulk_urls js = Some us \<Longrightarrow> list_all web_url us \<and> length us = length js"
  by (induction js arbitrary: us) (auto simp: ok_bulk_url_def web_url_def split: J.splits if_splits)

lemma urls_ok_put: "urls_ok v \<Longrightarrow> web_url u \<Longrightarrow> urls_ok (v(c \<mapsto> (u, ex)))"
  by (simp add: urls_ok_def)

lemma urls_ok_zip: "urls_ok v \<Longrightarrow> list_all web_url us \<Longrightarrow> urls_ok (v ++ map_of (zip cs (map (\<lambda>u. (u, ex)) us)))"
  by (fastforce simp: urls_ok_def list_all_iff map_add_def split: option.splits dest!: map_of_SomeD set_zip_rightD)

text \<open>
  The promises of a store to the handler, over what it knows of a code: URL and expiry. \<open>ops clk\<close>
  are the methods at the given readings of the clock.
\<close>

locale link_store =
  fixes ops :: "(nat \<Rightarrow> i64) \<Rightarrow> 's store_ops"
    and view :: "'s \<Rightarrow> string \<Rightarrow> (string \<times> i64) option"
  assumes shorten_made: "so_shorten (ops clk) u al ttl s = Some (Some c, s') \<Longrightarrow>
      view s c = None \<and> view s' = (view s)(c \<mapsto> (u, if 0 < ttl then add64 (clk 0) ttl else 0)) \<and> (\<forall>x. al = Some x \<longrightarrow> c = x)"
    and shorten_refused: "so_shorten (ops clk) u al ttl s = Some (None, s') \<Longrightarrow> s' = s"
    and shorten_many_made: "so_shorten_many (ops clk) us ttl s = Some (codes, s') \<Longrightarrow>
      length codes = length us \<and> distinct codes \<and> list_all (\<lambda>c. view s c = None) codes \<and>
      view s' = view s ++ map_of (zip codes (map (\<lambda>u. (u, if 0 < ttl then add64 (clk 0) ttl else 0)) us))"
    and update_done: "so_update (ops clk) c u ttl has s = (r, s') \<Longrightarrow>
      (if r = Ok then \<exists>x. view s' = (view s)(c \<mapsto> (u, x)) else s' = s)"
    and remove_done: "so_remove (ops clk) c s = (r, s') \<Longrightarrow> (if r = Ok then view s' = (view s)(c := None) else s' = s)"
    and resolve_known: "view s c = Some (u, ex) \<Longrightarrow>
      fst (so_resolve (ops clk) c s) = (if ex = 0 \<or> clk 0 < ex then Some u else None) \<and>
      view (snd (so_resolve (ops clk) c s)) = view s"
    and resolve_answer: "so_resolve (ops clk) c s = (Some u, s') \<Longrightarrow> \<exists>ex. view s' c = Some (u, ex)"
    and reads_keep: "snd (so_healthy (ops clk) s) = s" "snd (so_list (ops clk) l k ord q s) = s"
      "snd (so_stats (ops clk) c s) = s"
begin

lemma shorten_one_cases:
  assumes "shorten_one (ops clk) env p w = Inr (r, w')"
  obtains (made) url al ttl c where "r = created c" "j_find ''url'' p = Some (J_STR url)" "is_valid_url url"
      "so_shorten (ops clk) url al ttl (the_store w) = Some (Some c, the_store w')" "req_alias p = Inr al" "req_ttl env p = Inr ttl"
    | (refused) "the_store w' = the_store w" "status r = 400 \<or> status r = 409"
  using assms shorten_refused
  by (auto simp: shorten_one_def req_ttl_def req_alias_def bad_def mk_def
      split: option.splits J.splits if_splits sum.splits)

lemma shorten_bulk_cases:
  assumes "shorten_bulk (ops clk) env p w = Inr (r, w')"
  obtains (made) us codes where "status r = 201" "list_all web_url us"
      "so_shorten_many (ops clk) us (link_ttl_ms env) (the_store w) = Some (codes, the_store w')"
    | (refused) "the_store w' = the_store w" "status r = 400"
proof (cases "\<exists>us codes. so_shorten_many (ops clk) us (link_ttl_ms env) (the_store w) = Some (codes, the_store w') \<and>
    list_all web_url us \<and> status r = 201")
  case True
  then show ?thesis using made by blast
next
  case False
  then have "the_store w' = the_store w \<and> status r = 400"
    using assms by (auto simp: shorten_bulk_def bad_def mk_def Let_def split: option.splits J.splits if_splits dest: bulk_urls_web)
  then show ?thesis using refused by blast
qed

lemma many_keeps_known:
  assumes "so_shorten_many (ops clk) us ttl s = Some (codes, s')" and "view s c = Some v"
  shows "view s' c = Some v"
proof -
  note f = shorten_many_made [OF assms(1)]
  then have "c \<notin> set codes" using assms(2) by (auto simp: list_all_iff)
  let ?m = "map_of (zip codes (map (\<lambda>u. (u, if 0 < ttl then add64 (clk 0) ttl else 0)) us))"
  have "?m c = None" using \<open>c \<notin> set codes\<close> by (metis map_of_SomeD not_None_eq set_zip_leftD)
  moreover have "view s' = view s ++ ?m" using f by blast
  ultimately show ?thesis using assms(2) by (simp only: map_add_def option.case)
qed

lemma route_post_calls:
  assumes "route_post (ops clk) env ck pathname bdy client w = Inr (r, w')"
  obtains (quiet) "the_store w' = the_store w" "status r \<in> {400, 404, 409, 429}"
    | (one) url al ttl c where "r = created c" "is_valid_url url" "pred_option code_ok al"
        "so_shorten (ops clk) url al ttl (the_store w) = Some (Some c, the_store w')"
    | (bulk) us codes where "status r = 201" "list_all web_url us"
        "so_shorten_many (ops clk) us (link_ttl_ms env) (the_store w) = Some (codes, the_store w')"
proof (cases "(pathname = ''/api/shorten'' \<or> pathname = ''/api/shorten/bulk'') \<and> jparse bdy \<noteq> None")
  case True
  then obtain p where p: "jparse bdy = Some p" by auto
  obtain ok rl where rl: "allow (ck 1) client (bulk_cost pathname p) (limit_of w) = (ok, rl)"
    by (cases "allow (ck 1) client (bulk_cost pathname p) (limit_of w)")
  let ?x = "metrics_op (if pathname = ''/api/shorten'' then OP_SHORTEN else OP_BULK) (w\<lparr>limit_of := rl\<rparr>)"
  have x: "the_store ?x = the_store w" by simp
  show ?thesis
  proof (cases ok)
    case ok: True
    have calls: "(if pathname = ''/api/shorten'' then shorten_one (ops clk) env p ?x else shorten_bulk (ops clk) env p ?x) = Inr (r, w')"
      using assms True p rl ok by (auto simp: route_post_def split: if_splits)
    show ?thesis
    proof (cases "pathname = ''/api/shorten''")
      case True
      then have "shorten_one (ops clk) env p ?x = Inr (r, w')" using calls by simp
      then show ?thesis
      proof (cases rule: shorten_one_cases)
        case (made url al ttl c)
        moreover have "pred_option code_ok al" using made(5) by (auto simp: req_alias_def split: option.splits J.splits if_splits)
        ultimately show ?thesis using one x by metis
      qed (use x quiet in auto)
    next
      case False
      then have "shorten_bulk (ops clk) env p ?x = Inr (r, w')" using calls by simp
      then show ?thesis
      proof (cases rule: shorten_bulk_cases)
        case (made us codes)
        then show ?thesis using bulk x by metis
      qed (use x quiet in auto)
    qed
  next
    case False
    then have "the_store w' = the_store w \<and> status r = 429" using assms True p rl by (auto simp: route_post_def mk_def)
    then show ?thesis using quiet by simp
  qed
next
  case False
  then have "the_store w' = the_store w \<and> status r \<in> {400, 404}"
    using assms by (auto simp: route_post_def not_found_def bad_def mk_def split: option.splits if_splits)
  then show ?thesis using quiet by blast
qed

lemma route_post_cases:
  assumes "route_post (ops clk) env ck pathname bdy client w = Inr (r, w')"
  shows "status r \<in> {201, 400, 404, 409, 429}"
    "status r \<noteq> 201 \<Longrightarrow> the_store w' = the_store w"
    "urls_ok (view (the_store w)) \<Longrightarrow> urls_ok (view (the_store w'))"
    "view (the_store w) c = Some v \<Longrightarrow> view (the_store w') c = Some v"
proof -
  have "status r \<in> {201, 400, 404, 409, 429} \<and> (status r \<noteq> 201 \<longrightarrow> the_store w' = the_store w) \<and>
      (urls_ok (view (the_store w)) \<longrightarrow> urls_ok (view (the_store w'))) \<and>
      (view (the_store w) c = Some v \<longrightarrow> view (the_store w') c = Some v)"
    using assms
  proof (cases rule: route_post_calls)
    case (one url al ttl x)
    then show ?thesis using shorten_made [OF one(4)] by (auto simp: created_def mk_def intro: urls_ok_put is_valid_url_web)
  next
    case (bulk us codes)
    then show ?thesis using shorten_many_made [OF bulk(3)] many_keeps_known [OF bulk(3)] by (auto intro: urls_ok_zip)
  qed auto
  then show "status r \<in> {201, 400, 404, 409, 429}" "status r \<noteq> 201 \<Longrightarrow> the_store w' = the_store w"
    "urls_ok (view (the_store w)) \<Longrightarrow> urls_ok (view (the_store w'))"
    "view (the_store w) c = Some v \<Longrightarrow> view (the_store w') c = Some v" by blast+
qed

lemma route_mutate_calls:
  assumes "route_mutate (ops clk) env mthd pathname bdy token w = Inr (r, w')"
  obtains (quiet) "the_store w' = the_store w" "status r \<in> {400, 404}" "location r = None"
    | (del) m where "so_remove (ops clk) (drop 11 pathname) (the_store w) = (m, the_store w')" "r = mut_reply no_content m"
        "admin_ok env token"
    | (upd) m u ttl has where "so_update (ops clk) (drop 11 pathname) u ttl has (the_store w) = (m, the_store w')"
        "r = mut_reply (mk 200 ''{\"ok\":true}'') m" "is_valid_url u" "admin_ok env token"
proof (cases "starts_with pathname ''/api/links/'' \<and> admin_ok env token \<and> code_ok (drop 11 pathname)")
  case True
  let ?c = "drop 11 pathname"
  show ?thesis
  proof (cases "mthd = ''DELETE''")
    case dele: True
    obtain m s where m: "so_remove (ops clk) ?c (the_store w) = (m, s)" by (cases "so_remove (ops clk) ?c (the_store w)")
    then have "the_store w' = s \<and> r = mut_reply no_content m" using assms True dele by (auto simp: route_mutate_def Let_def)
    then show ?thesis using m True del by blast
  next
    case False
    show ?thesis
    proof (cases "\<exists>p u. jparse bdy = Some p \<and> j_find ''url'' p = Some (J_STR u) \<and> is_valid_url u")
      case u: True
      then obtain p u where p: "jparse bdy = Some p" "j_find ''url'' p = Some (J_STR u)" "is_valid_url u" by blast
      obtain ttl has where t: "patch_ttl env p = Inr (ttl, has)"
        using assms True False p by (auto simp: route_mutate_def split: sum.splits)
      obtain m s where m: "so_update (ops clk) ?c u ttl has (the_store w) = (m, s)"
        by (cases "so_update (ops clk) ?c u ttl has (the_store w)")
      then have "the_store w' = s \<and> r = mut_reply (mk 200 ''{\"ok\":true}'') m"
        using assms True False p t by (auto simp: route_mutate_def Let_def)
      then show ?thesis using m p(3) True upd by blast
    next
      case no: False
      then have "the_store w' = the_store w \<and> status r = 400 \<and> location r = None" using assms True False
        by (auto simp: route_mutate_def bad_def mk_def split: option.splits J.splits if_splits)
      then show ?thesis using quiet by simp
    qed
  qed
next
  case False
  then have "the_store w' = the_store w \<and> status r \<in> {400, 404} \<and> location r = None"
    using assms by (auto simp: route_mutate_def not_found_def bad_def mk_def Let_def split: if_splits)
  then show ?thesis using quiet by blast
qed

lemma route_mutate_cases:
  assumes "route_mutate (ops clk) env mthd pathname bdy token w = Inr (r, w')"
  shows "status r \<in> {200, 204, 400, 404, 409}"
    "400 \<le> status r \<Longrightarrow> the_store w' = the_store w"
    "urls_ok (view (the_store w)) \<Longrightarrow> urls_ok (view (the_store w'))"
    "\<not> admin_ok env token \<Longrightarrow> the_store w' = the_store w"
proof -
  have st: "status (mut_reply ok m) = (case m of Ok \<Rightarrow> status ok | Missing \<Rightarrow> 404 | Remote \<Rightarrow> 409)" for ok m
    by (cases m) (simp_all add: mut_reply_def not_found_def mk_def)
  have "status r \<in> {200, 204, 400, 404, 409} \<and> (400 \<le> status r \<longrightarrow> the_store w' = the_store w) \<and>
      (urls_ok (view (the_store w)) \<longrightarrow> urls_ok (view (the_store w'))) \<and>
      (\<not> admin_ok env token \<longrightarrow> the_store w' = the_store w)"
    using assms
  proof (cases rule: route_mutate_calls)
    case (del m)
    then show ?thesis using remove_done [OF del(1)] by (cases m) (auto simp: st no_content_def urls_ok_def)
  next
    case (upd m u ttl has)
    then show ?thesis using update_done [OF upd(1)]
      by (cases m) (auto simp: st mk_def urls_ok_put is_valid_url_web)
  qed auto
  then show "status r \<in> {200, 204, 400, 404, 409}" "400 \<le> status r \<Longrightarrow> the_store w' = the_store w"
    "urls_ok (view (the_store w)) \<Longrightarrow> urls_ok (view (the_store w'))"
    "\<not> admin_ok env token \<Longrightarrow> the_store w' = the_store w" by blast+
qed

lemma route_get_calls:
  assumes "route_get (ops clk) html ck pathname query w = Inr (r, w')"
  obtains (quiet) "the_store w' = the_store w" "location r = None"
    | (lookup) "so_resolve (ops clk) (drop 1 pathname) (the_store w) = (location r, the_store w')"
proof -
  let ?P = "\<lambda>x. case x of Inl f \<Rightarrow> True | Inr (r, v) \<Rightarrow> (the_store v = the_store w \<and> location r = None) \<or>
    so_resolve (ops clk) (drop 1 pathname) (the_store w) = (location r, the_store v)"
  have if_both: "?P x \<Longrightarrow> ?P y \<Longrightarrow> ?P (if b then x else y)" for b x y by simp
  have "?P (route_get (ops clk) html ck pathname query w)"
    unfolding route_get_def
  proof (intro if_both)
    have l: "so_list (ops clk) a b d e (the_store w) = (x, s) \<Longrightarrow> s = the_store w" for a b d e x s
      using reads_keep(2) [of clk a b d e "the_store w"] by simp
    show "?P (Inr (list_reply (ops clk) query (metrics_op OP_LIST w)))"
      by (auto simp: list_reply_def mk_def Let_def split: prod.split dest: l)
    show "?P (let w = metrics_op OP_HEALTH w; (up, s) = so_healthy (ops clk) (the_store w)
         in Inr (if up then mk 200 ''{\"ok\":true}'' else mk 503 ''{\"ok\":false}'', w\<lparr>the_store := s\<rparr>))"
      using reads_keep(1) [of clk "the_store w"] by (auto simp: mk_def Let_def split: prod.split)
    show "?P (let w = metrics_op OP_STATS w; (l, s) = so_stats (ops clk) (drop 11 pathname) (the_store w)
         in Inr (case l of None \<Rightarrow> not_found | Some l \<Rightarrow> mk 200 (link_json [] l), w\<lparr>the_store := s\<rparr>))"
      using reads_keep(3) [of clk "drop 11 pathname" "the_store w"]
      by (auto simp: mk_def not_found_def Let_def split: prod.split option.split)
    show "?P (let code = drop 1 pathname in if code_ok code then
        (let w = metrics_op OP_REDIRECT w; (target, s) = so_resolve (ops clk) code (the_store w)
         in Inr (case target of Some t \<Rightarrow> redirect t | None \<Rightarrow> not_found, w\<lparr>the_store := s\<rparr>)) else Inr (not_found, w))"
      by (simp add: redirect_def not_found_def mk_def Let_def split: prod.split option.split)
  qed (simp_all add: mk_def not_found_def Let_def)
  then show ?thesis using assms that by auto
qed

end

definition read_status :: "fault + reply \<times> 's world \<Rightarrow> bool" where
  "read_status p \<longleftrightarrow> (case p of Inl f \<Rightarrow> f = Uncaught | Inr x \<Rightarrow> status (fst x) \<in> {200, 302, 404, 503})"

lemma read_status_if: "read_status x \<Longrightarrow> read_status y \<Longrightarrow> read_status (if b then x else y)"
  by simp

lemma route_get_status: "read_status (route_get ops html clk pathname query w)"
  unfolding route_get_def
proof (intro read_status_if)
  show "read_status (Inr (list_reply ops query (metrics_op OP_LIST w)))"
    by (simp add: read_status_def list_reply_def mk_def Let_def split: prod.split)
  show "read_status (let code = drop 1 pathname in if code_ok code then
      (let w = metrics_op OP_REDIRECT w; (target, s) = so_resolve ops code (the_store w)
       in Inr (case target of Some t \<Rightarrow> redirect t | None \<Rightarrow> not_found, w\<lparr>the_store := s\<rparr>)) else Inr (not_found, w))"
    by (simp add: read_status_def redirect_def not_found_def mk_def Let_def split: prod.split option.split)
qed (simp_all add: read_status_def mk_def not_found_def Let_def split: prod.split option.split)

text \<open>A lookup with an empty path is the only request that throws.\<close>

lemma route_get_uncaught: "route_get ops html clk pathname query w = Inl f \<longleftrightarrow> pathname = [] \<and> f = Uncaught"
proof (cases "pathname = []")
  case True
  then show ?thesis by (auto simp: route_get_def)
next
  case False
  let ?P = "\<lambda>x :: fault + reply \<times> 'a world. isl x \<longrightarrow> pathname = []"
  have if_both: "(b \<Longrightarrow> ?P x) \<Longrightarrow> ?P y \<Longrightarrow> ?P (if b then x else y)" for b x y by simp
  have "?P (route_get ops html clk pathname query w)" unfolding route_get_def
    by (intro if_both) (simp_all add: False Let_def case_prod_beta)
  then show ?thesis using False by (auto simp: isl_def)
qed

lemma ttl_caught: "req_ttl env p \<noteq> Inl (Inl Uncaught)" "patch_ttl env p \<noteq> Inl Uncaught"
  by (auto simp: req_ttl_def patch_ttl_def split: option.splits J.splits if_splits)

lemma shorten_caught: "shorten_one ops env p x \<noteq> Inl Uncaught" "shorten_bulk ops env p x \<noteq> Inl Uncaught"
  using ttl_caught(1) [of env p]
  by (auto simp: shorten_one_def shorten_bulk_def Let_def split: option.splits J.splits if_splits sum.splits)

lemma route_post_caught: "route_post ops env clk pathname bdy client w \<noteq> Inl Uncaught"
  by (simp add: route_post_def Let_def shorten_caught split: option.split prod.split)

lemma route_mutate_caught: "route_mutate ops env mthd pathname bdy token w \<noteq> Inl Uncaught"
  using ttl_caught(2) [of env] by (auto simp: route_mutate_def Let_def case_prod_beta split: option.splits J.splits if_splits sum.splits)

lemma handle_uncaught:
  "handle ops env html clk mthd path bdy token client w = Inl Uncaught \<longleftrightarrow> mthd = ''GET'' \<and> (path = [] \<or> hd path = CHR ''?'')"
proof -
  let ?p = "takeWhile (\<lambda>c. c \<noteq> CHR ''?'') path"
  have "handle ops env html clk mthd path bdy token client w = Inl Uncaught \<longleftrightarrow> route ops env html clk mthd path bdy token client w = Inl Uncaught"
    by (simp add: handle_def split: sum.split prod.split)
  also have "\<dots> \<longleftrightarrow> mthd = ''GET'' \<and> ?p = []"
    by (simp add: route_def Let_def route_get_uncaught route_post_caught route_mutate_caught)
  also have "?p = [] \<longleftrightarrow> path = [] \<or> hd path = CHR ''?''" by (cases path) simp_all
  finally show ?thesis .
qed

end
