(* ===== verification/Service.thy ===== *)
theory Service
  imports App
begin

text \<open>
  The handler on the default engine: the engine keeps the promises the handler relies on, and what
  follows for whole requests, from the bytes of a body to the reply and the links behind it.
\<close>

section \<open>The methods of the default engine\<close>

definition aof_ops ::
  "os \<Rightarrow> environ \<Rightarrow> ((link \<Rightarrow> link \<Rightarrow> bool) \<Rightarrow> link list \<Rightarrow> link list) \<Rightarrow> (nat \<Rightarrow> i64) \<Rightarrow> proc store_ops"
where
  "aof_ops sys env srt ck =
     \<lparr>so_healthy = (\<lambda>s. (healthy s, s)),
      so_list = (\<lambda>limit offset ord q s. (list_links srt limit offset ord q s, s)),
      so_stats = (\<lambda>c s. (stats c s, s)),
      so_resolve = resolve env ck,
      so_shorten = shorten sys (ck 0),
      so_shorten_many = shorten_many sys (ck 0),
      so_update = update (ck 0),
      so_remove = remove,
      so_links = links_total,
      so_mets = (\<lambda>s m. m)\<rparr>"

definition aof_view :: "proc \<Rightarrow> string \<Rightarrow> (string \<times> i64) option" where
  "aof_view s c = map_option (\<lambda>e. (e_u e, e_e e)) (idx s c)"

lemma aof_view_upd: "idx s' = (idx s)(c \<mapsto> e) \<Longrightarrow> aof_view s' = (aof_view s)(c \<mapsto> (e_u e, e_e e))"
  by (simp add: aof_view_def fun_eq_iff)

lemma aof_view_rows: "aof_view s c = map_option (\<lambda>(u, a, e, i). (u, e)) (rows s c)"
  by (simp add: aof_view_def rows_at core_def option.map_comp comp_def)

lemma find_zip_map: "map_of (zip ks (map f xs)) k = map_option f (map_of (zip ks xs) k)"
  by (induction ks xs rule: list_induct2') auto

lemma Entry_fields [simp]: "e_u (Entry u a e i) = u" "e_e (Entry u a e i) = e"
  by (simp_all add: Entry_def)

lemma aof_resolve_answer:
  assumes "resolve env ck c s = (Some u, s')"
  shows "\<exists>ex. aof_view s' c = Some (u, ex)"
proof (cases "idx s c")
  case (Some e)
  then show ?thesis using assms by (auto simp: resolve_found idx_count_hit aof_view_def add_hits_def split: if_splits)
next
  case None
  then show ?thesis using assms
    by (auto simp: resolve_def Let_def idx_count_hit aof_view_def add_hits_def split: if_splits option.splits)
qed

interpretation aof: link_store "aof_ops sys env srt" aof_view for sys env srt
proof unfold_locales
  fix ck u al ttl s c s'
  assume "so_shorten (aof_ops sys env srt ck) u al ttl s = Some (Some c, s')"
  then have h: "shorten sys (ck 0) u al ttl s = Some (Some c, s')" by (simp add: aof_ops_def)
  note f = shorten_SomeD [OF h]
  show "aof_view s c = None \<and> aof_view s' = (aof_view s)(c \<mapsto> (u, if 0 < ttl then add64 (ck 0) ttl else 0)) \<and>
      (\<forall>x. al = Some x \<longrightarrow> c = x)"
    using f(1,4) aof_view_upd [OF f(2)] by (simp add: aof_view_def expiry_def)
next
  fix ck u al ttl s s'
  assume "so_shorten (aof_ops sys env srt ck) u al ttl s = Some (None, s')"
  then show "s' = s"
    by (auto simp: aof_ops_def shorten_def shorten_insert_def Let_def split: option.splits if_splits)
next
  fix ck us ttl s codes s'
  assume "so_shorten_many (aof_ops sys env srt ck) us ttl s = Some (codes, s')"
  then have h: "shorten_many sys (ck 0) us ttl s = Some (codes, s')" by (simp add: aof_ops_def)
  note f = shorten_manyD [OF h]
  let ?es = "map (\<lambda>u. Entry u (ck 0) (expiry (ck 0) ttl) (inst s)) us"
  let ?vs = "map (\<lambda>u. (u, expiry (ck 0) ttl)) us"
  have z: "map_of (zip codes ?vs) c = map_option (\<lambda>e. (e_u e, e_e e)) (map_of (zip codes ?es) c)" for c
    by (simp add: find_zip_map option.map_comp comp_def)
  have "aof_view s' c = (aof_view s ++ map_of (zip codes ?vs)) c" for c
    by (cases "map_of (zip codes ?es) c") (simp_all only: aof_view_def f(4) map_add_def z option.case option.map)
  then have "aof_view s' = aof_view s ++ map_of (zip codes ?vs)" by blast
  then show "length codes = length us \<and> distinct codes \<and> list_all (\<lambda>c. aof_view s c = None) codes \<and>
      aof_view s' = aof_view s ++ map_of (zip codes (map (\<lambda>u. (u, if 0 < ttl then add64 (ck 0) ttl else 0)) us))"
    using f(1-3) by (simp add: expiry_def list_all_iff aof_view_def)
next
  fix ck c u ttl has s r s'
  assume "so_update (aof_ops sys env srt ck) c u ttl has s = (r, s')"
  then have h: "update (ck 0) c u ttl has s = (r, s')" by (simp add: aof_ops_def)
  show "if r = Ok then \<exists>x. aof_view s' = (aof_view s)(c \<mapsto> (u, x)) else s' = s"
  proof (cases "\<exists>e. idx s c = Some e \<and> e_i e = inst s")
    case True
    then obtain e where e: "idx s c = Some e" "e_i e = inst s" by blast
    show ?thesis using update_own [OF e, of "ck 0" u ttl has] h aof_view_upd [of s' s c] by auto
  next
    case False
    then show ?thesis using update_other(1) [of s c "ck 0" u ttl has] update_other(2) [of s c _ "ck 0" u ttl has] h
      by (cases "idx s c") auto
  qed
next
  fix ck c s r s'
  assume "so_remove (aof_ops sys env srt ck) c s = (r, s')"
  then have h: "remove c s = (r, s')" by (simp add: aof_ops_def)
  show "if r = Ok then aof_view s' = (aof_view s)(c := None) else s' = s"
  proof (cases "\<exists>e. idx s c = Some e \<and> e_i e = inst s")
    case True
    then obtain e where e: "idx s c = Some e" "e_i e = inst s" by blast
    show ?thesis using remove_own [OF e] h by (auto simp: aof_view_def fun_eq_iff)
  next
    case False
    then show ?thesis using remove_other(1) [of s c] remove_other(2) [of s c] h by (cases "idx s c") auto
  qed
next
  fix s c u ex ck
  assume "aof_view s c = Some (u, ex)"
  then obtain e where e: "idx s c = Some e" "e_u e = u" "e_e e = ex" by (auto simp: aof_view_def)
  have "aof_view (count_hit env c e s) = aof_view s"
    using rows_count_hit [OF e(1)] by (simp add: aof_view_rows [abs_def])
  then show "fst (so_resolve (aof_ops sys env srt ck) c s) = (if ex = 0 \<or> ck 0 < ex then Some u else None) \<and>
      aof_view (snd (so_resolve (aof_ops sys env srt ck) c s)) = aof_view s"
    using e by (simp add: aof_ops_def resolve_found live_def)
next
  fix ck c s u s'
  assume "so_resolve (aof_ops sys env srt ck) c s = (Some u, s')"
  then show "\<exists>ex. aof_view s' c = Some (u, ex)" by (intro aof_resolve_answer) (simp add: aof_ops_def)
qed (simp_all add: aof_ops_def)

section \<open>What a request does to the engine\<close>

definition asked :: "string \<Rightarrow> string" where
  "asked path = drop 1 (takeWhile (\<lambda>c. c \<noteq> CHR ''?'') path)"

text \<open>All the lines of siblings that a request makes the engine read satisfy \<open>L\<close>.\<close>

definition reads_only :: "(string \<Rightarrow> bool) \<Rightarrow> (nat \<Rightarrow> i64) \<Rightarrow> string \<Rightarrow> string \<Rightarrow> proc \<Rightarrow> bool" where
  "reads_only L ck mthd path s \<longleftrightarrow> (mthd = ''GET'' \<longrightarrow> idx s (asked path) = None \<longrightarrow>
     list_all L (missed_lines (files (disk_of s)) (ck 1) (asked path) s))"

lemma code_ok_safe: "code_ok c \<Longrightarrow> log_safe c"
  by (auto simp: code_ok_def log_safe_def list_all_iff isalnum_def digit_val_def)

lemma handle_calls:
  assumes "handle (aof_ops sys env srt ck) env html clk mthd path bdy token client w = Inr (r, w')"
  obtains (quiet) "the_store w' = the_store w" "location r = None \<or> mthd \<noteq> ''GET''"
    | (lookup) "mthd = ''GET''" "resolve env ck (asked path) (the_store w) = (location r, the_store w')"
    | (one) url al ttl c where "mthd \<noteq> ''GET''" "r = created c" "is_valid_url url" "pred_option code_ok al"
        "shorten sys (ck 0) url al ttl (the_store w) = Some (Some c, the_store w')"
    | (bulk) us codes where "mthd \<noteq> ''GET''" "status r = 201" "list_all web_url us"
        "shorten_many sys (ck 0) us (link_ttl_ms env) (the_store w) = Some (codes, the_store w')"
    | (del) c where "mthd \<noteq> ''GET''" "admin_ok env token" "the_store w' = snd (remove c (the_store w))"
    | (upd) c url ttl has where "mthd \<noteq> ''GET''" "admin_ok env token" "is_valid_url url"
        "the_store w' = snd (update (ck 0) c url ttl has (the_store w))"
proof -
  let ?ops = "aof_ops sys env srt ck"
  let ?p = "takeWhile (\<lambda>c. c \<noteq> CHR ''?'') path" and ?w = "w\<lparr>mets := tick (clk 0) (mets w)\<rparr>"
  have so: "so_resolve ?ops = resolve env ck" "so_shorten ?ops = shorten sys (ck 0)"
    "so_shorten_many ?ops = shorten_many sys (ck 0)" "so_update ?ops = update (ck 0)" "so_remove ?ops = remove"
    by (simp_all add: aof_ops_def)
  have st: "the_store ?w = the_store w" by simp
  obtain w1 where r: "route ?ops env html clk mthd path bdy token client w = Inr (r, w1)" "the_store w1 = the_store w'"
    using assms by (auto simp: handle_def split: sum.splits prod.splits)
  consider (get) "mthd = ''GET''" "route_get ?ops html clk ?p (drop (length ?p + 1) path) ?w = Inr (r, w1)"
    | (post) "mthd = ''POST''" "route_post ?ops env clk ?p bdy client ?w = Inr (r, w1)"
    | (mut) "mthd = ''PATCH'' \<or> mthd = ''DELETE''" "route_mutate ?ops env mthd ?p bdy token ?w = Inr (r, w1)"
    | (other) "mthd \<noteq> ''GET''" "the_store w1 = the_store w"
    using r by (auto simp: route_def Let_def split: if_splits)
  then show ?thesis
  proof cases
    case get
    show ?thesis
    proof (rule aof.route_get_calls [OF get(2)])
      assume "so_resolve ?ops (drop 1 ?p) (the_store ?w) = (location r, the_store w1)"
      then show thesis using lookup get(1) r(2) by (simp add: so asked_def)
    qed (use quiet get(1) r(2) st in simp)
  next
    case post
    show ?thesis
    proof (rule aof.route_post_calls [OF post(2)])
      fix url al ttl c
      assume "r = created c" "is_valid_url url" "pred_option code_ok al"
        "so_shorten ?ops url al ttl (the_store ?w) = Some (Some c, the_store w1)"
      then show thesis using one [of c url al ttl] post(1) r(2) by (simp add: so)
    next
      fix us codes
      assume "status r = 201" "list_all web_url us"
        "so_shorten_many ?ops us (link_ttl_ms env) (the_store ?w) = Some (codes, the_store w1)"
      then show thesis using bulk [of us codes] post(1) r(2) by (simp add: so)
    qed (use quiet post(1) r(2) st in simp)
  next
    case mut
    show ?thesis
    proof (rule aof.route_mutate_calls [OF mut(2)])
      fix m
      assume a: "so_remove ?ops (drop 11 ?p) (the_store ?w) = (m, the_store w1)" "admin_ok env token"
      show thesis by (rule del [of "drop 11 ?p"]) (use a mut(1) r(2) in \<open>auto simp: so\<close>)
    next
      fix m u ttl has
      assume a: "so_update ?ops (drop 11 ?p) u ttl has (the_store ?w) = (m, the_store w1)" "is_valid_url u" "admin_ok env token"
      show thesis by (rule upd [of u "drop 11 ?p" ttl has]) (use a mut(1) r(2) in \<open>auto simp: so\<close>)
    qed (use quiet mut(1) r(2) st in auto)
  next
    case other
    then show ?thesis using quiet r(2) by simp
  qed
qed

text \<open>Every request is one step of the engine, or none.\<close>

lemma handle_steps:
  assumes "handle (aof_ops sys env srt ck) env html clk mthd path bdy token client w = Inr (r, w')" and "in_i64 (ck 0)"
    and "reads_only (foreign_line P) ck mthd path (the_store w)"
  shows "the_store w' = the_store w \<or> step sys env P (the_store w) (the_store w')"
  using assms(1)
proof (cases rule: handle_calls)
  case lookup
  have "step sys env P (the_store w) (snd (resolve env ck (asked path) (the_store w)))"
    by (rule step.resolve) (use assms(3) lookup(1) in \<open>simp add: reads_only_def\<close>)
  then show ?thesis using lookup by simp
next
  case (one url al ttl c)
  then have "\<And>x. al = Some x \<Longrightarrow> log_safe x" by (simp add: code_ok_safe)
  then show ?thesis using step.shorten [OF one(5) assms(2)] by blast
next
  case (bulk us codes)
  then show ?thesis using step.shorten_many [OF bulk(4) assms(2)] by blast
qed (auto intro: step.intros)

section \<open>A running service\<close>

text \<open>
  The background work of an engine and the writes of its siblings. \<open>L\<close> holds of every line that is
  read from a sibling.
\<close>

inductive work :: "os \<Rightarrow> (string \<Rightarrow> bool) \<Rightarrow> proc \<Rightarrow> proc \<Rightarrow> bool"
  for sys L where
  flush: "work sys L s (flush_public sys s)"
| sync: "work sys L s (with_aof (aof_sync sys) s)"
| compact: "work sys L s (compact sys s)"
| poll: "work sys L s (poll_tails now s)"
    if "list_all L (poll_lines (files (disk_of s)) (poll_set (files (disk_of s)) s))"
| elsewhere: "work sys L s (s\<lparr>disk_of := d'\<rparr>)"
    if "um_inv (files d')" and "um_find (files d') (own_log s) = um_find (files (disk_of s)) (own_log s)"
      and "um_find (files d') (own_snap s) = um_find (files (disk_of s)) (own_snap s)"

text \<open>Any number of requests, with tokens that \<open>T\<close> admits, interleaved with background work.\<close>

inductive serves :: "os \<Rightarrow> environ \<Rightarrow> (string \<Rightarrow> bool) \<Rightarrow> (string \<Rightarrow> bool) \<Rightarrow> proc world \<Rightarrow> proc world \<Rightarrow> bool"
  for sys env L T w where
  idle: "serves sys env L T w w"
| request: "serves sys env L T w w2"
    if "serves sys env L T w w1" and "handle (aof_ops sys env srt ck) env html clk mthd path bdy token client w1 = Inr (r, w2)"
      and "T token" and "in_i64 (ck 0)"
      and "reads_only L ck mthd path (the_store w1)"
| background: "serves sys env L T w (w1\<lparr>the_store := s\<rparr>)"
    if "serves sys env L T w w1" and "work sys L (the_store w1) s"

inductive_cases workE: "work sys L s s'"

lemma work_rows:
  assumes "work sys L s s'"
  shows "\<exists>ls. rows s' = fold abs_line ls (rows s) \<and> list_all L ls"
  using assms
proof (cases rule: work.cases)
  case (poll now)
  show ?thesis
  proof (cases "the_aof s = None")
    case True
    then show ?thesis using poll by (intro exI [of _ "[]"]) (simp add: poll_tails_def)
  next
    case False
    then show ?thesis using poll rows_poll_locked by (auto simp: poll_tails_def)
  qed
next
  case compact
  then have "rows s' = rows s" by (intro rows_eq_idx) (simp add: compact_def Let_def)
  then show ?thesis by (intro exI [of _ "[]"]) simp
next
  case flush
  then have "rows s' = rows s" by (intro rows_eq_idx) (simp add: flush_public_def)
  then show ?thesis by (intro exI [of _ "[]"]) simp
next
  case sync
  then have "rows s' = rows s" by (intro rows_eq_idx) simp
  then show ?thesis by (intro exI [of _ "[]"]) simp
next
  case (elsewhere d')
  then have "rows s' = rows s" by (intro rows_eq_idx) simp
  then show ?thesis by (intro exI [of _ "[]"]) simp
qed

lemma work_step: "work sys (foreign_line P) s s' \<Longrightarrow> step sys env P s s'"
  by (induction rule: work.induct) (auto intro: step.intros)

lemma serves_reach:
  assumes "serves sys env (foreign_line P) T w w'" and "reach sys env P (the_store w)"
  shows "reach sys env P (the_store w')"
  using assms
proof (induction rule: serves.induct)
  case (request w1 srt ck html clk mthd path bdy token client r w2)
  from handle_steps [where P = P, OF request(2,4)] request(5) request.IH [OF request.prems] show ?case
    by (auto intro: reach.stepped)
next
  case (background w1 s)
  then show ?case using work_step [OF background(2)] by (auto intro: reach.stepped)
qed

subsection \<open>Redirects\<close>

definition web_line :: "string \<Rightarrow> bool" where
  "web_line l \<longleftrightarrow> (case parse_op l of None \<Rightarrow> True | Some p \<Rightarrow> op_x p = [] \<longrightarrow> op_h p = [] \<longrightarrow> web_url (op_u p))"

definition web_rows :: "(string \<rightharpoonup> row) \<Rightarrow> bool" where
  "web_rows m \<longleftrightarrow> (\<forall>c. pred_option (\<lambda>(u, a, e, i). web_url u) (m c))"

lemma web_rows_line: "web_line l \<Longrightarrow> web_rows m \<Longrightarrow> web_rows (abs_line l m)"
  by (auto simp: web_line_def web_rows_def abs_line_def abs_op_def split: option.splits)

lemma web_rows_lines: "list_all web_line ls \<Longrightarrow> web_rows m \<Longrightarrow> web_rows (fold abs_line ls m)"
  by (induction ls arbitrary: m) (auto simp: web_rows_line)

lemma urls_ok_rows: "urls_ok (aof_view s) \<longleftrightarrow> web_rows (rows s)"
proof
  assume "urls_ok (aof_view s)"
  then show "web_rows (rows s)" by (fastforce simp: urls_ok_def web_rows_def aof_view_rows pred_option_def)
next
  assume w: "web_rows (rows s)"
  have "web_url u" if "rows s c = Some (u, a, e, i)" for c u a e i
    using w [unfolded web_rows_def, rule_format, of c] that by simp
  then show "urls_ok (aof_view s)" by (auto simp: urls_ok_def aof_view_rows)
qed

lemma resolve_urls_ok:
  assumes "urls_ok (aof_view s)" and "idx s c = None \<Longrightarrow> list_all web_line (missed_lines (files (disk_of s)) (ck 1) c s)"
  shows "urls_ok (aof_view (snd (resolve env ck c s)))"
  using assms by (simp add: urls_ok_rows resolve_rows web_rows_lines)

lemma handle_urls_ok:
  assumes "handle (aof_ops sys env srt ck) env html clk mthd path bdy token client w = Inr (r, w')"
    and "urls_ok (aof_view (the_store w))"
    and "reads_only web_line ck mthd path (the_store w)"
  shows "urls_ok (aof_view (the_store w'))"
  using assms(1)
proof (cases rule: handle_calls)
  case lookup
  then show ?thesis using resolve_urls_ok [where ck = ck and env = env and c = "asked path", OF assms(2)] assms(3) by (simp add: reads_only_def)
next
  case (one url al ttl c)
  then have "so_shorten (aof_ops sys env srt ck) url al ttl (the_store w) = Some (Some c, the_store w')" by (simp add: aof_ops_def)
  from aof.shorten_made [OF this] one(3) assms(2) show ?thesis by (simp add: urls_ok_put is_valid_url_web)
next
  case (bulk us codes)
  then have "so_shorten_many (aof_ops sys env srt ck) us (link_ttl_ms env) (the_store w) = Some (codes, the_store w')"
    by (simp add: aof_ops_def)
  from aof.shorten_many_made [OF this] bulk(3) assms(2) show ?thesis by (auto intro: urls_ok_zip)
next
  case (del c)
  have "so_remove (aof_ops sys env srt ck) c (the_store w) = (fst (remove c (the_store w)), the_store w')"
    using del by (simp add: aof_ops_def)
  from aof.remove_done [OF this] assms(2) show ?thesis by (auto simp: urls_ok_def split: if_splits)
next
  case (upd c url ttl has)
  have "so_update (aof_ops sys env srt ck) c url ttl has (the_store w) =
      (fst (update (ck 0) c url ttl has (the_store w)), the_store w')" using upd by (simp add: aof_ops_def)
  from aof.update_done [OF this] assms(2) upd(3) show ?thesis by (auto simp: urls_ok_put is_valid_url_web split: if_splits)
qed (use assms(2) in simp)

lemma serves_urls_ok:
  assumes "serves sys env web_line T w w'" and "urls_ok (aof_view (the_store w))"
  shows "urls_ok (aof_view (the_store w'))"
  using assms
proof (induction rule: serves.induct)
  case (request w1 srt ck html clk mthd path bdy token client r w2)
  then show ?case using handle_urls_ok by blast
next
  case (background w1 s)
  then show ?case using work_rows [OF background(2)] by (auto simp: urls_ok_rows web_rows_lines)
qed

text \<open>
  C30: No open redirect through the service: over any number of requests of any kind, background
  work and sibling writes, if the links at the start and the lines siblings write have web
  addresses as targets, every redirect the service ever answers goes to an \<open>http\<close> or \<open>https\<close> address of
  at most 2048 characters.
\<close>

theorem redirects_are_web:
  assumes "serves sys env web_line (\<lambda>_. True) w w1" and "urls_ok (aof_view (the_store w))"
    and "handle (aof_ops sys env srt ck) env html clk ''GET'' path bdy token client w1 = Inr (r, w2)"
    and "reads_only web_line ck ''GET'' path (the_store w1)"
    and "location r = Some t"
  shows "web_url t"
proof -
  have u: "urls_ok (aof_view (the_store w2))" using handle_urls_ok [OF assms(3) _ assms(4)] serves_urls_ok [OF assms(1,2)] .
  show ?thesis using assms(3)
  proof (cases rule: handle_calls)
    case lookup
    then have "so_resolve (aof_ops sys env srt ck) (asked path) (the_store w1) = (Some t, the_store w2)"
      using assms(5) by (simp add: aof_ops_def)
    from aof.resolve_answer [OF this] u show ?thesis by (auto simp: urls_ok_def)
  qed (use assms(5) in auto)
qed

subsection \<open>Links and their owners\<close>

lemma view_lines:
  assumes "rows s' = fold abs_line ls (rows s)" and "list_all (foreign_line P) ls" and "P c"
  shows "aof_view s' c = aof_view s c"
  using assms foreign_lines_id [OF assms(2,3)] by (simp add: aof_view_rows)

lemma anonymous_keeps:
  assumes "handle (aof_ops sys env srt ck) env html clk mthd path bdy token client w = Inr (r, w')"
    and "\<not> admin_ok env token" and "P c" and "aof_view (the_store w) c = Some v"
    and "reads_only (foreign_line P) ck mthd path (the_store w)"
  shows "aof_view (the_store w') c = Some v"
  using assms(1)
proof (cases rule: handle_calls)
  case lookup
  let ?s = "snd (resolve env ck (asked path) (the_store w))"
  have "rows ?s c = rows (the_store w) c"
    unfolding resolve_rows using assms(5) lookup(1) foreign_lines_id [where P = P and c = c, OF _ assms(3)] by (simp add: reads_only_def split: if_split)
  then have "aof_view ?s c = aof_view (the_store w) c" by (simp add: aof_view_rows)
  then show ?thesis using lookup assms(4) by simp
next
  case (one url al ttl x)
  then have "so_shorten (aof_ops sys env srt ck) url al ttl (the_store w) = Some (Some x, the_store w')" by (simp add: aof_ops_def)
  from aof.shorten_made [OF this] assms(4) show ?thesis by auto
next
  case (bulk us codes)
  then have "so_shorten_many (aof_ops sys env srt ck) us (link_ttl_ms env) (the_store w) = Some (codes, the_store w')"
    by (simp add: aof_ops_def)
  from aof.many_keeps_known [OF this assms(4)] show ?thesis .
qed (use assms(2,4) in simp_all)

lemma serves_keeps:
  assumes "serves sys env (foreign_line P) (\<lambda>t. \<not> admin_ok env t) w w'" and "P c" and "aof_view (the_store w) c = Some v"
  shows "aof_view (the_store w') c = Some v"
  using assms
proof (induction rule: serves.induct)
  case (request w1 srt ck html clk mthd path bdy token client r w2)
  then show ?case using anonymous_keeps by blast
next
  case (background w1 s)
  then show ?case using work_rows [OF background(2)] view_lines by (metis world.select_convs(1) world.surjective world.update_convs(1))
qed

lemma code_path:
  assumes "code_ok c"
  shows "takeWhile (\<lambda>x. x \<noteq> CHR ''?'') c = c" "asked (CHR ''/'' # c) = c" "CHR ''/'' \<notin> set c" "c \<noteq> []"
proof -
  have n: "CHR ''?'' \<notin> set c" using assms by (auto simp: code_ok_def list_all_iff isalnum_def digit_val_def)
  then show t: "takeWhile (\<lambda>x. x \<noteq> CHR ''?'') c = c" by (auto simp: takeWhile_eq_all_conv)
  show "asked (CHR ''/'' # c) = c" by (simp add: asked_def t)
  show "CHR ''/'' \<notin> set c" "c \<noteq> []" using assms by (auto simp: code_ok_def list_all_iff isalnum_def digit_val_def)
qed

lemma route_get_code:
  assumes "code_ok c" and "c \<noteq> ''metrics''"
  shows "route_get ops html clk (CHR ''/'' # c) query w =
    Inr (case fst (so_resolve ops c (the_store w)) of Some t \<Rightarrow> redirect t | None \<Rightarrow> not_found,
     (metrics_op OP_REDIRECT w)\<lparr>the_store := snd (so_resolve ops c (the_store w))\<rparr>)"
proof -
  note p = code_path [OF assms(1)]
  have n: "CHR ''/'' # c \<noteq> ''/api/health''" "CHR ''/'' # c \<noteq> ''/api/metrics''" "CHR ''/'' # c \<noteq> ''/metrics''"
    "CHR ''/'' # c \<noteq> ''/''" "CHR ''/'' # c \<noteq> ''/api/links''" "\<not> starts_with (CHR ''/'' # c) ''/api/stats/''"
    using p(3,4) assms(2) by (auto simp: prefix_def)
  show ?thesis unfolding route_get_def if_not_P [OF n(1)] if_not_P [OF n(2)] if_not_P [OF n(3)] if_not_P [OF n(4)]
    if_not_P [OF n(5)] if_not_P [OF n(6)] using assms(1) by (simp add: Let_def split: prod.split)
qed

lemma get_known:
  assumes "code_ok c" and "c \<noteq> ''metrics''" and "aof_view (the_store w) c = Some (u, ex)"
  shows "\<exists>w'. handle (aof_ops sys env srt ck) env html clk ''GET'' (CHR ''/'' # c) bdy token client w =
    Inr (if ex = 0 \<or> ck 0 < ex then redirect u else not_found, w')"
proof -
  have "fst (so_resolve (aof_ops sys env srt ck) c (the_store w)) = (if ex = 0 \<or> ck 0 < ex then Some u else None)"
    using aof.resolve_known [OF assms(3)] by blast
  then show ?thesis
    by (simp add: handle_def route_def Let_def code_path(1) [OF assms(1)] route_get_code [OF assms(1,2)])
qed

lemma post_shortens:
  assumes "jparse bdy = Some p" and "j_find ''url'' p = Some (J_STR u)" and "is_valid_url u"
    and "j_find ''alias'' p = Some (J_STR a)" and "code_ok a" and "req_ttl env p = Inr ttl"
    and "fst (allow (clk 1) client (Fin 1) (limit_of w))" and "so_shorten ops u (Some a) ttl (the_store w) = Some (Some a, s)"
  shows "\<exists>w1. handle ops env html clk ''POST'' ''/api/shorten'' bdy token client w = Inr (created a, w1) \<and> the_store w1 = s"
proof -
  obtain rl where rl: "allow (clk 1) client (Fin 1) (limit_of w) = (True, rl)"
    using assms(7) by (cases "allow (clk 1) client (Fin 1) (limit_of w)") simp
  have al: "req_alias p = Inr (Some a)" using assms(4,5) by (simp add: req_alias_def)
  have one: "shorten_one ops env p x = Inr (created a, x\<lparr>the_store := s\<rparr>)" if "the_store x = the_store w" for x
    using assms(2,3,6,8) that by (simp add: shorten_one_def al)
  have path: "takeWhile (\<lambda>c. c \<noteq> CHR ''?'') ''/api/shorten'' = ''/api/shorten''" by simp
  show ?thesis unfolding handle_def route_def route_post_def path
    using assms(1) rl one by (simp add: Let_def bulk_cost_def)
qed

lemma post_creates:
  assumes "jparse bdy = Some p" and "j_find ''url'' p = Some (J_STR u)" and "is_valid_url u"
    and "j_find ''alias'' p = Some (J_STR a)" and "code_ok a" and "req_ttl env p = Inr ttl"
    and "fst (allow (clk 1) client (Fin 1) (limit_of w))" and "aof_view (the_store w) a = None"
  shows "\<exists>w1. handle (aof_ops sys env srt ck) env html clk ''POST'' ''/api/shorten'' bdy token client w = Inr (created a, w1) \<and>
    shorten sys (ck 0) u (Some a) ttl (the_store w) = Some (Some a, the_store w1)"
proof -
  have "idx (the_store w) a = None" using assms(8) by (simp add: aof_view_def)
  then obtain s where s: "shorten sys (ck 0) u (Some a) ttl (the_store w) = Some (Some a, s)"
    by (simp add: shorten_def shorten_insert_def)
  then have "so_shorten (aof_ops sys env srt ck) u (Some a) ttl (the_store w) = Some (Some a, s)" by (simp add: aof_ops_def)
  from post_shortens [where clk = clk, OF assms(1-7) this] s show ?thesis by blast
qed

lemma posted_view:
  "shorten sys now u (Some a) ttl s = Some (Some a, s') \<Longrightarrow> aof_view s' a = Some (u, expiry now ttl)"
  using aof_view_upd [OF shorten_SomeD(2)] by auto

definition until :: "i64 \<Rightarrow> i64 \<Rightarrow> string \<Rightarrow> reply" where
  "until ex now u = (if ex = 0 \<or> now < ex then redirect u else not_found)"

text \<open>
  C28: From the request to the reply, as long as the process lives. A request body with a valid address, an alias that is
  free and a lifetime is answered with status 201 and the alias; from then on, whatever requests without the admin token
  the process answers, whatever background work it does and whatever its siblings write to other codes, a lookup of the alias is
  redirected to the address until the lifetime is over and not found after. Nothing is asked of the engine, which may be open or
  closed: a served engine is closed, and what that means for a restart is shown for the program as a whole.
\<close>

theorem posted_link_survives:
  assumes "jparse bdy = Some p" and "j_find ''url'' p = Some (J_STR u)" and "is_valid_url u"
    and "j_find ''alias'' p = Some (J_STR a)" and "code_ok a" and "a \<noteq> ''metrics''" and "req_ttl env p = Inr ttl"
    and "fst (allow (clk 1) client (Fin 1) (limit_of w))" and "aof_view (the_store w) a = None" and "P a"
  shows "\<exists>w1. handle (aof_ops sys env srt ck) env html clk ''POST'' ''/api/shorten'' bdy token client w = Inr (created a, w1) \<and>
    (\<forall>w2. serves sys env (foreign_line P) (\<lambda>t. \<not> admin_ok env t) w1 w2 \<longrightarrow>
      (\<exists>w3. handle (aof_ops sys env srt ck') env html clk' ''GET'' (CHR ''/'' # a) bdy' token' client' w2 =
         Inr (until (expiry (ck 0) ttl) (ck' 0) u, w3)))"
proof -
  obtain w1 where w1: "handle (aof_ops sys env srt ck) env html clk ''POST'' ''/api/shorten'' bdy token client w = Inr (created a, w1)"
    and sh: "shorten sys (ck 0) u (Some a) ttl (the_store w) = Some (Some a, the_store w1)"
    using post_creates [where clk = clk, OF assms(1-5,7-9)] by blast
  note keeps = serves_keeps [where P = P and c = a, OF _ assms(10) posted_view [OF sh]]
  show ?thesis unfolding until_def using w1 get_known [OF assms(5,6) keeps] by blast
qed

subsection \<open>Examples\<close>

definition demo_world :: "proc \<Rightarrow> proc world" where
  "demo_world s = \<lparr>the_store = s, mets = metrics0, limit_of = \<lparr>rl_shards = (\<lambda>_. []), rate = Fin 0, burst = Fin 0\<rparr>, rate_limited = 0\<rparr>"

definition demo_body :: string where
  "demo_body = ''{\"url\":\"http://x\",\"alias\":\"ali\"}''"

lemma demo_parse: "jparse demo_body = Some (J_OBJ [(''url'', J_STR ''http://x''), (''alias'', J_STR ''ali'')])"
  by code_simp

lemma demo_checks:
  "is_valid_url ''http://x''" "code_ok ''ali''" "in_i64 5"
  "req_ttl Map.empty (J_OBJ [(''url'', J_STR ''http://x''), (''alias'', J_STR ''ali'')]) = Inr 86400000"
  by code_simp+

lemma demo_world_fields [simp]: "the_store (demo_world s) = s" "fst (allow now client cost (limit_of (demo_world s)))"
  by (simp_all add: demo_world_def allow_def)

lemma demo_unknown: "rows s = Map.empty \<Longrightarrow> aof_view s c = None"
  by (simp add: aof_view_rows)

theorem posted_link_survives_witness:
  "\<exists>w1 w2. handle (aof_ops demo_os Map.empty isort (\<lambda>_. 5)) Map.empty [] (\<lambda>_. 5) ''POST'' ''/api/shorten'' demo_body [] ''1.2.3.4''
       (demo_world (demo_mem\<lparr>the_aof := None\<rparr>)) = Inr (created ''ali'', w1) \<and>
     handle (aof_ops demo_os Map.empty isort (\<lambda>_. 9)) Map.empty [] (\<lambda>_. 9) ''GET'' ''/ali'' [] [] ''5.6.7.8'' w1 = Inr (redirect ''http://x'', w2)"
proof -
  let ?w = "demo_world (demo_mem\<lparr>the_aof := None\<rparr>)" and ?p = "J_OBJ [(''url'', J_STR ''http://x''), (''alias'', J_STR ''ali'')]"
  let ?post = "handle (aof_ops demo_os Map.empty isort (\<lambda>_. 5)) Map.empty [] (\<lambda>_. 5) ''POST'' ''/api/shorten'' demo_body [] ''1.2.3.4'' ?w"
  let ?get = "\<lambda>w. handle (aof_ops demo_os Map.empty isort (\<lambda>_. 9)) Map.empty [] (\<lambda>_. 9) ''GET'' (CHR ''/'' # ''ali'') [] [] ''5.6.7.8'' w"
  have ex: "until (expiry ((\<lambda>_. 5) (0::nat)) 86400000) ((\<lambda>_. 9) (0::nat)) ''http://x'' = redirect ''http://x''"
    by (simp add: until_def expiry_def add64_def wrap64_def)
  have h: "aof_view (the_store ?w) ''ali'' = None" "j_find ''url'' ?p = Some (J_STR ''http://x'')"
    "j_find ''alias'' ?p = Some (J_STR ''ali'')" "''ali'' \<noteq> ''metrics''" "fst (allow ((\<lambda>_. 5) (1::nat)) ''1.2.3.4'' (Fin 1) (limit_of ?w))"
    by (simp_all add: j_find_def aof_view_def idx_def demo_mem_def inner0_def)
  have "\<exists>w1. ?post = Inr (created ''ali'', w1) \<and>
      (\<forall>w2. serves demo_os Map.empty (foreign_line (\<lambda>_. True)) (\<lambda>t. \<not> admin_ok Map.empty t) w1 w2 \<longrightarrow>
        (\<exists>w3. ?get w2 = Inr (until (expiry ((\<lambda>_. 5) (0::nat)) 86400000) ((\<lambda>_. 9) (0::nat)) ''http://x'', w3)))"
    by (rule posted_link_survives [where clk = "\<lambda>_. 5" and ck = "\<lambda>_. 5" and ck' = "\<lambda>_. 9" and P = "\<lambda>_. True" and p = ?p and w = ?w,
      OF demo_parse h(2) demo_checks(1) h(3) demo_checks(2) h(4) demo_checks(4) h(5,1) TrueI])
  then show ?thesis unfolding ex using serves.idle by blast
qed

text \<open>A run that has done nothing yet, on an engine that holds one link.\<close>

lemma demo_link_world:
  obtains w :: "proc world" where "reach demo_os Map.empty (\<lambda>_. True) (the_store w)" "aof_view (the_store w) = [''ali'' \<mapsto> (''http://x'', 0)]"
    "only_own (the_store w)" "\<And>now client cost. fst (allow now client cost (limit_of w))"
proof -
  obtain s where s: "reach demo_os Map.empty (\<lambda>_. True) s" "inst s = 0" "dir s = ''d''"
    "rows s = [''ali'' \<mapsto> (''http://x'', 5, 0, 0)]" "only_own s" by (rule demo_run)
  have "aof_view s = [''ali'' \<mapsto> (''http://x'', 0)]" by (rule ext) (simp add: aof_view_rows s(4))
  then show ?thesis using s by (intro that [of "demo_world s"]) simp_all
qed

text \<open>
  A request that is refused changes no link: whatever a request other than a lookup asks for, if
  the reply is an error (invalid body, taken alias, rate limit, missing rights, foreign owner) the
  store is exactly as before.
\<close>

lemma refused_changes_nothing:
  assumes "handle (aof_ops sys env srt ck) env html clk mthd path bdy token client w = Inr (r, w')"
    and "mthd \<noteq> ''GET''" and "400 \<le> status r"
  shows "the_store w' = the_store w"
proof -
  let ?p = "takeWhile (\<lambda>c. c \<noteq> CHR ''?'') path" and ?w = "w\<lparr>mets := tick (clk 0) (mets w)\<rparr>"
  obtain w1 where r: "route (aof_ops sys env srt ck) env html clk mthd path bdy token client w = Inr (r, w1)"
    "the_store w' = the_store w1" using assms(1) by (auto simp: handle_def split: sum.splits prod.splits)
  have p: "the_store w1 = the_store ?w" if "route_post (aof_ops sys env srt ck) env clk ?p bdy client ?w = Inr (r, w1)"
    using aof.route_post_cases(2) [OF that] assms(3) by fastforce
  have m: "the_store w1 = the_store ?w" if "route_mutate (aof_ops sys env srt ck) env mthd ?p bdy token ?w = Inr (r, w1)"
    using aof.route_mutate_cases(2) [OF that assms(3)] .
  show ?thesis using r p m assms(2) by (auto simp: route_def Let_def split: if_splits)
qed

text \<open>
  Only the holder of the admin token changes a link. While every request comes without the
  token, a known code that no sibling writes keeps its target and its expiry through any number of
  requests of any kind, background work and restarts of siblings, and a lookup is answered accordingly.
\<close>

lemma links_need_token:
  assumes "serves sys env (foreign_line P) (\<lambda>t. \<not> admin_ok env t) w w1" and "P c" and "code_ok c" and "c \<noteq> ''metrics''"
    and "aof_view (the_store w) c = Some (u, ex)"
  shows "\<exists>w2. handle (aof_ops sys env srt ck) env html clk ''GET'' (CHR ''/'' # c) bdy token client w1 =
    Inr (until ex (ck 0) u, w2)"
  unfolding until_def by (rule get_known [OF assms(3,4) serves_keeps [OF assms(1,2,5)]])

text \<open>
  The alias \<open>metrics\<close> can be taken and never be reached: a request for it is answered with status
  201 like any other, but no lookup of \<open>/metrics\<close> on any state of the service is a redirect.
\<close>

lemma alias_metrics_shadowed:
  assumes "jparse bdy = Some p" and "j_find ''url'' p = Some (J_STR u)" and "is_valid_url u"
    and "j_find ''alias'' p = Some (J_STR ''metrics'')" and "req_ttl env p = Inr ttl"
    and "fst (allow (clk 1) client (Fin 1) (limit_of w))" and "aof_view (the_store w) ''metrics'' = None"
  shows "(\<exists>w1. handle (aof_ops sys env srt ck) env html clk ''POST'' ''/api/shorten'' bdy token client w = Inr (created ''metrics'', w1) \<and>
        aof_view (the_store w1) ''metrics'' = Some (u, expiry (ck 0) ttl)) \<and>
      (\<forall>v. \<exists>r v'. handle (aof_ops sys env srt ck') env html clk' ''GET'' ''/metrics'' bdy' token' client' v = Inr (r, v') \<and>
        status r = 200 \<and> location r = None)"
proof
  have "code_ok ''metrics''" by code_simp
  from post_creates [where clk = clk and ck = ck and sys = sys and srt = srt and html = html and token = token, OF assms(1-4) this assms(5-7)]
  show "\<exists>w1. handle (aof_ops sys env srt ck) env html clk ''POST'' ''/api/shorten'' bdy token client w = Inr (created ''metrics'', w1) \<and>
      aof_view (the_store w1) ''metrics'' = Some (u, expiry (ck 0) ttl)" using posted_view by blast
  show "\<forall>v. \<exists>r v'. handle (aof_ops sys env srt ck') env html clk' ''GET'' ''/metrics'' bdy' token' client' v = Inr (r, v') \<and>
      status r = 200 \<and> location r = None"
    by (simp add: handle_def route_def route_get_def mk_def Let_def)
qed

theorem redirects_are_web_witness:
  "\<exists>w r w2. handle (aof_ops demo_os Map.empty isort (\<lambda>_. 9)) Map.empty [] (\<lambda>_. 9) ''GET'' ''/ali'' [] [] ''5.6.7.8'' w = Inr (r, w2) \<and>
     location r = Some ''http://x'' \<and> web_url ''http://x''"
proof -
  obtain w :: "proc world" where w: "aof_view (the_store w) = [''ali'' \<mapsto> (''http://x'', 0)]" "only_own (the_store w)"
    by (rule demo_link_world) blast
  obtain w2 where h: "handle (aof_ops demo_os Map.empty isort (\<lambda>_. 9)) Map.empty [] (\<lambda>_. 9) ''GET'' (CHR ''/'' # ''ali'') [] [] ''5.6.7.8'' w =
      Inr (redirect ''http://x'', w2)"
    using get_known [OF demo_checks(2), of w "''http://x''" 0 demo_os Map.empty isort "\<lambda>_. 9" "[]" "\<lambda>_. 9" "[]" "[]" "''5.6.7.8''"] w(1) by auto
  have u: "urls_ok (aof_view (the_store w))" using w(1) by (auto simp: urls_ok_def web_url_def)
  have k: "idx (the_store w) ''ali'' \<noteq> None" using fun_cong [OF w(1), of "''ali''"] by (auto simp: aof_view_def)
  have "web_url ''http://x''"
    by (rule redirects_are_web [OF serves.idle u h]) (use k in \<open>auto simp: reads_only_def asked_def redirect_def\<close>)
  then show ?thesis using h by (intro exI [of _ w] exI [of _ "redirect ''http://x''"] exI [of _ w2]) (simp add: redirect_def)
qed

end
