(* ===== verification/Server.thy ===== *)
theory Server
  imports Service
begin

text \<open>
  The HTTP front end of \<^verbatim>\<open>src/src/server.cpp\<close>: reading requests off a connection, writing replies, the
  thread-per-connection loop. The handler is an argument of the loop, so what is proved here holds of
  every handler; the calls of the socket interface are answered by arguments.
\<close>

section \<open>Definitions\<close>

definition SIZE_MAX :: nat where
  "SIZE_MAX = 2 ^ 64 - 1"

subsection \<open>Replies\<close>

definition status_line :: "int \<Rightarrow> string" where
  "status_line st =
     (if st = 200 then ''HTTP/1.1 200 OK''
      else if st = 201 then ''HTTP/1.1 201 Created''
      else if st = 204 then ''HTTP/1.1 204 No Content''
      else if st = 302 then ''HTTP/1.1 302 Found''
      else if st = 400 then ''HTTP/1.1 400 Bad Request''
      else if st = 404 then ''HTTP/1.1 404 Not Found''
      else if st = 409 then ''HTTP/1.1 409 Conflict''
      else if st = 413 then ''HTTP/1.1 413 Payload Too Large''
      else if st = 429 then ''HTTP/1.1 429 Too Many Requests''
      else if st = 503 then ''HTTP/1.1 503 Service Unavailable''
      else ''HTTP/1.1 500 Internal Server Error'') @ CRLF"

definition cors_block :: "environ \<Rightarrow> string" where
  "cors_block env =
     ''access-control-allow-origin: '' @ cors_origin env @ CRLF @
     ''access-control-allow-methods: GET,POST,PATCH,DELETE,OPTIONS'' @ CRLF @
     ''access-control-allow-headers: content-type,x-admin-token'' @ CRLF @
     ''access-control-max-age: 86400'' @ CRLF"

definition write_reply :: "environ \<Rightarrow> string \<Rightarrow> reply \<Rightarrow> string" where
  "write_reply env out r =
     (let out = out @ status_line (status r) @ cors_block env
      in case location r of
           Some l \<Rightarrow> out @ ''location: '' @ l @ CRLF @ ''content-length: 0'' @ CRLF @ CRLF
         | None \<Rightarrow>
             (let out = out @ ''content-type: '' @ (case ctype r of Some t \<Rightarrow> t | None \<Rightarrow> ''application/json'');
                  out = out @ CRLF @ ''content-length: '';
                  out = itoa out (int (length (body r)))
              in out @ CRLF @ CRLF @ body r))"

subsection \<open>Requests\<close>

record req_info =
  rq_total :: nat
  rq_method :: string
  rq_path :: string
  rq_admin :: string
  rq_xff :: string
  rq_body_off :: nat
  rq_body_len :: nat
  rq_alive :: bool

definition req_info0 :: req_info where
  "req_info0 = \<lparr>rq_total = 0, rq_method = [], rq_path = [], rq_admin = [], rq_xff = [], rq_body_off = 0, rq_body_len = 0,
     rq_alive = True\<rparr>"

text \<open>Cutting blanks off both ends.\<close>

definition trim :: "(char \<Rightarrow> bool) \<Rightarrow> string \<Rightarrow> string" where
  "trim P s = rev (dropWhile P (rev (dropWhile P s)))"

definition trust_proxy :: "environ \<Rightarrow> bool" where
  "trust_proxy env \<longleftrightarrow> env ''TRUST_PROXY'' \<noteq> None"

definition client_ip :: "environ \<Rightarrow> req_info \<Rightarrow> string \<Rightarrow> string" where
  "client_ip env ri peer =
     (if trust_proxy env \<and> rq_xff ri \<noteq> [] then
        (let hop = trim (\<lambda>c. c = CHR '' '') (takeWhile (\<lambda>c. c \<noteq> CHR '','') (rq_xff ri))
         in if hop \<noteq> [] then hop else peer)
      else peer)"

text \<open>A signed 64-bit value cast to \<^verbatim>\<open>size_t\<close>.\<close>

definition size_of :: "i64 \<Rightarrow> nat" where
  "size_of n = nat (n mod 2 ^ 64)"

definition header_line :: "string \<Rightarrow> nat \<times> req_info \<Rightarrow> nat \<times> req_info" where
  "header_line line clri =
     (case chr_find CHR '':'' line of
        None \<Rightarrow> clri
      | Some colon \<Rightarrow>
          (let (cl, ri) = clri;
               k = take colon line;
               v = trim (\<lambda>c. c = CHR '' '' \<or> c = TAB) (drop (colon + 1) line)
           in if k = ''content-length'' \<or> k = ''Content-Length'' then (size_of (strtoll v), ri)
              else if k = ''connection'' \<or> k = ''Connection'' then
                (cl, ri\<lparr>rq_alive := \<not> (v = ''close'' \<or> v = ''Close'')\<rparr>)
              else if k = ''x-admin-token'' \<or> k = ''X-Admin-Token'' then (cl, ri\<lparr>rq_admin := v\<rparr>)
              else if k = ''x-forwarded-for'' \<or> k = ''X-Forwarded-For'' then (cl, ri\<lparr>rq_xff := v\<rparr>)
              else (cl, ri)))"

function header_scan :: "string \<Rightarrow> nat \<times> req_info \<Rightarrow> nat \<times> req_info" where
  "header_scan hs clri =
     (if hs = [] then clri
      else case str_find CRLF hs of
             None \<Rightarrow> header_line hs clri
           | Some eol \<Rightarrow> header_scan (drop (eol + 2) hs) (header_line (take eol hs) clri))"
  by pat_completeness auto
termination
  by (relation "measure (\<lambda>(hs, x). length hs)") auto

declare header_scan.simps [simp del]

definition needs_body :: "req_info \<Rightarrow> bool" where
  "needs_body ri \<longleftrightarrow> rq_method ri = ''POST'' \<or> rq_method ri = ''PATCH''"

text \<open>The request line and the headers; \<open>None\<close> is a malformed request.\<close>

definition parse_head :: "string \<Rightarrow> (nat \<times> req_info) option" where
  "parse_head head =
     (case chr_find CHR '' '' head of
        None \<Rightarrow> None
      | Some sp1 \<Rightarrow>
          (let after = drop (sp1 + 1) head
           in case chr_find CHR '' '' after of
                None \<Rightarrow> None
              | Some k \<Rightarrow>
                  (let tail = drop (k + 1) after;
                       (ver, hs) = (case str_find CRLF tail of
                                      None \<Rightarrow> ([], [])
                                    | Some crlf \<Rightarrow> (take crlf tail, drop (crlf + 2) tail));
                       ri = req_info0\<lparr>rq_method := take sp1 head, rq_path := take k after, rq_alive := (ver = ''HTTP/1.1'')\<rparr>
                   in Some (header_scan hs (0, ri)))))"

definition parse_req :: "string \<Rightarrow> nat \<Rightarrow> req_info" where
  "parse_req buf pos =
     (let rest = drop pos buf
      in case str_find (CRLF @ CRLF) rest of
           None \<Rightarrow> req_info0
         | Some he \<Rightarrow>
             (case parse_head (take he rest) of
                None \<Rightarrow> req_info0\<lparr>rq_total := SIZE_MAX\<rparr>
              | Some (cl, ri) \<Rightarrow>
                  (let len = (if needs_body ri then cl else 0);
                       total = (he + 4 + len) mod 2 ^ 64
                   in ri\<lparr>rq_body_off := pos + he + 4, rq_body_len := len,
                         rq_total := if length buf - pos < total then 0 else total\<rparr>)))"

definition body_limit :: "string \<Rightarrow> nat" where
  "body_limit path =
     (if takeWhile (\<lambda>c. c \<noteq> CHR ''?'') path = ''/api/shorten/bulk'' then MAX_BULK_BODY else MAX_BODY)"

definition body_of :: "req_info \<Rightarrow> string \<Rightarrow> string" where
  "body_of ri buf = (if needs_body ri then take (rq_body_len ri) (drop (rq_body_off ri) buf) else [])"

definition too_large :: reply where
  "too_large = \<lparr>status = 413, location = None, body = ''{\"error\":\"body too large\"}'', ctype = None\<rparr>"

lemma parse_req_total: "rq_total (parse_req buf pos) \<noteq> SIZE_MAX \<Longrightarrow> rq_total (parse_req buf pos) \<le> length buf - pos"
  by (auto simp: parse_req_def req_info0_def Let_def split: option.splits prod.splits)

subsection \<open>One thread per connection\<close>

text \<open>The handler as the loops call it: method, path, body, admin token and client.\<close>

type_synonym 'w handler = "string \<Rightarrow> string \<Rightarrow> string \<Rightarrow> string \<Rightarrow> string \<Rightarrow> 'w \<Rightarrow> fault + reply \<times> 'w"

text \<open>Why the loop over the requests of a buffer stops.\<close>

datatype verdict = Pending | Malformed | Oversize | Last

function mini_requests ::
  "environ \<Rightarrow> 'w handler \<Rightarrow> string \<Rightarrow> string \<Rightarrow> nat \<Rightarrow> string \<Rightarrow> 'w \<Rightarrow> fault + verdict \<times> nat \<times> string \<times> 'w"
where
  "mini_requests env h peer buf parsed out w =
     (let ri = parse_req buf parsed
      in if rq_total ri = 0 then Inr (Pending, parsed, out, w)
         else if rq_total ri = SIZE_MAX then Inr (Malformed, parsed, out, w)
         else if needs_body ri \<and> body_limit (rq_path ri) < rq_body_len ri then
           Inr (Oversize, parsed, write_reply env out too_large, w)
         else
           (case h (rq_method ri) (rq_path ri) (body_of ri buf) (rq_admin ri) (client_ip env ri peer) w of
              Inl f \<Rightarrow> Inl f
            | Inr (r, w) \<Rightarrow>
                (let out = write_reply env out r; parsed = parsed + rq_total ri
                 in if \<not> rq_alive ri then Inr (Last, parsed, out, w)
                    else mini_requests env h peer buf parsed out w)))"
  by pat_completeness auto
termination
  by (relation "measure (\<lambda>(env, h, peer, buf, parsed, out, w). length buf - parsed)") (use parse_req_total in fastforce)+

declare mini_requests.simps [simp del]

text \<open>
  What one call of \<^verbatim>\<open>recv\<close> gives, and the answers to the calls of \<^verbatim>\<open>send\<close> on a connection: the \<open>n\<close>-th call,
  with what is left to send, returns a number and, where it is not positive, whether it was interrupted.
\<close>

datatype received = Data string | Eof | Interrupted | Broken

type_synonym sender = "nat \<Rightarrow> string \<Rightarrow> int \<times> bool"

record conn =
  cn_buf :: string
  cn_sent :: string
  cn_calls :: nat
  cn_open :: bool

definition conn0 :: conn where
  "conn0 = \<lparr>cn_buf = [], cn_sent = [], cn_calls = 0, cn_open = True\<rparr>"

text \<open>Sends until nothing is left or a call fails; \<open>None\<close> is a loop that never ends.\<close>

partial_function (option) send_loop :: "sender \<Rightarrow> string \<Rightarrow> conn \<Rightarrow> (bool \<times> conn) option" where
  "send_loop sd p c =
     (if p = [] then Some (True, c)
      else let (n, eintr) = sd (cn_calls c) p; c = c\<lparr>cn_calls := cn_calls c + 1\<rparr>
           in if n \<le> 0 then (if eintr then send_loop sd p c else Some (False, c))
              else send_loop sd (drop (nat n) p) (c\<lparr>cn_sent := cn_sent c @ take (nat n) p\<rparr>))"

definition send_once :: "sender \<Rightarrow> string \<Rightarrow> conn \<Rightarrow> conn" where
  "send_once sd p c = c\<lparr>cn_calls := cn_calls c + 1, cn_sent := cn_sent c @ take (nat (fst (sd (cn_calls c) p))) p\<rparr>"

definition conn_close :: "conn \<Rightarrow> conn" where
  "conn_close c = c\<lparr>cn_open := False\<rparr>"

text \<open>One turn of the loop of a connection.\<close>

definition conn_step ::
  "environ \<Rightarrow> 'w handler \<Rightarrow> sender \<Rightarrow> string \<Rightarrow> received \<Rightarrow> conn \<Rightarrow> 'w \<Rightarrow> fault + conn \<times> 'w"
where
  "conn_step env h sd peer rc c w =
     (let c = (case rc of Data s \<Rightarrow> c\<lparr>cn_buf := cn_buf c @ s\<rparr> | _ \<Rightarrow> c)
      in if rc = Eof \<and> cn_buf c = [] then Inr (conn_close c, w)
         else if rc = Interrupted then Inr (c, w)
         else if rc = Broken then Inr (conn_close c, w)
         else
           (case mini_requests env h peer (cn_buf c) 0 [] w of
              Inl f \<Rightarrow> Inl f
            | Inr (v, parsed, out, w) \<Rightarrow>
                if v = Malformed then Inr (conn_close c, w)
                else if v = Oversize then Inr (conn_close (send_once sd out c), w)
                else
                  (case send_loop sd out (c\<lparr>cn_buf := drop parsed (cn_buf c)\<rparr>) of
                     None \<Rightarrow> Inl Loops
                   | Some (sent, c) \<Rightarrow>
                       Inr (if \<not> sent \<or> v = Last \<or> rc = Eof then conn_close c else c, w))))"

fun conn_loop ::
  "environ \<Rightarrow> 'w handler \<Rightarrow> sender \<Rightarrow> string \<Rightarrow> received list \<Rightarrow> conn \<Rightarrow> 'w \<Rightarrow> fault + conn \<times> 'w"
where
  "conn_loop env h sd peer [] c w = Inr (c, w)"
| "conn_loop env h sd peer (rc # rcs) c w =
     (if \<not> cn_open c then Inr (c, w)
      else case conn_step env h sd peer rc c w of
             Inl f \<Rightarrow> Inl f
           | Inr (c, w) \<Rightarrow> conn_loop env h sd peer rcs c w)"

section \<open>Reading requests\<close>

definition shifted :: "nat \<Rightarrow> req_info \<Rightarrow> req_info" where
  "shifted k ri = (if rq_body_off ri = 0 then ri else ri\<lparr>rq_body_off := rq_body_off ri + k\<rparr>)"

lemma shifted_fields [simp]:
  "rq_total (shifted k ri) = rq_total ri" "rq_method (shifted k ri) = rq_method ri" "rq_path (shifted k ri) = rq_path ri"
  "rq_admin (shifted k ri) = rq_admin ri" "rq_xff (shifted k ri) = rq_xff ri" "rq_body_len (shifted k ri) = rq_body_len ri"
  "rq_alive (shifted k ri) = rq_alive ri" "needs_body (shifted k ri) = needs_body ri"
  "client_ip env (shifted k ri) peer = client_ip env ri peer"
  by (cases "rq_body_off ri = 0"; simp add: shifted_def needs_body_def client_ip_def)+

text \<open>A request is the same wherever it stands in the buffer, and bytes that follow it do not change it.\<close>

lemma parse_req_at: "parse_req buf pos = shifted pos (parse_req (drop pos buf) 0)"
  by (auto simp: parse_req_def shifted_def req_info0_def Let_def split: option.splits prod.splits)

lemma parse_req_found:
  assumes "rq_total (parse_req s 0) \<noteq> 0"
  obtains he where "str_find (CRLF @ CRLF) s = Some he"
  using assms by (cases "str_find (CRLF @ CRLF) s") (auto simp: parse_req_def req_info0_def)

lemma parse_req_extend:
  assumes "rq_total (parse_req s 0) \<noteq> 0"
  shows "parse_req (s @ t) 0 = parse_req s 0"
proof -
  obtain he where h: "str_find (CRLF @ CRLF) s = Some he" using assms by (rule parse_req_found)
  have "he \<le> length s" using str_find_Some [OF h] by simp
  then show ?thesis using assms str_find_extend [OF h, of t] h
    by (cases "parse_head (take he s)") (auto simp: parse_req_def Let_def split: if_splits)
qed

lemma parse_req_off:
  assumes "rq_total (parse_req s 0) \<noteq> 0" and "rq_total (parse_req s 0) \<noteq> SIZE_MAX" and "rq_body_len (parse_req s 0) < 2 ^ 63"
    and "length s < 2 ^ 63"
  shows "rq_body_off (parse_req s 0) + rq_body_len (parse_req s 0) = rq_total (parse_req s 0)" "0 < rq_body_off (parse_req s 0)"
proof -
  obtain he where h: "str_find (CRLF @ CRLF) s = Some he" using assms(1) by (rule parse_req_found)
  have "he + 4 \<le> length s" using str_find_Some [OF h] by simp
  then have l: "he + 4 + rq_body_len (parse_req s 0) < 2 ^ 64" using assms(3,4) by simp
  obtain cl ri where p: "parse_head (take he s) = Some (cl, ri)"
    using assms(2) h by (cases "parse_head (take he s)") (auto simp: parse_req_def req_info0_def)
  have "rq_total (parse_req s 0) = (he + 4 + rq_body_len (parse_req s 0)) mod 2 ^ 64" "rq_body_off (parse_req s 0) = he + 4"
    using assms(1) h p by (auto simp: parse_req_def Let_def split: if_splits)
  then show "rq_body_off (parse_req s 0) + rq_body_len (parse_req s 0) = rq_total (parse_req s 0)" "0 < rq_body_off (parse_req s 0)"
    using l by simp_all
qed

lemma body_of_at: "rq_total (parse_req (drop pos buf) 0) \<noteq> 0 \<Longrightarrow> rq_total (parse_req (drop pos buf) 0) \<noteq> SIZE_MAX \<Longrightarrow>
    body_of (parse_req buf pos) buf = body_of (parse_req (drop pos buf) 0) (drop pos buf)"
proof -
  assume a: "rq_total (parse_req (drop pos buf) 0) \<noteq> 0" "rq_total (parse_req (drop pos buf) 0) \<noteq> SIZE_MAX"
  obtain he where h: "str_find (CRLF @ CRLF) (drop pos buf) = Some he" using a(1) by (rule parse_req_found)
  then have "rq_body_off (parse_req (drop pos buf) 0) \<noteq> 0" using a(2)
    by (cases "parse_head (take he (drop pos buf))") (auto simp: parse_req_def req_info0_def Let_def)
  then show ?thesis by (simp add: parse_req_at [of buf pos] body_of_def) (simp add: shifted_def add.commute)
qed

definition refused :: "req_info \<Rightarrow> bool" where
  "refused ri \<longleftrightarrow> needs_body ri \<and> body_limit (rq_path ri) < rq_body_len ri"

lemma body_of_extend:
  assumes "rq_total (parse_req s 0) \<noteq> 0" and "rq_total (parse_req s 0) \<noteq> SIZE_MAX" and "\<not> refused (parse_req s 0)" and "length s < 2 ^ 63"
  shows "body_of (parse_req s 0) (s @ t) = body_of (parse_req s 0) s"
proof (cases "needs_body (parse_req s 0)")
  case True
  have "body_limit p < 2 ^ 63" for p by (simp add: body_limit_def MAX_BODY_def MAX_BULK_BODY_def)
  then have "rq_body_len (parse_req s 0) < 2 ^ 63" using assms(3) True by (simp add: refused_def) (meson leD le_less_trans not_le)
  from parse_req_off(1) [OF assms(1,2) this assms(4)] parse_req_total [OF assms(2)]
  show ?thesis by (simp add: body_of_def)
qed (simp add: body_of_def)

section \<open>A reference for the loops: the requests of a byte stream, answered in order\<close>

function answers :: "environ \<Rightarrow> 'w handler \<Rightarrow> string \<Rightarrow> string \<Rightarrow> 'w \<Rightarrow> fault + verdict \<times> reply list \<times> string \<times> 'w" where
  "answers env h peer s w =
     (let ri = parse_req s 0
      in if rq_total ri = 0 then Inr (Pending, [], s, w)
         else if rq_total ri = SIZE_MAX then Inr (Malformed, [], s, w)
         else if refused ri then Inr (Oversize, [too_large], s, w)
         else
           (case h (rq_method ri) (rq_path ri) (body_of ri s) (rq_admin ri) (client_ip env ri peer) w of
              Inl f \<Rightarrow> Inl f
            | Inr (r, w) \<Rightarrow>
                if \<not> rq_alive ri then Inr (Last, [r], drop (rq_total ri) s, w)
                else (case answers env h peer (drop (rq_total ri) s) w of
                        Inl f \<Rightarrow> Inl f
                      | Inr (v, rs, t, w) \<Rightarrow> Inr (v, r # rs, t, w))))"
  by pat_completeness auto
termination
  by (relation "measure (\<lambda>(env, h, peer, s, w). length s)") (use parse_req_total [of _ 0] in fastforce)+

declare answers.simps [simp del]

definition wire :: "environ \<Rightarrow> reply list \<Rightarrow> string" where
  "wire env rs = concat (map (write_reply env []) rs)"

lemma wire_simps [simp]: "wire env [] = []" "wire env (r # rs) = write_reply env [] r @ wire env rs"
  "wire env (rs @ rs') = wire env rs @ wire env rs'"
  by (simp_all add: wire_def)

lemma write_reply_append: "write_reply env out r = out @ write_reply env [] r"
  by (cases "location r") (simp_all add: write_reply_def Let_def itoa_append [of "_ @ _"] itoa_append [of "_ # _"])

definition called :: "environ \<Rightarrow> 'w handler \<Rightarrow> string \<Rightarrow> string \<Rightarrow> 'w \<Rightarrow> fault + reply \<times> 'w" where
  "called env h peer s w = (let ri = parse_req s 0
     in h (rq_method ri) (rq_path ri) (body_of ri s) (rq_admin ri) (client_ip env ri peer) w)"

definition stops :: "string \<Rightarrow> (verdict \<times> reply list) option" where
  "stops s = (let ri = parse_req s 0
     in if rq_total ri = 0 then Some (Pending, [])
        else if rq_total ri = SIZE_MAX then Some (Malformed, [])
        else if refused ri then Some (Oversize, [too_large])
        else None)"

lemma answers_stop: "stops s = Some (v, rs) \<Longrightarrow> answers env h peer s w = Inr (v, rs, s, w)"
  by (subst answers.simps) (auto simp: stops_def Let_def split: if_splits)

lemma answers_go:
  "stops s = None \<Longrightarrow> answers env h peer s w =
     (case called env h peer s w of
        Inl f \<Rightarrow> Inl f
      | Inr (r, w) \<Rightarrow>
          if \<not> rq_alive (parse_req s 0) then Inr (Last, [r], drop (rq_total (parse_req s 0)) s, w)
          else (case answers env h peer (drop (rq_total (parse_req s 0)) s) w of
                  Inl f \<Rightarrow> Inl f
                | Inr (v, rs, t, w) \<Rightarrow> Inr (v, r # rs, t, w)))"
  by (subst answers.simps) (auto simp: stops_def called_def Let_def split: if_splits)

lemma stops_None:
  assumes "stops s = None"
  shows "0 < rq_total (parse_req s 0)" "rq_total (parse_req s 0) \<le> length s" "rq_total (parse_req s 0) \<noteq> SIZE_MAX" "\<not> refused (parse_req s 0)"
  using assms parse_req_total [of s 0] by (auto simp: stops_def Let_def split: if_splits)

lemma stream_induct [case_names stop go]:
  assumes "\<And>s v rs. stops s = Some (v, rs) \<Longrightarrow> P s"
    and "\<And>s. stops s = None \<Longrightarrow> P (drop (rq_total (parse_req s 0)) s) \<Longrightarrow> P s"
  shows "P s"
proof (induction s rule: length_induct)
  case (1 s)
  show ?case
  proof (cases "stops s")
    case None
    then have "P (drop (rq_total (parse_req s 0)) s)" using stops_None(1,2) [OF None] 1 by simp
    then show ?thesis using assms(2) None by blast
  next
    case (Some x)
    then show ?thesis using assms(1) by (cases x) auto
  qed
qed

lemma answers_rest: "answers env h peer s w = Inr (v, rs, t, w') \<Longrightarrow> length t \<le> length s"
proof (induction s arbitrary: w rs rule: stream_induct)
  case (go s)
  from go.prems show ?case
    by (auto simp: answers_go [OF go.hyps] split: sum.splits if_splits dest!: go.IH)
qed (simp add: answers_stop)

lemma stops_extend:
  assumes "stops s = None" and "length s < 2 ^ 63"
  shows "stops (s @ t) = None" "called env h peer (s @ t) w = called env h peer s w" "parse_req (s @ t) 0 = parse_req s 0"
proof -
  note n = stops_None [OF assms(1)]
  show p: "parse_req (s @ t) 0 = parse_req s 0" using n(1) by (simp add: parse_req_extend)
  show "stops (s @ t) = None" using n by (simp add: stops_def Let_def p)
  show "called env h peer (s @ t) w = called env h peer s w"
    using body_of_extend [OF _ n(3,4) assms(2)] n(1) by (simp add: called_def Let_def p)
qed

text \<open>Reading on: what a stream answers is what its beginning answers, then what the rest of it does with the bytes that follow.\<close>

lemma answers_append:
  assumes "length s < 2 ^ 63"
  shows "answers env h peer (s @ s') w =
    (case answers env h peer s w of
       Inl f \<Rightarrow> Inl f
     | Inr (v, rs, t, w1) \<Rightarrow>
         if v \<noteq> Pending then Inr (v, rs, t @ s', w1)
         else (case answers env h peer (t @ s') w1 of
                 Inl f \<Rightarrow> Inl f
               | Inr (v, rs', t', w2) \<Rightarrow> Inr (v, rs @ rs', t', w2)))"
  using assms
proof (induction s arbitrary: w rule: stream_induct)
  case (stop s v rs)
  show ?case
  proof (cases "v = Pending")
    case True
    then have "rs = []" using stop by (auto simp: stops_def Let_def split: if_splits)
    then show ?thesis using stop True by (simp add: answers_stop split: sum.split prod.split)
  next
    case False
    then have "rq_total (parse_req s 0) \<noteq> 0" using stop by (auto simp: stops_def Let_def split: if_splits)
    then have "stops (s @ s') = Some (v, rs)" using stop by (simp add: stops_def Let_def parse_req_extend)
    then show ?thesis using stop False by (simp add: answers_stop)
  qed
next
  case (go s)
  let ?n = "rq_total (parse_req s 0)"
  note x = stops_extend [OF go.hyps go.prems]
  have d: "drop ?n (s @ s') = drop ?n s @ s'" using stops_None(2) [OF go.hyps] by simp
  have IH: "answers env h peer (drop ?n s @ s') w =
    (case answers env h peer (drop ?n s) w of Inl f \<Rightarrow> Inl f
     | Inr (v, rs, t, w1) \<Rightarrow> if v \<noteq> Pending then Inr (v, rs, t @ s', w1)
         else (case answers env h peer (t @ s') w1 of Inl f \<Rightarrow> Inl f | Inr (v, rs', t', w2) \<Rightarrow> Inr (v, rs @ rs', t', w2)))" for w
    using go.prems by (intro go.IH) simp
  show ?case unfolding answers_go [OF x(1)] answers_go [OF go.hyps] x(2,3) d IH
    by (simp split: sum.split prod.split)
qed

lemma mini_requests_eq:
  "pos \<le> length buf \<Longrightarrow> mini_requests env h peer buf pos out w =
     (case answers env h peer (drop pos buf) w of
        Inl f \<Rightarrow> Inl f
      | Inr (v, rs, t, w) \<Rightarrow> Inr (v, length buf - length t, out @ wire env rs, w))"
proof (induction "drop pos buf" arbitrary: pos out w rule: stream_induct)
  case (stop v rs)
  then show ?case
    by (subst mini_requests.simps)
      (auto simp: answers_stop stops_def parse_req_at [of buf pos] Let_def refused_def write_reply_append [of env out] split: if_splits)
next
  case go
  let ?ri = "parse_req (drop pos buf) 0"
  note n = stops_None [OF go(1)]
  have d: "drop (rq_total ?ri) (drop pos buf) = drop (pos + rq_total ?ri) buf" by (simp add: add.commute)
  have "mini_requests env h peer buf pos out w =
      (case called env h peer (drop pos buf) w of
         Inl f \<Rightarrow> Inl f
       | Inr (r, w) \<Rightarrow>
           if \<not> rq_alive ?ri then Inr (Last, pos + rq_total ?ri, write_reply env out r, w)
           else mini_requests env h peer buf (pos + rq_total ?ri) (write_reply env out r) w)"
    using n(1,3,4) body_of_at [of pos buf]
    by (subst mini_requests.simps) (auto simp: parse_req_at [of buf pos] called_def Let_def refused_def split: sum.split prod.split)
  moreover have "mini_requests env h peer buf (pos + rq_total ?ri) out w =
     (case answers env h peer (drop (pos + rq_total ?ri) buf) w of Inl f \<Rightarrow> Inl f
      | Inr (v, rs, t, w) \<Rightarrow> Inr (v, length buf - length t, out @ wire env rs, w))" for out w
    using n(2) go.prems by (intro go(2)) (simp_all add: add.commute)
  ultimately show ?case unfolding answers_go [OF go(1)] d
    using n(2) go.prems by (auto simp: write_reply_append [of env out] split: sum.split prod.split)
qed

section \<open>A connection of the threaded server\<close>

text \<open>
  The network: a call to send takes at least one byte or is interrupted, and again and again comes
  a call that is not.
\<close>

definition send_ok :: "sender \<Rightarrow> bool" where
  "send_ok sd \<longleftrightarrow> (\<forall>n p. p \<noteq> [] \<longrightarrow> 0 < fst (sd n p) \<or> snd (sd n p)) \<and>
     (\<forall>n. \<exists>m \<ge> n. \<forall>p. p \<noteq> [] \<longrightarrow> 0 < fst (sd m p))"

lemma send_step:
  assumes "p \<noteq> []"
  shows "send_loop sd p c =
    (let c' = c\<lparr>cn_calls := cn_calls c + 1\<rparr>
     in if 0 < fst (sd (cn_calls c) p)
        then send_loop sd (drop (nat (fst (sd (cn_calls c) p))) p) (c'\<lparr>cn_sent := cn_sent c @ take (nat (fst (sd (cn_calls c) p))) p\<rparr>)
        else if snd (sd (cn_calls c) p) then send_loop sd p c' else Some (False, c'))"
  using assms by (subst send_loop.simps) (simp add: Let_def not_le split: prod.split)

lemma send_loop_all:
  assumes ok: "send_ok sd"
  shows "\<exists>k. send_loop sd p c = Some (True, c\<lparr>cn_sent := cn_sent c @ p, cn_calls := k\<rparr>)"
proof (induction p arbitrary: c rule: length_induct)
  case (1 p)
  show ?case
  proof (cases "p = []")
    case True
    then show ?thesis by (subst send_loop.simps) (auto intro: exI [of _ "cn_calls c"])
  next
    case False
    have taken: "\<exists>k. send_loop sd p c = Some (True, c\<lparr>cn_sent := cn_sent c @ p, cn_calls := k\<rparr>)"
      if "0 < fst (sd (cn_calls c) p)" for c
    proof -
      let ?n = "nat (fst (sd (cn_calls c) p))"
      have "length (drop ?n p) < length p" using False that by simp
      from 1 [rule_format, OF this, of "c\<lparr>cn_calls := cn_calls c + 1, cn_sent := cn_sent c @ take ?n p\<rparr>"]
      obtain k where "send_loop sd (drop ?n p) (c\<lparr>cn_calls := cn_calls c + 1, cn_sent := cn_sent c @ take ?n p\<rparr>) =
          Some (True, c\<lparr>cn_sent := cn_sent c @ p, cn_calls := k\<rparr>)" by auto
      then show ?thesis using that by (subst send_step [OF False]) (auto simp: Let_def)
    qed
    obtain m where m: "cn_calls c \<le> m" "\<And>q. q \<noteq> [] \<Longrightarrow> 0 < fst (sd m q)" using ok unfolding send_ok_def by blast
    have "\<exists>k. send_loop sd p c = Some (True, c\<lparr>cn_sent := cn_sent c @ p, cn_calls := k\<rparr>)" if "m = cn_calls c + j" for j c
      using that
    proof (induction j arbitrary: c)
      case 0
      then show ?case using taken [of c] m(2) [OF False] by simp
    next
      case (Suc j)
      show ?case
      proof (cases "0 < fst (sd (cn_calls c) p)")
        case no: False
        then have "snd (sd (cn_calls c) p)" using ok False by (auto simp: send_ok_def)
        then show ?thesis using no Suc.IH [of "c\<lparr>cn_calls := cn_calls c + 1\<rparr>"] Suc.prems by (subst send_step [OF False]) (simp add: Let_def)
      qed (rule taken)
    qed
    then show ?thesis using m(1) le_Suc_ex by blast
  qed
qed

text \<open>A connection between two turns: it holds an incomplete request, or nothing.\<close>

definition waiting :: "conn \<Rightarrow> bool" where
  "waiting c \<longleftrightarrow> cn_open c \<and> stops (cn_buf c) = Some (Pending, [])"

lemma waiting0: "waiting conn0"
  by (simp add: waiting_def conn0_def stops_def parse_req_def req_info0_def)

lemma answers_pending: "answers env h peer s w = Inr (Pending, rs, t, w') \<Longrightarrow> stops t = Some (Pending, [])"
proof (induction s arbitrary: w rs rule: stream_induct)
  case (stop s v rs')
  then show ?case by (auto simp: answers_stop stops_def Let_def split: if_splits)
next
  case (go s)
  from go.prems show ?case by (auto simp: answers_go [OF go.hyps] split: sum.splits if_splits dest!: go.IH)
qed

lemma answers_suffix: "answers env h peer s w = Inr (v, rs, t, w') \<Longrightarrow> drop (length s - length t) s = t"
proof (induction s arbitrary: w rs rule: stream_induct)
  case (go s)
  let ?n = "rq_total (parse_req s 0)"
  note n = stops_None [OF go.hyps]
  from go.prems show ?case
    unfolding answers_go [OF go.hyps]
    using n(2) answers_rest [of env h peer "drop ?n s"]
    by (fastforce split: sum.splits if_splits dest: go.IH simp: add.commute)
qed (simp add: answers_stop)

lemma conn_step_data:
  assumes "send_ok sd" and "cn_open c" and "answers env h peer (cn_buf c @ s) w = Inr (v, rs, t, w')"
  shows "\<exists>c'. conn_step env h sd peer (Data s) c w = Inr (c', w') \<and> cn_open c' = (v = Pending) \<and>
    (v = Pending \<longrightarrow> cn_buf c' = t) \<and>
    (\<exists>o'. cn_sent c' = cn_sent c @ o' \<and> prefix o' (wire env rs) \<and> (v = Pending \<or> v = Last \<longrightarrow> o' = wire env rs))"
proof -
  let ?c = "c\<lparr>cn_buf := cn_buf c @ s\<rparr>"
  have m: "mini_requests env h peer (cn_buf ?c) 0 [] w = Inr (v, length (cn_buf ?c) - length t, wire env rs, w')"
    using assms(3) by (simp add: mini_requests_eq)
  have t: "drop (length (cn_buf ?c) - length t) (cn_buf ?c) = t" using answers_suffix [OF assms(3)] by simp
  show ?thesis
  proof (cases "v = Malformed \<or> v = Oversize")
    case True
    then show ?thesis using m by (auto simp: conn_step_def send_once_def conn_close_def take_is_prefix)
  next
    case False
    then have v: "v = Pending \<or> v = Last" by (cases v) auto
    obtain k where k: "send_loop sd (wire env rs) (?c\<lparr>cn_buf := t\<rparr>) =
        Some (True, ?c\<lparr>cn_buf := t, cn_sent := cn_sent c @ wire env rs, cn_calls := k\<rparr>)"
      using send_loop_all [OF assms(1), of "wire env rs" "?c\<lparr>cn_buf := t\<rparr>"] by auto
    show ?thesis using m t k v False assms(2) by (auto simp: conn_step_def conn_close_def)
  qed
qed

lemma conn_loop_chunks:
  assumes ok: "send_ok sd" and "waiting c" and "length (cn_buf c @ concat cs) < 2 ^ 63"
    and "answers env h peer (cn_buf c @ concat cs) w = Inr (v, rs, t, w')"
  shows "\<exists>c'. conn_loop env h sd peer (map Data cs) c w = Inr (c', w') \<and> cn_open c' = (v = Pending) \<and>
    (v = Pending \<longrightarrow> cn_buf c' = t) \<and>
    (\<exists>o'. cn_sent c' = cn_sent c @ o' \<and> prefix o' (wire env rs) \<and> (v = Pending \<or> v = Last \<longrightarrow> o' = wire env rs))"
  using assms(2-4)
proof (induction cs arbitrary: c w rs)
  case Nil
  then show ?case by (auto simp: waiting_def answers_stop)
next
  case (Cons s cs)
  have l: "length (cn_buf c @ s) < 2 ^ 63" using Cons.prems(2) by simp
  note a = Cons.prems(3) [unfolded concat.simps append_assoc [symmetric] answers_append [OF l]]
  obtain v1 rs1 t1 w1 where h: "answers env h peer (cn_buf c @ s) w = Inr (v1, rs1, t1, w1)" using a by (auto split: sum.splits)
  have op: "cn_open c" using Cons.prems(1) by (simp add: waiting_def)
  obtain c1 o1 where c1: "conn_step env h sd peer (Data s) c w = Inr (c1, w1)" "cn_open c1 = (v1 = Pending)"
    "v1 = Pending \<longrightarrow> cn_buf c1 = t1" "cn_sent c1 = cn_sent c @ o1" "prefix o1 (wire env rs1)"
    "v1 = Pending \<or> v1 = Last \<longrightarrow> o1 = wire env rs1" using conn_step_data [OF ok op h] by blast
  show ?case
  proof (cases "v1 = Pending")
    case True
    then obtain rs2 where r: "answers env h peer (cn_buf c1 @ concat cs) w1 = Inr (v, rs2, t, w')" "rs = rs1 @ rs2"
      using a h c1(3) by (auto split: sum.splits prod.splits)
    have "waiting c1" using True c1(2,3) answers_pending h by (auto simp: waiting_def)
    moreover have "length (cn_buf c1 @ concat cs) < 2 ^ 63" using Cons.prems(2) answers_rest [OF h] c1(3) True by simp
    ultimately obtain c2 o2 where c2: "conn_loop env h sd peer (map Data cs) c1 w1 = Inr (c2, w')" "cn_open c2 = (v = Pending)"
      "v = Pending \<longrightarrow> cn_buf c2 = t" "cn_sent c2 = cn_sent c1 @ o2" "prefix o2 (wire env rs2)"
      "v = Pending \<or> v = Last \<longrightarrow> o2 = wire env rs2" using Cons.IH [OF _ _ r(1)] by blast
    have "conn_loop env h sd peer (map Data (s # cs)) c w = Inr (c2, w')" using op c1(1) c2(1) by simp
    then show ?thesis using c1(4,6) c2 r(2) True by (intro exI [of _ c2]) auto
  next
    case False
    then have e: "v = v1" "rs = rs1" "w' = w1" using a h by auto
    have "conn_loop env h sd peer (map Data cs) c1 w1 = Inr (c1, w1)" using False c1(2) by (cases cs) simp_all
    then have "conn_loop env h sd peer (map Data (s # cs)) c w = Inr (c1, w')" using op c1(1) e by simp
    then show ?thesis using c1 e False by blast
  qed
qed

section \<open>What a client reads\<close>

text \<open>
  A client of the protocol: a reply is a status line, header lines up to an empty line and as many
  bytes of body as the header \<^verbatim>\<open>content-length\<close> says.
\<close>

fun join :: "string list \<Rightarrow> string" where
  "join [] = []"
| "join (l # ls) = l @ CRLF @ join ls"

function split_crlf :: "string \<Rightarrow> string list" where
  "split_crlf s = (case str_find CRLF s of None \<Rightarrow> [s] | Some k \<Rightarrow> take k s # split_crlf (drop (k + 2) s))"
  by pat_completeness auto
termination
  by (relation "measure length") (auto dest: str_find_Some)

declare split_crlf.simps [simp del]

definition header :: "string \<Rightarrow> string list \<Rightarrow> string option" where
  "header k ls = (case filter (\<lambda>l. prefix (k @ '': '') l) ls of [] \<Rightarrow> None | l # _ \<Rightarrow> Some (drop (length k + 2) l))"

type_synonym seen = "string \<times> string option \<times> string"

definition read_reply :: "string \<Rightarrow> (seen \<times> string) option" where
  "read_reply s =
     (case str_find (CRLF @ CRLF) s of
        None \<Rightarrow> None
      | Some he \<Rightarrow>
          (let ls = split_crlf (take he s);
               n = (case header ''content-length'' ls of None \<Rightarrow> 0 | Some v \<Rightarrow> nat (strtoll v));
               rest = drop (he + 4) s
           in if length rest < n then None
              else Some ((hd ls, header ''location'' ls, take n rest), drop n rest)))"

function read_replies :: "string \<Rightarrow> seen list \<times> string" where
  "read_replies s =
     (case read_reply s of None \<Rightarrow> ([], s) | Some (x, t) \<Rightarrow> (let (xs, u) = read_replies t in (x # xs, u)))"
  by pat_completeness auto
termination
proof (relation "measure length")
  fix s and x :: "seen \<times> string" and y t
  assume "read_reply s = Some x" "(y, t) = x"
  then show "(t, s) \<in> measure length"
    by (auto simp: read_reply_def Let_def split: option.splits if_splits dest!: str_find_Some)
qed simp

declare read_replies.simps [simp del]

definition seen_of :: "reply \<Rightarrow> seen" where
  "seen_of r = (takeWhile (\<lambda>c. c \<noteq> CR) (status_line (status r)), location r, if location r = None then body r else [])"

text \<open>What a header may hold: anything but the characters that end a line.\<close>

definition one_line :: "string \<Rightarrow> bool" where
  "one_line s \<longleftrightarrow> CR \<notin> set s \<and> NL \<notin> set s"

definition clean :: "reply \<Rightarrow> bool" where
  "clean r \<longleftrightarrow> pred_option one_line (location r) \<and> pred_option one_line (ctype r) \<and> in_i64 (int (length (body r)))"

lemma str_find_no: "CR \<notin> set l \<Longrightarrow> str_find CRLF l = None"
  by (induction l) auto

lemma str_find_line:
  assumes "CR \<notin> set l" and "l \<noteq> []" and "str_find (CRLF @ CRLF) s = Some k" and "s \<noteq> []" and "hd s \<noteq> CR"
  shows "str_find (CRLF @ CRLF) (l @ CRLF @ s) = Some (length l + 2 + k)"
  using assms(1,2)
proof (induction l)
  case (Cons c l)
  show ?case
  proof (cases "l = []")
    case True
    then show ?thesis using assms(3-5) Cons.prems by (cases s) auto
  next
    case False
    then show ?thesis using Cons by auto
  qed
qed simp

lemma str_find_head:
  assumes "list_all (\<lambda>l. CR \<notin> set l \<and> l \<noteq> []) ls" and "ls \<noteq> []"
  shows "str_find (CRLF @ CRLF) (join ls @ CRLF @ t) = Some (length (join ls) - 2)"
  using assms
proof (induction ls)
  case (Cons l ls)
  show ?case
  proof (cases "ls = []")
    case True
    have "CR \<notin> set l \<Longrightarrow> str_find (CRLF @ CRLF) (l @ CRLF @ CRLF @ t) = Some (length l)" by (induction l) auto
    then show ?thesis using True Cons.prems by simp
  next
    case False
    then obtain m ms where m: "ls = m # ms" by (cases ls) auto
    have "join ls @ CRLF @ t \<noteq> []" "hd (join ls @ CRLF @ t) \<noteq> CR" using m Cons.prems by (cases m; auto)+
    moreover have "str_find (CRLF @ CRLF) (join ls @ CRLF @ t) = Some (length (join ls) - 2)" using False Cons by simp
    moreover have "2 \<le> length (join ls)" using m by simp
    ultimately show ?thesis using str_find_line [of l "join ls @ CRLF @ t"] Cons.prems by simp
  qed
qed simp

lemma take_join:
  assumes "ls \<noteq> []"
  shows "take (length (join (l # ls)) - 2) (join (l # ls)) = l @ CRLF @ take (length (join ls) - 2) (join ls)"
proof -
  obtain j where "length (join ls) = Suc (Suc j)" using assms by (cases ls) auto
  then show ?thesis by simp
qed

lemma split_head:
  assumes "list_all (\<lambda>l. CR \<notin> set l) ls" and "ls \<noteq> []"
  shows "split_crlf (take (length (join ls) - 2) (join ls)) = ls"
  using assms
proof (induction ls)
  case (Cons l ls)
  show ?case
  proof (cases "ls = []")
    case True
    then show ?thesis using Cons.prems by (subst split_crlf.simps) (simp add: str_find_no)
  next
    case False
    let ?rest = "take (length (join ls) - 2) (join ls)"
    have "CR \<notin> set l" using Cons.prems by simp
    then have "str_find CRLF (l @ CRLF @ ?rest) = Some (length l)" by (rule str_find_two)
    then have "split_crlf (l @ CRLF @ ?rest) = l # split_crlf ?rest" by (subst split_crlf.simps) simp
    then show ?thesis unfolding take_join [OF False] using Cons False by simp
  qed
qed simp

definition head_lines :: "environ \<Rightarrow> reply \<Rightarrow> string list" where
  "head_lines env r =
     [takeWhile (\<lambda>c. c \<noteq> CR) (status_line (status r)), ''access-control-allow-origin: '' @ cors_origin env,
      ''access-control-allow-methods: GET,POST,PATCH,DELETE,OPTIONS'', ''access-control-allow-headers: content-type,x-admin-token'',
      ''access-control-max-age: 86400''] @
     (case location r of
        Some l \<Rightarrow> [''location: '' @ l, ''content-length: 0'']
      | None \<Rightarrow> [''content-type: '' @ (case ctype r of Some t \<Rightarrow> t | None \<Rightarrow> ''application/json''),
                 ''content-length: '' @ itoa [] (int (length (body r)))])"

lemma status_line_eq: "status_line st = takeWhile (\<lambda>c. c \<noteq> CR) (status_line st) @ CRLF" "takeWhile (\<lambda>c. c \<noteq> CR) (status_line st) \<noteq> []"
  "prefix ''HTTP/1.1 '' (takeWhile (\<lambda>c. c \<noteq> CR) (status_line st))"
  by (simp_all add: status_line_def)

lemma write_reply_lines:
  "write_reply env [] r = join (head_lines env r) @ CRLF @ (if location r = None then body r else [])"
  using status_line_eq(1) [of "status r"]
  by (cases "location r") (simp_all add: write_reply_def head_lines_def cors_block_def Let_def itoa_append [of "_ @ _"] itoa_append [of "_ # _"])

lemma itoa0: "itoa [] 0 = ''0''"
  by code_simp

lemma read_write_reply:
  assumes "clean r" and "one_line (cors_origin env)"
  shows "read_reply (write_reply env [] r @ rest) = Some (seen_of r, rest)"
proof -
  let ?ls = "head_lines env r" and ?b = "if location r = None then body r else []"
  obtain u where u: "takeWhile (\<lambda>c. c \<noteq> CR) (status_line (status r)) = ''HTTP/1.1 '' @ u"
    using status_line_eq(3) [of "status r"] by (auto simp: prefix_def)
  have "CR \<notin> set (takeWhile (\<lambda>c. c \<noteq> CR) (status_line (status r)))" by (auto dest: set_takeWhileD)
  then have uc: "CR \<notin> set u" unfolding u by simp
  have ok: "list_all (\<lambda>l. CR \<notin> set l \<and> l \<noteq> []) ?ls" "?ls \<noteq> []"
    using assms uc itoa_avoids [of CR "int (length (body r))"]
    by (auto simp: head_lines_def u clean_def one_line_def digit_chr_def split: option.splits)
  then have ok': "list_all (\<lambda>l. CR \<notin> set l) ?ls" by (auto simp: list_all_iff)
  have w: "write_reply env [] r @ rest = join ?ls @ CRLF @ ?b @ rest" by (simp add: write_reply_lines)
  have two: "2 \<le> length (join ?ls)" using ok(2) by (cases ?ls) auto
  have n: "header ''content-length'' ?ls = Some (itoa [] (int (length ?b)))" "header ''location'' ?ls = location r" "hd ?ls = fst (seen_of r)"
    using itoa0 by (auto simp: head_lines_def u seen_of_def header_def split: option.splits)
  have len: "in_i64 (int (length ?b))" using assms(1) by (simp add: clean_def in_i64_def)
  show ?thesis unfolding w read_reply_def str_find_head [OF ok]
    using two split_head [OF ok' ok(2)] n len by (simp add: Let_def seen_of_def)
qed

lemma read_replies_wire:
  assumes "list_all clean rs" and "one_line (cors_origin env)"
  shows "read_replies (wire env rs) = (map seen_of rs, [])"
  using assms(1)
proof (induction rs)
  case Nil
  show ?case by (subst read_replies.simps) (simp add: read_reply_def)
next
  case (Cons r rs)
  then show ?case using read_write_reply [OF _ assms(2), of r "wire env rs"] by (subst read_replies.simps) simp
qed

section \<open>What a client writes\<close>

record wish =
  w_method :: string
  w_path :: string
  w_token :: string
  w_body :: string

definition asks :: "wish \<Rightarrow> string" where
  "asks q = join [w_method q @ '' '' @ w_path q @ '' HTTP/1.1'', ''host: shrt'', ''x-admin-token: '' @ w_token q,
     ''content-length: '' @ itoa [] (int (length (w_body q)))] @ CRLF @ w_body q"

definition word_ok :: "string \<Rightarrow> bool" where
  "word_ok s \<longleftrightarrow> s \<noteq> [] \<and> one_line s \<and> CHR '' '' \<notin> set s \<and> TAB \<notin> set s"

definition wish_ok :: "wish \<Rightarrow> bool" where
  "wish_ok q \<longleftrightarrow> word_ok (w_method q) \<and> word_ok (w_path q) \<and> (w_token q = [] \<or> word_ok (w_token q)) \<and>
     (if w_method q = ''POST'' \<or> w_method q = ''PATCH'' then length (w_body q) \<le> body_limit (w_path q) else w_body q = [])"

lemma chr_find_first: "c \<notin> set s \<Longrightarrow> chr_find c (s @ [c] @ t) = Some (length s)"
  by (simp add: chr_find_append)

lemma trim_word: "w = [] \<or> word_ok w \<Longrightarrow> trim (\<lambda>c. c = CHR '' '' \<or> c = TAB) (CHR '' '' # w) = w"
proof -
  assume a: "w = [] \<or> word_ok w"
  have d: "dropWhile (\<lambda>c. c = CHR '' '' \<or> c = TAB) v = v" if "set v \<subseteq> set w" for v
    using a that by (cases v) (auto simp: word_ok_def)
  show ?thesis using d [of w] d [of "rev w"] by (simp add: trim_def)
qed

lemma itoa_word: "word_ok (itoa [] (int n))"
  using itoa_avoids [of _ "int n"] by (auto simp: word_ok_def one_line_def digit_chr_def)

lemma header_scan_lines:
  "list_all (\<lambda>l. CR \<notin> set l \<and> l \<noteq> []) ls \<Longrightarrow> ls \<noteq> [] \<Longrightarrow> header_scan (take (length (join ls) - 2) (join ls)) x = fold header_line ls x"
proof (induction ls arbitrary: x)
  case (Cons l ls)
  show ?case
  proof (cases "ls = []")
    case True
    then show ?thesis using Cons.prems by (subst header_scan.simps) (simp add: str_find_no)
  next
    case False
    let ?rest = "take (length (join ls) - 2) (join ls)"
    have "CR \<notin> set l" using Cons.prems by simp
    then have "str_find CRLF (l @ CRLF @ ?rest) = Some (length l)" by (rule str_find_two)
    then have "header_scan (l @ CRLF @ ?rest) x = header_scan ?rest (header_line l x)" by (subst header_scan.simps) simp
    then show ?thesis unfolding take_join [OF False] using Cons False by simp
  qed
qed simp

lemma parse_head_wish:
  assumes "wish_ok q"
  defines "hs \<equiv> [''host: shrt'', ''x-admin-token: '' @ w_token q, ''content-length: '' @ itoa [] (int (length (w_body q)))]"
  defines "ls \<equiv> (w_method q @ '' '' @ w_path q @ '' HTTP/1.1'') # hs"
  shows "parse_head (take (length (join ls) - 2) (join ls)) =
    Some (length (w_body q), req_info0\<lparr>rq_method := w_method q, rq_path := w_path q, rq_admin := w_token q, rq_alive := True\<rparr>)"
proof -
  let ?rest = "take (length (join hs) - 2) (join hs)"
  have "hs \<noteq> []" by (simp add: hs_def)
  from take_join [OF this] have t: "take (length (join ls) - 2) (join ls) = w_method q @ '' '' @ w_path q @ '' HTTP/1.1'' @ CRLF @ ?rest"
    unfolding ls_def by (simp only: append_assoc)
  have w: "CHR '' '' \<notin> set (w_method q)" "CHR '' '' \<notin> set (w_path q)" using assms(1) by (simp_all add: wish_ok_def word_ok_def)
  have b: "length (w_body q) \<le> 2 ^ 20" using assms(1) by (auto simp: wish_ok_def body_limit_def MAX_BODY_def MAX_BULK_BODY_def split: if_splits)
  have h: "list_all (\<lambda>l. CR \<notin> set l \<and> l \<noteq> []) hs" "hs \<noteq> []"
    using assms(1) itoa_word [of "length (w_body q)"] by (auto simp: hs_def wish_ok_def word_ok_def one_line_def)
  have sz: "size_of (strtoll (itoa [] (int (length (w_body q))))) = length (w_body q)"
    using b by (simp add: size_of_def in_i64_def)
  have l1: "header_line ''host: shrt'' x = x" for x by (cases x) (simp add: header_line_def)
  have l2: "header_line (''x-admin-token: '' @ w_token q) (c, ri) = (c, ri\<lparr>rq_admin := w_token q\<rparr>)" for c ri
    using assms(1) trim_word [of "w_token q"] by (simp add: header_line_def wish_ok_def)
  have l3: "header_line (''content-length: '' @ itoa [] (int (length (w_body q)))) (c, ri) = (length (w_body q), ri)" for c ri
    using trim_word [OF disjI2 [OF itoa_word]] sz by (simp add: header_line_def)
  have s: "header_scan ?rest (c, ri) = (length (w_body q), ri\<lparr>rq_admin := w_token q\<rparr>)" for c ri
    unfolding header_scan_lines [OF h] by (simp only: hs_def fold.simps comp_apply id_apply l1 l2 l3)
  have v: "str_find CRLF (''HTTP/1.1'' @ CRLF @ ?rest) = Some 8" by (subst str_find_two) simp_all
  show ?thesis unfolding t parse_head_def
    using chr_find_first [OF w(1), of "w_path q @ '' HTTP/1.1'' @ CRLF @ ?rest"] chr_find_first [OF w(2), of "''HTTP/1.1'' @ CRLF @ ?rest"] v
    by (simp add: s req_info0_def)
qed

lemma parse_req_wish:
  assumes "wish_ok q" and "length (asks q) < 2 ^ 63"
  shows "stops (asks q @ rest) = None" "drop (rq_total (parse_req (asks q @ rest) 0)) (asks q @ rest) = rest"
    "rq_alive (parse_req (asks q @ rest) 0)"
    "called env h peer (asks q @ rest) w = h (w_method q) (w_path q) (w_body q) (w_token q) peer w"
proof -
  define hs where "hs = [''host: shrt'', ''x-admin-token: '' @ w_token q, ''content-length: '' @ itoa [] (int (length (w_body q)))]"
  define ls where "ls = (w_method q @ '' '' @ w_path q @ '' HTTP/1.1'') # hs"
  have ok: "list_all (\<lambda>l. CR \<notin> set l \<and> l \<noteq> []) ls" "ls \<noteq> []"
    using assms(1) itoa_word [of "length (w_body q)"] by (auto simp: ls_def hs_def wish_ok_def word_ok_def one_line_def)
  let ?he = "length (join ls) - 2" and ?s = "asks q @ rest"
  have s: "?s = join ls @ CRLF @ w_body q @ rest" by (simp add: asks_def ls_def hs_def)
  have he: "str_find (CRLF @ CRLF) ?s = Some ?he" unfolding s by (rule str_find_head [OF ok])
  have two: "2 \<le> length (join ls)" using ok(2) by (cases ls) auto
  have tk: "take ?he ?s = take ?he (join ls)" unfolding s using two by simp
  have hd: "parse_head (take ?he ?s) =
      Some (length (w_body q), req_info0\<lparr>rq_method := w_method q, rq_path := w_path q, rq_admin := w_token q, rq_alive := True\<rparr>)"
    unfolding tk by (rule parse_head_wish [OF assms(1), folded hs_def, folded ls_def])
  have la: "length (asks q) = ?he + 4 + length (w_body q)" using two by (simp add: asks_def ls_def hs_def)
  have nb: "needs_body (req_info0\<lparr>rq_method := w_method q, rq_path := w_path q, rq_admin := w_token q, rq_alive := True\<rparr>) \<longleftrightarrow>
      w_method q = ''POST'' \<or> w_method q = ''PATCH''" by (simp add: needs_body_def)
  have len: "(if w_method q = ''POST'' \<or> w_method q = ''PATCH'' then length (w_body q) else 0) = length (w_body q)"
    using assms(1) by (auto simp: wish_ok_def)
  have p: "parse_req ?s 0 = req_info0\<lparr>rq_method := w_method q, rq_path := w_path q, rq_admin := w_token q, rq_alive := True,
      rq_body_off := ?he + 4, rq_body_len := length (w_body q), rq_total := length (asks q)\<rparr>"
    unfolding parse_req_def Let_def drop_0 he option.case hd prod.case nb len la [symmetric] using assms(2) by simp
  have lim: "\<not> refused (parse_req ?s 0)" using assms(1) by (simp add: p refused_def needs_body_def wish_ok_def not_less split: if_splits)
  have nz: "0 < length (asks q)" "length (asks q) \<noteq> SIZE_MAX" using assms(2) la by (simp_all add: SIZE_MAX_def)
  show "stops ?s = None" using nz lim by (simp add: stops_def Let_def) (simp add: p)
  show "drop (rq_total (parse_req ?s 0)) ?s = rest" "rq_alive (parse_req ?s 0)" by (simp_all add: p)
  have "drop (?he + 4) ?s = w_body q @ rest" unfolding s using two by simp
  then have "body_of (parse_req ?s 0) ?s = w_body q" using assms(1) by (auto simp: p body_of_def needs_body_def wish_ok_def split: if_splits)
  then show "called env h peer ?s w = h (w_method q) (w_path q) (w_body q) (w_token q) peer w"
    by (simp add: called_def Let_def p client_ip_def req_info0_def)
qed

fun serve_all :: "'w handler \<Rightarrow> string \<Rightarrow> wish list \<Rightarrow> 'w \<Rightarrow> fault + reply list \<times> 'w" where
  "serve_all h peer [] w = Inr ([], w)"
| "serve_all h peer (q # qs) w =
     (case h (w_method q) (w_path q) (w_body q) (w_token q) peer w of
        Inl f \<Rightarrow> Inl f
      | Inr (r, w) \<Rightarrow> (case serve_all h peer qs w of Inl f \<Rightarrow> Inl f | Inr (rs, w) \<Rightarrow> Inr (r # rs, w)))"

lemma stops_Nil [simp]: "stops [] = Some (Pending, [])"
  by (simp add: stops_def parse_req_def req_info0_def)

lemma answers_wish:
  assumes "wish_ok q" and "length (asks q) < 2 ^ 63"
  shows "answers env h peer (asks q @ rest) w =
    (case h (w_method q) (w_path q) (w_body q) (w_token q) peer w of
       Inl f \<Rightarrow> Inl f
     | Inr (r, w) \<Rightarrow> (case answers env h peer rest w of Inl f \<Rightarrow> Inl f | Inr (v, rs, t, w) \<Rightarrow> Inr (v, r # rs, t, w)))"
  unfolding answers_go [OF parse_req_wish(1) [OF assms]] parse_req_wish(2,4) [OF assms] using parse_req_wish(3) [OF assms]
  by (simp split: sum.split prod.split)

lemma answers_wishes:
  assumes "list_all wish_ok qs" and "length (concat (map asks qs)) < 2 ^ 63" and "serve_all h peer qs w = Inr (rs, w')"
  shows "answers env h peer (concat (map asks qs)) w = Inr (Pending, rs, [], w')"
  using assms
proof (induction qs arbitrary: w rs)
  case Nil
  then show ?case by (simp add: answers_stop)
next
  case (Cons q qs)
  have q: "wish_ok q" "length (asks q) < 2 ^ 63" using Cons.prems(1,2) by simp_all
  have IH: "serve_all h peer qs w = Inr (rs, w') \<Longrightarrow> answers env h peer (concat (map asks qs)) w = Inr (Pending, rs, [], w')" for w rs
    using Cons by simp
  show ?case using Cons.prems(3) by (auto simp: answers_wish [OF q] split: sum.splits prod.splits dest!: IH)
qed

text \<open>
  C31: Requests and replies keep their order and their boundaries on the wire. When a client sends any
  number of well-formed requests one after the other without waiting, and the network cuts the
  bytes into whatever pieces, answers calls to send with whatever part of the data it takes, and
  interrupts them, then the handler is called once for each request, in their order, with their method,
  path, body and token, and the client reads back exactly the replies of these calls.
\<close>

theorem pipelined_round_trip:
  assumes "send_ok sd" and "one_line (cors_origin env)" and "list_all wish_ok qs" and "concat cs = concat (map asks qs)"
    and "length (concat cs) < 2 ^ 63" and "serve_all h peer qs w = Inr (rs, w')" and "list_all clean rs"
  shows "\<exists>c. conn_loop env h sd peer (map Data cs) conn0 w = Inr (c, w') \<and> cn_open c \<and> cn_buf c = [] \<and>
    read_replies (cn_sent c) = (map seen_of rs, [])"
proof -
  have a: "answers env h peer (cn_buf conn0 @ concat cs) w = Inr (Pending, rs, [], w')"
    using answers_wishes [OF assms(3) _ assms(6)] assms(4,5) by (simp add: conn0_def)
  have "length (cn_buf conn0 @ concat cs) < 2 ^ 63" using assms(5) by (simp add: conn0_def)
  from conn_loop_chunks [OF assms(1) waiting0 this a] show ?thesis
    using read_replies_wire [OF assms(7,2)] by (auto simp: conn0_def)
qed

text \<open>
  C32: How the network cuts a byte stream does not matter. For any bytes at all, well-formed or not, two ways to
  cut them lead to the same calls of the handler and to connections that are both open or both
  closed; unless a request was malformed or too large, the same bytes have been sent, and they are
  the replies in the order of the requests.
\<close>

theorem chunks_do_not_matter:
  assumes "send_ok sd" and "concat ds = concat cs" and "length (concat cs) < 2 ^ 63"
    and "answers env h peer (concat cs) w = Inr (v, rs, t, w')"
  shows "\<exists>c d. conn_loop env h sd peer (map Data cs) conn0 w = Inr (c, w') \<and> conn_loop env h sd peer (map Data ds) conn0 w = Inr (d, w') \<and>
    cn_open c = cn_open d \<and> prefix (cn_sent c) (wire env rs) \<and>
    (v = Pending \<or> v = Last \<longrightarrow> cn_sent c = wire env rs \<and> cn_sent d = wire env rs) \<and> (v = Pending \<longrightarrow> cn_buf c = cn_buf d)"
proof -
  have b: "cn_buf conn0 = []" "cn_sent conn0 = []" by (simp_all add: conn0_def)
  note run = conn_loop_chunks [OF assms(1) waiting0, unfolded b append_Nil]
  have "length (concat ds) < 2 ^ 63" "answers env h peer (concat ds) w = Inr (v, rs, t, w')" using assms(2-4) by simp_all
  from run [OF assms(3,4)] run [OF this] show ?thesis by fastforce
qed

text \<open>
  A malformed request takes the replies before it along. When a well-formed request and a
  malformed one arrive together, the handler has been called for the first, but nothing is sent;
  had they arrived one after the other, its reply would have been.
\<close>

lemma malformed_drops_replies:
  assumes "send_ok sd" and "wish_ok q" and "length (asks q) < 2 ^ 63" and "CHR '' '' \<notin> set l" and "CR \<notin> set l" and "l \<noteq> []"
    and "h (w_method q) (w_path q) (w_body q) (w_token q) peer w = Inr (r, w')"
  shows "(\<exists>c. conn_loop env h sd peer [Data (asks q @ l @ CRLF @ CRLF)] conn0 w = Inr (c, w') \<and> cn_sent c = [] \<and> \<not> cn_open c) \<and>
    (\<exists>c. conn_loop env h sd peer [Data (asks q), Data (l @ CRLF @ CRLF)] conn0 w = Inr (c, w') \<and>
      cn_sent c = write_reply env [] r \<and> \<not> cn_open c)"
proof -
  define m where "m = l @ CRLF @ CRLF"
  have "str_find (CRLF @ CRLF) m = Some (length l)" using str_find_head [of "[l]" "[]"] assms(5,6) by (simp add: m_def)
  moreover have "parse_head l = None" using assms(4) chr_find_None [of "CHR '' ''" l] by (simp add: parse_head_def)
  ultimately have "parse_req m 0 = req_info0\<lparr>rq_total := SIZE_MAX\<rparr>" by (simp add: parse_req_def m_def)
  then have st: "stops m = Some (Malformed, [])" by (simp add: stops_def SIZE_MAX_def)
  have a: "answers env h peer (asks q @ s) w = (case answers env h peer s w' of Inl f \<Rightarrow> Inl f | Inr (v, rs, t, w) \<Rightarrow> Inr (v, r # rs, t, w))" for s
    using assms(7) by (simp add: answers_wish [OF assms(2,3)])
  have one: "conn_step env h sd peer (Data (asks q @ m)) conn0 w = Inr (conn_close (conn0\<lparr>cn_buf := asks q @ m\<rparr>), w')"
    using a [of m] by (simp add: conn_step_def conn0_def mini_requests_eq answers_stop [OF st])
  obtain k where k: "send_loop sd (write_reply env [] r) conn0 = Some (True, conn0\<lparr>cn_sent := write_reply env [] r, cn_calls := k\<rparr>)"
    using send_loop_all [OF assms(1), of "write_reply env [] r" conn0] by (auto simp: conn0_def)
  let ?c1 = "conn0\<lparr>cn_sent := write_reply env [] r, cn_calls := k\<rparr>"
  have fst1: "conn_step env h sd peer (Data (asks q)) conn0 w = Inr (?c1, w')"
    using a [of "[]"] k by (simp add: conn_step_def mini_requests_eq answers_stop) (simp add: conn0_def)
  have snd1: "conn_step env h sd peer (Data m) ?c1 w' = Inr (conn_close (?c1\<lparr>cn_buf := m\<rparr>), w')"
    by (simp add: conn_step_def conn0_def mini_requests_eq answers_stop [OF st])
  show ?thesis unfolding m_def [symmetric] using one fst1 snd1 by (simp add: conn_close_def) (simp add: conn0_def)
qed

section \<open>The application behind the servers\<close>

text \<open>The handler of the application, with one supply of clock readings for each request.\<close>

definition app_handler :: "((nat \<Rightarrow> i64) \<Rightarrow> 's store_ops) \<Rightarrow> environ \<Rightarrow> string \<Rightarrow> ((nat \<Rightarrow> nat \<Rightarrow> i64) \<times> 's world) handler" where
  "app_handler ops env html mthd path bdy token client tw =
     (case handle (ops (fst tw 0)) env html (fst tw 0) mthd path bdy token client (snd tw) of
        Inl f \<Rightarrow> Inl f
      | Inr (r, w) \<Rightarrow> Inr (r, (\<lambda>n. fst tw (Suc n), w)))"

definition byte_sender :: sender where
  "byte_sender n p = (1, False)"

lemma byte_sender_ok: "send_ok byte_sender"
  by (auto simp: send_ok_def byte_sender_def)

definition demo_wishes :: "wish list" where
  "demo_wishes = [\<lparr>w_method = ''OPTIONS'', w_path = ''/'', w_token = [], w_body = []\<rparr>,
     \<lparr>w_method = ''PATCH'', w_path = ''/api/links/ali'', w_token = ''guess'', w_body = ''{}''\<rparr>]"

lemma demo_wishes_ok: "list_all wish_ok demo_wishes"
  by code_simp

lemma demo_asks_length: "length (concat (map asks demo_wishes)) < 2 ^ 63" "length (asks (hd demo_wishes)) < 2 ^ 63"
proof -
  have "length (concat (map asks demo_wishes)) < 400" "length (asks (hd demo_wishes)) < 200" by code_simp+
  then show "length (concat (map asks demo_wishes)) < 2 ^ 63" "length (asks (hd demo_wishes)) < 2 ^ 63" by simp_all
qed

lemma demo_replies_clean: "list_all clean [no_content, not_found]"
  by (simp add: clean_def no_content_def not_found_def mk_def in_i64_def)

lemma demo_serve_all:
  "\<exists>tw'. serve_all (app_handler ops Map.empty html) peer demo_wishes tw = Inr ([no_content, not_found], tw')"
  by (simp add: demo_wishes_def app_handler_def handle_def route_def route_mutate_def admin_ok_def Let_def)

theorem pipelined_round_trip_witness:
  "\<exists>c tw'. conn_loop Map.empty (app_handler (aof_ops demo_os Map.empty isort) Map.empty []) byte_sender ''1.2.3.4''
       (map Data [take 30 (concat (map asks demo_wishes)), drop 30 (concat (map asks demo_wishes))]) conn0
       ((\<lambda>_ _. 5), demo_world demo_mem) = Inr (c, tw') \<and>
     read_replies (cn_sent c) =
       ([(''HTTP/1.1 204 No Content'', None, []), (''HTTP/1.1 404 Not Found'', None, ''{\"error\":\"not found\"}'')], [])"
proof -
  let ?h = "app_handler (aof_ops demo_os Map.empty isort) Map.empty []" and ?s = "concat (map asks demo_wishes)"
  obtain tw' where s: "serve_all ?h ''1.2.3.4'' demo_wishes ((\<lambda>_ _. 5), demo_world demo_mem) = Inr ([no_content, not_found], tw')"
    using demo_serve_all by blast
  have c: "one_line (cors_origin Map.empty)" by code_simp
  have e: "map seen_of [no_content, not_found] =
      [(''HTTP/1.1 204 No Content'', None, []), (''HTTP/1.1 404 Not Found'', None, ''{\"error\":\"not found\"}'')]" by code_simp
  have "concat [take 30 ?s, drop 30 ?s] = ?s" "length (concat [take 30 ?s, drop 30 ?s]) < 2 ^ 63" using demo_asks_length by simp_all
  from pipelined_round_trip [OF byte_sender_ok c demo_wishes_ok this s demo_replies_clean] e show ?thesis by auto
qed

theorem chunks_do_not_matter_witness:
  "\<exists>c d tw'. conn_loop Map.empty (app_handler (aof_ops demo_os Map.empty isort) Map.empty []) byte_sender ''1.2.3.4''
       (map Data [take 30 (concat (map asks demo_wishes)), drop 30 (concat (map asks demo_wishes))]) conn0
       ((\<lambda>_ _. 5), demo_world demo_mem) = Inr (c, tw') \<and>
     conn_loop Map.empty (app_handler (aof_ops demo_os Map.empty isort) Map.empty []) byte_sender ''1.2.3.4''
       (map Data [concat (map asks demo_wishes)]) conn0 ((\<lambda>_ _. 5), demo_world demo_mem) = Inr (d, tw') \<and>
     cn_sent c = wire Map.empty [no_content, not_found] \<and> cn_sent d = wire Map.empty [no_content, not_found] \<and> cn_open c = cn_open d"
proof -
  let ?h = "app_handler (aof_ops demo_os Map.empty isort) Map.empty []" and ?s = "concat (map asks demo_wishes)"
  obtain tw' where s: "serve_all ?h ''1.2.3.4'' demo_wishes ((\<lambda>_ _. 5), demo_world demo_mem) = Inr ([no_content, not_found], tw')"
    using demo_serve_all by blast
  have "answers Map.empty ?h ''1.2.3.4'' (concat [take 30 ?s, drop 30 ?s]) ((\<lambda>_ _. 5), demo_world demo_mem) =
      Inr (Pending, [no_content, not_found], [], tw')" using answers_wishes [OF demo_wishes_ok demo_asks_length(1) s] by simp
  from chunks_do_not_matter [where ds = "[?s]", OF byte_sender_ok _ _ this] demo_asks_length show ?thesis by auto
qed

text \<open>An address whose path ends the headers of a redirect early, the request that creates a link, and the request of a visitor.\<close>

definition split_url :: "string \<Rightarrow> string \<Rightarrow> string" where
  "split_url v x = v @ ''/'' @ CRLF @ ''content-length: 0'' @ CRLF @ CRLF @ x"

definition posting :: "string \<Rightarrow> string \<Rightarrow> wish" where
  "posting u a = \<lparr>w_method = ''POST'', w_path = ''/api/shorten'', w_token = [], w_body = jprint (J_OBJ [(''url'', J_STR u), (''alias'', J_STR a)])\<rparr>"

definition visit :: "string \<Rightarrow> wish" where
  "visit c = \<lparr>w_method = ''GET'', w_path = CHR ''/'' # c, w_token = [], w_body = []\<rparr>"

lemma posting_ok:
  assumes "length (w_body (posting u a)) \<le> MAX_BODY"
  shows "wish_ok (posting u a)" "length (asks (posting u a)) < 2 ^ 63"
proof -
  have p: "w_method (posting u a) = ''POST''" "w_path (posting u a) = ''/api/shorten''" "w_token (posting u a) = []" by (simp_all add: posting_def)
  have l: "body_limit ''/api/shorten'' = MAX_BODY" "word_ok ''POST''" "word_ok ''/api/shorten''" by code_simp+
  show "wish_ok (posting u a)" using assms l by (simp add: wish_ok_def p)
  show "length (asks (posting u a)) < 2 ^ 63"
    using assms length_to_string [of "int (length (w_body (posting u a)))"] by (simp add: asks_def p to_string_def MAX_BODY_def)
qed

lemma visit_ok: "code_ok c \<Longrightarrow> wish_ok (visit c) \<and> length (asks (visit c)) < 2 ^ 63"
  by (auto simp: visit_def wish_ok_def word_ok_def one_line_def asks_def itoa0 code_ok_def list_all_iff isalnum_def digit_val_def)

lemma write_split: "write_reply env [] (redirect (split_url v x)) =
    write_reply env [] (redirect (v @ ''/'')) @ x @ CRLF @ ''content-length: 0'' @ CRLF @ CRLF"
  by (simp add: write_reply_def redirect_def split_url_def)

lemma one_wish_loop:
  assumes "send_ok sd" and "wish_ok q" and "length (asks q) < 2 ^ 63" and "h (w_method q) (w_path q) (w_body q) (w_token q) peer w = Inr (r, w')"
  shows "\<exists>c. conn_loop env h sd peer [Data (asks q)] conn0 w = Inr (c, w') \<and> cn_sent c = write_reply env [] r"
proof -
  have "answers env h peer (cn_buf conn0 @ concat [asks q]) w = Inr (Pending, [r], [], w')"
    using answers_wish [OF assms(2,3), of env h peer "[]" w] assms(4) by (simp add: conn0_def answers_stop)
  from conn_loop_chunks [OF assms(1) waiting0 _ this] assms(3) show ?thesis by (auto simp: conn0_def)
qed

text \<open>
  C40: Response splitting. Whatever valid address with a host only is taken, and whatever bytes are put behind it after the
  end of a header block, a request to create a link with the whole as its address is answered with status 201 as long as the limits on
  the lengths of addresses and bodies are kept, and whoever visits the link reads a complete redirect to the plain address, and
  after it, as the beginning of the next reply on the connection, exactly the bytes chosen by the creator of the link.
\<close>

theorem response_splitting:
  assumes "is_valid_url (v @ ''/'')" and "one_line v" and "length (split_url v x) \<le> 2048"
    and "length (w_body (posting (split_url v x) a)) \<le> MAX_BODY" and "code_ok a" and "a \<noteq> ''metrics''"
    and "aof_view (the_store w) a = None" and "fst (allow (tm 0 1) peer (Fin 1) (limit_of w))"
    and "expiry (tm 0 0) (link_ttl_ms env) = 0 \<or> tm 1 0 < expiry (tm 0 0) (link_ttl_ms env)"
    and "send_ok sd" and "one_line (cors_origin env)"
  shows "\<exists>c1 tw1 c2 tw2.
    conn_loop env (app_handler (aof_ops sys env srt) env html) sd peer [Data (asks (posting (split_url v x) a))] conn0 (tm, w) = Inr (c1, tw1) \<and>
    cn_sent c1 = write_reply env [] (created a) \<and>
    conn_loop env (app_handler (aof_ops sys env srt) env html) sd peer' [Data (asks (visit a))] conn0 tw1 = Inr (c2, tw2) \<and>
    read_reply (cn_sent c2) = Some ((''HTTP/1.1 302 Found'', Some (v @ ''/''), []), x @ CRLF @ ''content-length: 0'' @ CRLF @ CRLF)"
proof -
  let ?u = "split_url v x" and ?h = "app_handler (aof_ops sys env srt) env html"
  let ?p = "J_OBJ [(''url'', J_STR ?u), (''alias'', J_STR a)]"
  have p: "jparse (jprint ?p) = Some ?p" by (rule jparse_jprint) simp
  have j: "j_find ''url'' ?p = Some (J_STR ?u)" "j_find ''alias'' ?p = Some (J_STR a)" "req_ttl env ?p = Inr (link_ttl_ms env)"
    by (simp_all add: j_find_def req_ttl_def)
  have u: "is_valid_url ?u" using is_valid_url_path [OF assms(1)] assms(3) by (simp only: split_url_def)
  obtain w1 where w1: "handle (aof_ops sys env srt (tm 0)) env html (tm 0) ''POST'' ''/api/shorten'' (jprint ?p) [] peer w = Inr (created a, w1)"
    and sh: "shorten sys (tm 0 0) ?u (Some a) (link_ttl_ms env) (the_store w) = Some (Some a, the_store w1)"
    using post_creates [where clk = "tm 0", OF p j(1) u j(2) assms(5) j(3) assms(8,7)] by blast
  let ?t1 = "\<lambda>n. tm (Suc n)"
  have "?h ''POST'' ''/api/shorten'' (jprint ?p) [] peer (tm, w) = Inr (created a, (?t1, w1))" by (simp add: app_handler_def w1 del: jprint.simps)
  then obtain c1 where c1: "conn_loop env ?h sd peer [Data (asks (posting ?u a))] conn0 (tm, w) = Inr (c1, (?t1, w1))"
      "cn_sent c1 = write_reply env [] (created a)"
    using one_wish_loop [OF assms(10) posting_ok [OF assms(4)], of ?h peer "(tm, w)" "created a" "(?t1, w1)" env]
    by (auto simp: posting_def simp del: jprint.simps)
  obtain w' where g: "handle (aof_ops sys env srt (tm 1)) env html (tm 1) ''GET'' (CHR ''/'' # a) [] [] peer' w1 = Inr (redirect ?u, w')"
    using get_known [OF assms(5,6) posted_view [OF sh], of sys env srt "tm 1" html "tm 1" "[]" "[]" peer'] unfolding if_P [OF assms(9)] by blast
  define tw2 where "tw2 = (\<lambda>n. ?t1 (Suc n), w')"
  have "?h ''GET'' (CHR ''/'' # a) [] [] peer' (?t1, w1) = Inr (redirect ?u, tw2)" using g by (simp add: app_handler_def tw2_def)
  then obtain c2 where c2: "conn_loop env ?h sd peer' [Data (asks (visit a))] conn0 (?t1, w1) = Inr (c2, tw2)" "cn_sent c2 = write_reply env [] (redirect ?u)"
    using one_wish_loop [OF assms(10), of "visit a" ?h peer' "(?t1, w1)" "redirect ?u" tw2 env] visit_ok [OF assms(5)] by (auto simp: visit_def)
  have "clean (redirect (v @ ''/''))" using assms(2) by (simp add: clean_def redirect_def one_line_def in_i64_def)
  from read_write_reply [OF this assms(11)] c2(2)
  have "read_reply (cn_sent c2) = Some (seen_of (redirect (v @ ''/'')), x @ CRLF @ ''content-length: 0'' @ CRLF @ CRLF)"
    by (simp only: write_split)
  then have r: "read_reply (cn_sent c2) = Some ((''HTTP/1.1 302 Found'', Some (v @ ''/''), []), x @ CRLF @ ''content-length: 0'' @ CRLF @ CRLF)"
    by (simp add: seen_of_def redirect_def status_line_def)
  show ?thesis by (intro exI conjI) (rule c1 c2 r)+
qed

theorem response_splitting_witness:
  "\<exists>c1 tw1 c2 tw2. conn_loop Map.empty (app_handler (aof_ops demo_os Map.empty isort) Map.empty []) byte_sender ''1.2.3.4''
      [Data (asks (posting (split_url ''http://x'' (''HTTP/1.1 200 OK'' @ CRLF @ ''content-length: 5'' @ CRLF @ CRLF @ ''owned'')) ''ali''))] conn0
      ((\<lambda>_ _. 9), demo_world demo_mem) = Inr (c1, tw1) \<and>
    conn_loop Map.empty (app_handler (aof_ops demo_os Map.empty isort) Map.empty []) byte_sender ''5.6.7.8'' [Data (asks (visit ''ali''))] conn0
      tw1 = Inr (c2, tw2) \<and>
    take 2 (fst (read_replies (cn_sent c2))) = [(''HTTP/1.1 302 Found'', Some ''http://x/'', []), (''HTTP/1.1 200 OK'', None, ''owned'')]"
proof -
  let ?x = "''HTTP/1.1 200 OK'' @ CRLF @ ''content-length: 5'' @ CRLF @ CRLF @ ''owned''"
  let ?h = "app_handler (aof_ops demo_os Map.empty isort) Map.empty []"
  have h: "is_valid_url (''http://x'' @ ''/'')" "one_line ''http://x''" "length (split_url ''http://x'' ?x) \<le> 2048"
    "length (w_body (posting (split_url ''http://x'' ?x) ''ali'')) \<le> MAX_BODY" "code_ok ''ali''" "''ali'' \<noteq> ''metrics''"
    "one_line (cors_origin Map.empty)" "expiry 9 (link_ttl_ms Map.empty) = 0 \<or> 9 < expiry 9 (link_ttl_ms Map.empty)" by code_simp+
  have v: "aof_view (the_store (demo_world demo_mem)) ''ali'' = None"
    by (simp add: aof_view_def idx_def demo_mem_def inner0_def)
  from response_splitting [where tm = "\<lambda>_ _. 9" and sd = byte_sender and sys = demo_os and srt = isort and html = "[]" and peer = "''1.2.3.4''"
      and peer' = "''5.6.7.8''", OF h(1-6) v _ h(8) byte_sender_ok h(7)]
  obtain c1 tw1 c2 tw2 where r: "conn_loop Map.empty ?h byte_sender ''1.2.3.4'' [Data (asks (posting (split_url ''http://x'' ?x) ''ali''))] conn0
      ((\<lambda>_ _. 9), demo_world demo_mem) = Inr (c1, tw1)"
    "conn_loop Map.empty ?h byte_sender ''5.6.7.8'' [Data (asks (visit ''ali''))] conn0 tw1 = Inr (c2, tw2)"
    "read_reply (cn_sent c2) = Some ((''HTTP/1.1 302 Found'', Some (''http://x'' @ ''/''), []), ?x @ CRLF @ ''content-length: 0'' @ CRLF @ CRLF)"
    using demo_world_fields(2) by blast
  have "fst (read_replies (cn_sent c2)) =
      (''HTTP/1.1 302 Found'', Some ''http://x/'', []) # fst (read_replies (?x @ CRLF @ ''content-length: 0'' @ CRLF @ CRLF))"
    using r(3) by (subst read_replies.simps) (simp split: prod.split)
  moreover have "take 1 (fst (read_replies (?x @ CRLF @ ''content-length: 0'' @ CRLF @ CRLF))) = [(''HTTP/1.1 200 OK'', None, ''owned'')]"
    by code_simp
  ultimately have "take 2 (fst (read_replies (cn_sent c2))) = [(''HTTP/1.1 302 Found'', Some ''http://x/'', []), (''HTTP/1.1 200 OK'', None, ''owned'')]"
    by (simp add: numeral_2_eq_2)
  then show ?thesis using r(1,2) by blast
qed



text \<open>
  Every reply of the application has a status line of its own: whatever is asked of it, on whatever
  store of the default engine, the status is one of those the server can spell, and the line it sends
  names that status.
\<close>

lemma replies_have_status_lines:
  assumes "handle (aof_ops sys env srt ck) env html clk mthd path bdy token client w = Inr (r, w')"
  shows "status r \<in> {200, 201, 204, 302, 400, 404, 409, 429, 503} \<and>
    prefix (''HTTP/1.1 '' @ itoa [] (status r) @ '' '') (status_line (status r))"
proof -
  let ?p = "takeWhile (\<lambda>c. c \<noteq> CHR ''?'') path" and ?w = "w\<lparr>mets := tick (clk 0) (mets w)\<rparr>"
  obtain w1 where r: "route (aof_ops sys env srt ck) env html clk mthd path bdy token client w = Inr (r, w1)"
    using assms by (auto simp: handle_def split: sum.splits prod.splits)
  have g: "status r \<in> {200, 302, 404, 503}" if "route_get (aof_ops sys env srt ck) html clk ?p (drop (length ?p + 1) path) ?w = Inr (r, w1)"
    using route_get_status [of "aof_ops sys env srt ck" html clk ?p "drop (length ?p + 1) path" ?w] that by (simp add: read_status_def)
  have p: "status r \<in> {201, 400, 404, 409, 429}" if "route_post (aof_ops sys env srt ck) env clk ?p bdy client ?w = Inr (r, w1)"
    using that by (rule aof.route_post_cases(1))
  have m: "status r \<in> {200, 204, 400, 404, 409}" if "route_mutate (aof_ops sys env srt ck) env mthd ?p bdy token ?w = Inr (r, w1)"
    using that by (rule aof.route_mutate_cases(1))
  have s: "status r \<in> {200, 201, 204, 302, 400, 404, 409, 429, 503}"
    using r g p m by (auto simp: route_def Let_def no_content_def not_found_def mk_def split: if_splits)
  have "list_all (\<lambda>st. prefix (''HTTP/1.1 '' @ itoa [] st @ '' '') (status_line st)) [200, 201, 204, 302, 400, 404, 409, 429, 503]" by code_simp
  with s show ?thesis by auto
qed

end
