(* ===== verification/Event_Loop.thy ===== *)
theory Event_Loop
  imports Server
begin

text \<open>
  The event loop of \<^verbatim>\<open>src/src/server.cpp\<close> (\<^verbatim>\<open>serve_kq\<close>): all connections of a process in one thread, driven by
  the events of the kernel, whose answers to the calls of an event are part of the event.
\<close>

section \<open>Definitions\<close>

record kq_conn =
  rbuf :: string
  wbuf :: string
  peer_of :: string
  parsed_of :: nat
  close_after :: bool
  want_write :: bool

definition kq_conn0 :: kq_conn where
  "kq_conn0 = \<lparr>rbuf = [], wbuf = [], peer_of = [], parsed_of = 0, close_after = False, want_write = False\<rparr>"

function kq_requests :: "environ \<Rightarrow> 'w handler \<Rightarrow> kq_conn \<Rightarrow> 'w \<Rightarrow> fault + kq_conn \<times> 'w" where
  "kq_requests env h cn w =
     (let ri = parse_req (rbuf cn) (parsed_of cn)
      in if rq_total ri = 0 then Inr (cn, w)
         else if rq_total ri = SIZE_MAX then Inr (cn\<lparr>wbuf := [], close_after := True\<rparr>, w)
         else if needs_body ri \<and> body_limit (rq_path ri) < rq_body_len ri then
           Inr (cn\<lparr>wbuf := write_reply env (wbuf cn) too_large, close_after := True\<rparr>, w)
         else
           (case h (rq_method ri) (rq_path ri) (body_of ri (rbuf cn)) (rq_admin ri) (client_ip env ri (peer_of cn)) w of
              Inl f \<Rightarrow> Inl f
            | Inr (r, w) \<Rightarrow>
                (let cn = cn\<lparr>wbuf := write_reply env (wbuf cn) r, parsed_of := parsed_of cn + rq_total ri\<rparr>
                 in if \<not> rq_alive ri then Inr (cn\<lparr>close_after := True\<rparr>, w)
                    else kq_requests env h cn w)))"
  by pat_completeness auto
termination
  by (relation "measure (\<lambda>(env, h, cn, w). length (rbuf cn) - parsed_of cn)") (use parse_req_total in fastforce)+

declare kq_requests.simps [simp del]

datatype filt = EVFILT_READ | EVFILT_WRITE

text \<open>The connections and the filters that are registered with the kernel; closing a socket removes its filters.\<close>

record kq =
  conns :: "(int, kq_conn) umap"
  watched :: "(int \<times> filt) list"

text \<open>
  An event, with the answers to the calls its handling makes: the sockets \<^verbatim>\<open>accept\<close> returns and their
  peers; what \<^verbatim>\<open>recv\<close> returns until it fails or ends the stream; what \<^verbatim>\<open>send\<close> returns, and whether a
  failure is one to retry.
\<close>

record kevent =
  ident :: int
  filter_of :: filt
  gone :: bool \<comment> \<open>\<^verbatim>\<open>EV_EOF\<close> or \<^verbatim>\<open>EV_ERROR\<close>\<close>
  accepts :: "(int \<times> string) list"
  chunks :: "string list"
  ended :: bool
  took :: int
  retry :: bool

definition add_ev :: "int \<Rightarrow> filt \<Rightarrow> kq \<Rightarrow> kq" where
  "add_ev fd f q = q\<lparr>watched := List.insert (fd, f) (watched q)\<rparr>"

definition delete_ev :: "int \<Rightarrow> filt \<Rightarrow> kq \<Rightarrow> kq" where
  "delete_ev fd f q = q\<lparr>watched := removeAll (fd, f) (watched q)\<rparr>"

definition kq_put :: "int \<Rightarrow> kq_conn \<Rightarrow> kq \<Rightarrow> kq" where
  "kq_put fd cn q = q\<lparr>conns := um_put fd cn (conns q)\<rparr>"

definition kq_close :: "int \<Rightarrow> kq \<Rightarrow> kq" where
  "kq_close fd q = q\<lparr>conns := um_erase fd (conns q), watched := filter (\<lambda>(g, f). g \<noteq> fd) (watched q)\<rparr>"

definition kq_accept :: "int \<times> string \<Rightarrow> kq \<Rightarrow> kq" where
  "kq_accept cp q = add_ev (fst cp) EVFILT_READ (kq_put (fst cp) (kq_conn0\<lparr>peer_of := snd cp\<rparr>) q)"

definition kq_read :: "environ \<Rightarrow> 'w handler \<Rightarrow> kevent \<Rightarrow> int \<Rightarrow> kq_conn \<Rightarrow> kq \<Rightarrow> 'w \<Rightarrow> fault + kq_conn \<times> kq \<times> 'w" where
  "kq_read env h ev fd cn q w =
     (let cn = cn\<lparr>rbuf := rbuf cn @ concat (chunks ev)\<rparr>;
          cn = (if ended ev then cn\<lparr>close_after := True\<rparr> else cn)
      in case kq_requests env h cn w of
           Inl f \<Rightarrow> Inl f
         | Inr (cn, w) \<Rightarrow>
             (let cn = cn\<lparr>rbuf := drop (parsed_of cn) (rbuf cn), parsed_of := 0\<rparr>
              in if wbuf cn \<noteq> [] \<and> \<not> want_write cn
                 then Inr (cn\<lparr>want_write := True\<rparr>, add_ev fd EVFILT_WRITE q, w)
                 else Inr (cn, q, w)))"

text \<open>\<open>None\<close>: the connection is gone.\<close>

definition kq_write :: "kevent \<Rightarrow> int \<Rightarrow> kq_conn \<Rightarrow> kq \<Rightarrow> kq_conn option \<times> kq" where
  "kq_write ev fd cn q =
     (if took ev < 0 \<and> \<not> retry ev then (None, kq_close fd q)
      else let cn = (if 0 < took ev then cn\<lparr>wbuf := drop (nat (took ev)) (wbuf cn)\<rparr> else cn)
           in if wbuf cn = [] \<and> want_write cn
              then (Some (cn\<lparr>want_write := False\<rparr>), delete_ev fd EVFILT_WRITE q)
              else (Some cn, q))"

definition kq_event :: "environ \<Rightarrow> 'w handler \<Rightarrow> int \<Rightarrow> kevent \<Rightarrow> kq \<Rightarrow> 'w \<Rightarrow> fault + kq \<times> 'w" where
  "kq_event env h listen_fd ev q w =
     (let fd = ident ev
      in if fd = listen_fd then Inr (fold kq_accept (accepts ev) q, w)
         else case um_find (conns q) fd of
           None \<Rightarrow> Inr (q, w)
         | Some cn \<Rightarrow>
             if gone ev \<and> (filter_of ev = EVFILT_WRITE \<or> wbuf cn = []) then Inr (kq_close fd q, w)
             else
               (case (if filter_of ev = EVFILT_READ then kq_read env h ev fd cn q w else Inr (cn, q, w)) of
                  Inl f \<Rightarrow> Inl f
                | Inr (cn, q, w) \<Rightarrow>
                    (case (if filter_of ev = EVFILT_WRITE \<and> wbuf cn \<noteq> [] then kq_write ev fd cn q else (Some cn, q)) of
                       (None, q) \<Rightarrow> Inr (q, w)
                     | (Some cn, q) \<Rightarrow>
                         Inr (if close_after cn \<and> wbuf cn = [] then kq_close fd q else kq_put fd cn q, w))))"

fun serve_kq :: "environ \<Rightarrow> 'w handler \<Rightarrow> int \<Rightarrow> kevent list \<Rightarrow> kq \<Rightarrow> 'w \<Rightarrow> fault + kq \<times> 'w" where
  "serve_kq env h listen_fd [] q w = Inr (q, w)"
| "serve_kq env h listen_fd (ev # evs) q w =
     (case kq_event env h listen_fd ev q w of
        Inl f \<Rightarrow> Inl f
      | Inr (q, w) \<Rightarrow> serve_kq env h listen_fd evs q w)"

definition kq0 :: "int \<Rightarrow> kq" where
  "kq0 listen_fd = add_ev listen_fd EVFILT_READ \<lparr>conns = [], watched = []\<rparr>"

lemma kq_requests_eq:
  "parsed_of cn \<le> length (rbuf cn) \<Longrightarrow> kq_requests env h cn w =
     (case answers env h (peer_of cn) (drop (parsed_of cn) (rbuf cn)) w of
        Inl f \<Rightarrow> Inl f
      | Inr (v, rs, t, w) \<Rightarrow>
          Inr (cn\<lparr>parsed_of := length (rbuf cn) - length t, wbuf := if v = Malformed then [] else wbuf cn @ wire env rs,
                  close_after := close_after cn \<or> v \<noteq> Pending\<rparr>, w))"
proof (induction "drop (parsed_of cn) (rbuf cn)" arbitrary: cn w rule: stream_induct)
  case (stop v rs)
  then show ?case
    by (subst kq_requests.simps)
      (auto simp: answers_stop stops_def parse_req_at [of "rbuf cn" "parsed_of cn"] Let_def refused_def write_reply_append [of env "wbuf cn"]
        split: if_splits)
next
  case go
  let ?s = "drop (parsed_of cn) (rbuf cn)" let ?ri = "parse_req ?s 0"
  let ?cn = "\<lambda>r. cn\<lparr>wbuf := write_reply env (wbuf cn) r, parsed_of := parsed_of cn + rq_total ?ri\<rparr>"
  note n = stops_None [OF go(1)]
  have d: "drop (rq_total ?ri) ?s = drop (parsed_of cn + rq_total ?ri) (rbuf cn)" by (simp add: add.commute)
  have "kq_requests env h cn w =
      (case called env h (peer_of cn) ?s w of
         Inl f \<Rightarrow> Inl f
       | Inr (r, w) \<Rightarrow> if \<not> rq_alive ?ri then Inr ((?cn r)\<lparr>close_after := True\<rparr>, w) else kq_requests env h (?cn r) w)"
    using n(1,3,4) body_of_at [of "parsed_of cn" "rbuf cn"]
    by (subst kq_requests.simps) (auto simp: parse_req_at [of "rbuf cn" "parsed_of cn"] called_def Let_def refused_def split: sum.split prod.split)
  moreover have "kq_requests env h (?cn r) w =
     (case answers env h (peer_of cn) (drop (parsed_of cn + rq_total ?ri) (rbuf cn)) w of Inl f \<Rightarrow> Inl f
      | Inr (v, rs, t, w) \<Rightarrow> Inr ((?cn r)\<lparr>parsed_of := length (rbuf cn) - length t,
          wbuf := if v = Malformed then [] else write_reply env (wbuf cn) r @ wire env rs, close_after := close_after cn \<or> v \<noteq> Pending\<rparr>, w))" for r w
    using n(2) go.prems go(2) [of "?cn r" w] by (auto simp: add.commute split: sum.splits prod.splits)
  ultimately show ?case unfolding answers_go [OF go(1)] d
    using n(2) go.prems by (auto simp: write_reply_append [of env "wbuf cn"] split: sum.split prod.split)
qed

section \<open>The event loop\<close>

text \<open>
  Between two events: every connection is watched for input; it is watched for output, and says so, exactly
  as long as bytes wait to be sent; one that is to be closed still has bytes to send; and nothing is
  watched but the connections and the listener.
\<close>

definition kq_conn_ok :: "kq \<Rightarrow> int \<Rightarrow> kq_conn \<Rightarrow> bool" where
  "kq_conn_ok q fd cn \<longleftrightarrow> parsed_of cn = 0 \<and> (fd, EVFILT_READ) \<in> set (watched q) \<and>
     ((fd, EVFILT_WRITE) \<in> set (watched q) \<longleftrightarrow> wbuf cn \<noteq> []) \<and> (want_write cn \<longleftrightarrow> wbuf cn \<noteq> []) \<and>
     (close_after cn \<longrightarrow> wbuf cn \<noteq> [])"

definition kq_inv :: "int \<Rightarrow> kq \<Rightarrow> bool" where
  "kq_inv lfd q \<longleftrightarrow> um_inv (conns q) \<and> um_find (conns q) lfd = None \<and> (lfd, EVFILT_READ) \<in> set (watched q) \<and>
     (\<forall>fd cn. um_find (conns q) fd = Some cn \<longrightarrow> kq_conn_ok q fd cn) \<and>
     (\<forall>fd f. (fd, f) \<in> set (watched q) \<longrightarrow> fd = lfd \<or> um_find (conns q) fd \<noteq> None)"

text \<open>The kernel hands out descriptors that are not in use.\<close>

definition accepts_ok :: "int \<Rightarrow> kq \<Rightarrow> kevent \<Rightarrow> bool" where
  "accepts_ok lfd q ev \<longleftrightarrow> distinct (map fst (accepts ev)) \<and>
     list_all (\<lambda>(c, p). c \<noteq> lfd \<and> um_find (conns q) c = None) (accepts ev)"

inductive kq_runs :: "environ \<Rightarrow> 'w handler \<Rightarrow> int \<Rightarrow> 'w \<Rightarrow> kq \<Rightarrow> 'w \<Rightarrow> bool" for env h lfd w0 where
  start: "kq_runs env h lfd w0 (kq0 lfd) w0"
| event: "kq_runs env h lfd w0 q' w'" if "kq_runs env h lfd w0 q w" and "kq_event env h lfd ev q w = Inr (q', w')" and "accepts_ok lfd q ev"

lemma kq_inv_accept:
  assumes "kq_inv lfd q" and "fst cp \<noteq> lfd" and "um_find (conns q) (fst cp) = None"
  shows "kq_inv lfd (kq_accept cp q)"
  using assms by (auto simp: kq_inv_def kq_accept_def add_ev_def kq_put_def kq_conn_ok_def kq_conn0_def um_simps um_invars)

lemma find_accept: "c \<noteq> fst cp \<Longrightarrow> um_find (conns (kq_accept cp q)) c = um_find (conns q) c"
  by (simp add: kq_accept_def add_ev_def kq_put_def um_simps)

lemma kq_inv_accepts:
  assumes "kq_inv lfd q" and "distinct (map fst cps)" and "list_all (\<lambda>(c, p). c \<noteq> lfd \<and> um_find (conns q) c = None) cps"
  shows "kq_inv lfd (fold kq_accept cps q)"
  using assms
proof (induction cps arbitrary: q)
  case (Cons cp cps)
  have "kq_inv lfd (kq_accept cp q)" using Cons.prems by (intro kq_inv_accept) auto
  moreover have "list_all (\<lambda>(c, p). c \<noteq> lfd \<and> um_find (conns (kq_accept cp q)) c = None) cps"
    unfolding list_all_iff
  proof (intro ballI, clarify)
    fix c p assume "(c, p) \<in> set cps"
    moreover from this have "c \<noteq> fst cp" using Cons.prems(2) by (force simp: rev_image_eqI)
    ultimately show "c \<noteq> lfd \<and> um_find (conns (kq_accept cp q)) c = None"
      using Cons.prems(3) find_accept [of c cp q] by (auto simp: list_all_iff)
  qed
  ultimately show ?case using Cons by simp
qed simp

lemma kq_inv_close: "kq_inv lfd q \<Longrightarrow> fd \<noteq> lfd \<Longrightarrow> kq_inv lfd (kq_close fd q)"
  by (auto simp: kq_inv_def kq_close_def kq_conn_ok_def um_simps um_invars split: if_splits)

lemma kq_inv_put:
  assumes "kq_inv lfd q" and "fd \<noteq> lfd" and "um_find (conns q) fd \<noteq> None" and "kq_conn_ok q' fd cn"
    and "conns q' = conns q" and "\<And>g f. g \<noteq> fd \<Longrightarrow> (g, f) \<in> set (watched q') \<longleftrightarrow> (g, f) \<in> set (watched q)"
  shows "kq_inv lfd (kq_put fd cn q')"
  using assms by (auto simp: kq_inv_def kq_put_def kq_conn_ok_def um_simps um_invars)

lemma kq_read_eq:
  assumes "parsed_of cn = 0"
  shows "kq_read env h ev fd cn q w =
    (case answers env h (peer_of cn) (rbuf cn @ concat (chunks ev)) w of
       Inl f \<Rightarrow> Inl f
     | Inr (v, rs, t, w) \<Rightarrow>
         (let wb = (if v = Malformed then [] else wbuf cn @ wire env rs); on = (wb \<noteq> [] \<and> \<not> want_write cn)
          in Inr (cn\<lparr>rbuf := t, wbuf := wb, close_after := close_after cn \<or> ended ev \<or> v \<noteq> Pending, want_write := want_write cn \<or> on\<rparr>,
                  if on then add_ev fd EVFILT_WRITE q else q, w)))"
proof -
  let ?b = "rbuf cn @ concat (chunks ev)"
  let ?cn = "if ended ev then cn\<lparr>rbuf := ?b, close_after := True\<rparr> else cn\<lparr>rbuf := ?b\<rparr>"
  have f: "parsed_of ?cn = 0" "rbuf ?cn = ?b" "peer_of ?cn = peer_of cn" "wbuf ?cn = wbuf cn" "want_write ?cn = want_write cn" using assms by simp_all
  show ?thesis
  proof (cases "answers env h (peer_of cn) ?b w")
    case (Inl a)
    then show ?thesis using kq_requests_eq [of ?cn env h w] f by (simp add: kq_read_def Let_def)
  next
    case (Inr a)
    obtain v rs t w1 where a: "a = (v, rs, t, w1)" by (cases a)
    have "drop (length ?b - length t) ?b = t" by (rule answers_suffix [OF Inr [unfolded a]])
    then show ?thesis using kq_requests_eq [of ?cn env h w] f Inr a assms
      by (cases "ended ev") (auto simp: kq_read_def Let_def)
  qed
qed

lemma add_ev_fields [simp]: "conns (add_ev fd f q) = conns q" "set (watched (add_ev fd f q)) = insert (fd, f) (set (watched q))"
  by (simp_all add: add_ev_def)

lemma delete_ev_fields [simp]: "conns (delete_ev fd f q) = conns q" "set (watched (delete_ev fd f q)) = set (watched q) - {(fd, f)}"
  by (auto simp: delete_ev_def)

lemma kq_inv_conn: "kq_inv lfd q \<Longrightarrow> um_find (conns q) fd = Some cn \<Longrightarrow> kq_conn_ok q fd cn \<and> fd \<noteq> lfd"
  by (auto simp: kq_inv_def)

text \<open>What is left of a connection after an event of one kind or the other.\<close>

definition settle :: "int \<Rightarrow> kq_conn \<Rightarrow> kq \<Rightarrow> kq" where
  "settle fd cn q = (if close_after cn \<and> wbuf cn = [] then kq_close fd q else kq_put fd cn q)"

lemma settle_inv:
  assumes "kq_inv lfd q" and "um_find (conns q) fd \<noteq> None" and "fd \<noteq> lfd" and "parsed_of cn = 0"
    and "conns q' = conns q" and "\<And>g f. (g, f) \<noteq> (fd, EVFILT_WRITE) \<Longrightarrow> (g, f) \<in> set (watched q') \<longleftrightarrow> (g, f) \<in> set (watched q)"
    and "wbuf cn \<noteq> [] \<or> \<not> close_after cn \<Longrightarrow> want_write cn = (wbuf cn \<noteq> []) \<and> ((fd, EVFILT_WRITE) \<in> set (watched q')) = (wbuf cn \<noteq> [])"
  shows "kq_inv lfd (settle fd cn q')"
proof (cases "close_after cn \<and> wbuf cn = []")
  case True
  have w: "(g, f) \<in> set (watched (kq_close fd q')) \<longleftrightarrow> g \<noteq> fd \<and> (g, f) \<in> set (watched q)" for g f
    using assms(6) by (auto simp: kq_close_def)
  have "kq_inv lfd (kq_close fd q')"
    using assms(1,3,5) unfolding kq_inv_def kq_conn_ok_def w by (auto simp: kq_close_def um_simps um_invars split: if_splits)
  then show ?thesis using True by (simp add: settle_def)
next
  case False
  obtain cn0 where "um_find (conns q) fd = Some cn0" using assms(2) by auto
  then have "(fd, EVFILT_READ) \<in> set (watched q)" using kq_inv_conn [OF assms(1)] by (simp add: kq_conn_ok_def)
  then have "kq_conn_ok q' fd cn" using False assms(4,6,7) by (auto simp: kq_conn_ok_def)
  then show ?thesis using False assms(1-3,5,6) by (auto simp: settle_def intro!: kq_inv_put)
qed

lemma kq_event_inv:
  assumes "kq_inv lfd q" and "kq_event env h lfd ev q w = Inr (q', w')" and "accepts_ok lfd q ev"
  shows "kq_inv lfd q'"
proof (cases "ident ev = lfd")
  case True
  then show ?thesis using assms kq_inv_accepts by (auto simp: kq_event_def accepts_ok_def)
next
  case False
  let ?fd = "ident ev"
  show ?thesis
  proof (cases "um_find (conns q) ?fd")
    case None
    then show ?thesis using assms(1,2) False by (simp add: kq_event_def)
  next
    case (Some cn)
    have ok: "parsed_of cn = 0" "((?fd, EVFILT_WRITE) \<in> set (watched q)) = (wbuf cn \<noteq> [])" "want_write cn = (wbuf cn \<noteq> [])"
      "close_after cn \<longrightarrow> wbuf cn \<noteq> []" using kq_inv_conn [OF assms(1) Some] by (simp_all add: kq_conn_ok_def)
    note st = settle_inv [OF assms(1) _ False]
    show ?thesis
    proof (cases "gone ev \<and> (filter_of ev = EVFILT_WRITE \<or> wbuf cn = [])")
      case True
      then show ?thesis using assms False Some kq_inv_close by (auto simp: kq_event_def)
    next
      case stay: False
      show ?thesis
      proof (cases "filter_of ev")
        case EVFILT_READ
        obtain v rs t w1 where a: "answers env h (peer_of cn) (rbuf cn @ concat (chunks ev)) w = Inr (v, rs, t, w1)"
          using assms(2) False Some stay EVFILT_READ
          by (cases "answers env h (peer_of cn) (rbuf cn @ concat (chunks ev)) w") (auto simp: kq_event_def kq_read_eq [OF ok(1)])
        define wb where "wb = (if v = Malformed then [] else wbuf cn @ wire env rs)"
        define on where "on = (wb \<noteq> [] \<and> \<not> want_write cn)"
        define cn1 where "cn1 = cn\<lparr>rbuf := t, wbuf := wb, close_after := close_after cn \<or> ended ev \<or> v \<noteq> Pending, want_write := want_write cn \<or> on\<rparr>"
        define q1 where "q1 = (if on then add_ev ?fd EVFILT_WRITE q else q)"
        have "kq_read env h ev ?fd cn q w = Inr (cn1, q1, w1)"
          unfolding kq_read_eq [OF ok(1)] a sum.case prod.case Let_def wb_def [symmetric] on_def [symmetric] cn1_def q1_def ..
        then have q': "q' = settle ?fd cn1 q1" using assms(2) False Some stay EVFILT_READ by (auto simp: kq_event_def settle_def Let_def split: if_splits)
        show ?thesis unfolding q' by (rule st) (use Some ok in \<open>auto simp: cn1_def q1_def on_def wb_def split: if_splits\<close>)
      next
        case EVFILT_WRITE
        show ?thesis
        proof (cases "wbuf cn = [] \<or> took ev < 0 \<and> \<not> retry ev")
          case True
          have "settle ?fd cn q = kq_put ?fd cn q" using ok(4) by (auto simp: settle_def)
          then have "kq_inv lfd (kq_put ?fd cn q)" using st [of cn q] Some ok by simp
          then show ?thesis using True assms(1,2) False Some stay EVFILT_WRITE ok(4) kq_inv_close [OF assms(1) False]
            by (auto simp: kq_event_def kq_write_def Let_def split: if_splits)
        next
          case snd: False
          define wb where "wb = (if 0 < took ev then drop (nat (took ev)) (wbuf cn) else wbuf cn)"
          define cn1 where "cn1 = cn\<lparr>wbuf := wb, want_write := want_write cn \<and> wb \<noteq> []\<rparr>"
          define q1 where "q1 = (if wb = [] \<and> want_write cn then delete_ev ?fd EVFILT_WRITE q else q)"
          have "kq_write ev ?fd cn q = (Some cn1, q1)"
            using snd ok(3) by (auto simp: kq_write_def cn1_def q1_def wb_def Let_def)
          then have q': "q' = settle ?fd cn1 q1" using assms(2) False Some stay EVFILT_WRITE snd by (auto simp: kq_event_def settle_def Let_def split: if_splits)
          show ?thesis unfolding q' by (rule st) (use Some ok snd in \<open>auto simp: cn1_def q1_def wb_def split: if_splits\<close>)
        qed
      qed
    qed
  qed
qed

lemma kq_runs_inv: "kq_runs env h lfd w0 q w \<Longrightarrow> kq_inv lfd q"
proof (induction rule: kq_runs.induct)
  case start
  show ?case by (simp add: kq_inv_def kq0_def um_inv_def)
next
  case (event q w ev q' w')
  show ?case by (rule kq_event_inv [OF event.IH event.hyps(2,3)])
qed

text \<open>
  C33: The event loop forgets no reply and leaks no connection. After any sequence of events, with
  whatever the kernel answers: a connection with bytes to send is registered for output, and only
  then, so its bytes go out when the peer reads; one that is to be closed is closed as soon as its bytes are sent;
  every connection is registered for input; and nothing is registered for a descriptor that was closed.
\<close>

theorem kq_forgets_nothing:
  assumes "kq_runs env h lfd w0 q w"
  shows "kq_inv lfd q"
  using assms by (rule kq_runs_inv)

text \<open>
  C34: Both servers answer alike. When the event loop reads some bytes off a connection, it calls the
  handler exactly as the thread of a connection with the same unread bytes would, keeps the
  same rest, and queues the very bytes that thread sends, as long as that thread keeps its connection open.
\<close>

theorem kq_reads_like_mini:
  assumes "kq_inv lfd q" and "um_find (conns q) (ident ev) = Some cn" and "filter_of ev = EVFILT_READ" and "\<not> gone ev" and "\<not> ended ev"
    and "send_ok sd" and "cn_open c" and "cn_buf c = rbuf cn"
    and "conn_step env h sd (peer_of cn) (Data (concat (chunks ev))) c w = Inr (c', w')" and "cn_open c'"
  shows "\<exists>q' cn' out. kq_event env h lfd ev q w = Inr (q', w') \<and> um_find (conns q') (ident ev) = Some cn' \<and>
    rbuf cn' = cn_buf c' \<and> peer_of cn' = peer_of cn \<and> cn_sent c' = cn_sent c @ out \<and> wbuf cn' = wbuf cn @ out"
proof -
  let ?fd = "ident ev" and ?s = "concat (chunks ev)"
  have ok: "parsed_of cn = 0" "close_after cn \<longrightarrow> wbuf cn \<noteq> []" "?fd \<noteq> lfd"
    using kq_inv_conn [OF assms(1,2)] by (simp_all add: kq_conn_ok_def)
  obtain v rs t w1 where a: "answers env h (peer_of cn) (cn_buf c @ ?s) w = Inr (v, rs, t, w1)"
    using assms(9) by (cases "answers env h (peer_of cn) (cn_buf c @ ?s) w") (auto simp: conn_step_def mini_requests_eq)
  have m: "v = Pending" "w1 = w'" "cn_buf c' = t" "cn_sent c' = cn_sent c @ wire env rs"
    using conn_step_data [OF assms(6,7) a] assms(9,10) by auto
  define on where "on = (wbuf cn @ wire env rs \<noteq> [] \<and> \<not> want_write cn)"
  define cn1 where "cn1 = cn\<lparr>rbuf := t, wbuf := wbuf cn @ wire env rs, want_write := want_write cn \<or> on\<rparr>"
  have "kq_read env h ev ?fd cn q w = Inr (cn1, if on then add_ev ?fd EVFILT_WRITE q else q, w')"
    using a m(1,2) assms(5,8) by (simp add: kq_read_eq [OF ok(1)] cn1_def on_def Let_def)
  moreover have "\<not> (close_after cn1 \<and> wbuf cn1 = [])" using ok(2) by (auto simp: cn1_def)
  ultimately have "kq_event env h lfd ev q w = Inr (kq_put ?fd cn1 (if on then add_ev ?fd EVFILT_WRITE q else q), w')"
    using assms(2-4) ok(3) by (auto simp: kq_event_def Let_def)
  then show ?thesis using m by (auto simp: kq_put_def um_simps cn1_def)
qed

text \<open>
  The event loop drops a request whose sender has closed its half of the connection. When the end
  of the stream is known together with the last bytes, the loop closes the connection without reading
  them, whatever they are, and the handler is not called; the thread of a connection answers the same bytes.
\<close>

lemma kq_drops_last_request:
  assumes "um_find (conns q) (ident ev) = Some cn" and "ident ev \<noteq> lfd" and "wbuf cn = []" and "gone ev"
    and "send_ok sd" and "wish_ok r" and "length (asks r) < 2 ^ 63"
    and "h (w_method r) (w_path r) (w_body r) (w_token r) peer w = Inr (ans, w')"
  shows "kq_event env h lfd ev q w = Inr (kq_close (ident ev) q, w) \<and>
    (\<exists>c. conn_loop env h sd peer [Data (asks r), Eof] conn0 w = Inr (c, w') \<and> cn_sent c = write_reply env [] ans \<and> \<not> cn_open c)"
proof
  show "kq_event env h lfd ev q w = Inr (kq_close (ident ev) q, w)" using assms(1-4) by (simp add: kq_event_def)
  have "answers env h peer (asks r @ []) w = Inr (Pending, [ans], [], w')"
    unfolding answers_wish [OF assms(6,7)] by (simp add: assms(8) answers_stop)
  then have a: "answers env h peer (cn_buf conn0 @ asks r) w = Inr (Pending, [ans], [], w')" by (simp add: conn0_def)
  obtain c where "conn_step env h sd peer (Data (asks r)) conn0 w = Inr (c, w')" "cn_open c" "cn_buf c = []"
    "cn_sent c = write_reply env [] ans" using conn_step_data [OF assms(5) _ a] by (auto simp: conn0_def)
  then show "\<exists>c. conn_loop env h sd peer [Data (asks r), Eof] conn0 w = Inr (c, w') \<and> cn_sent c = write_reply env [] ans \<and> \<not> cn_open c"
    by (simp add: conn_step_def conn_close_def) (simp add: conn0_def)
qed

text \<open>A connection accepted on an empty loop, and one event on it.\<close>

definition demo_kq :: kq where
  "demo_kq = kq_accept (7, ''1.2.3.4'') (kq0 3)"

definition demo_event :: "string list \<Rightarrow> bool \<Rightarrow> kevent" where
  "demo_event cs eof = \<lparr>ident = 7, filter_of = EVFILT_READ, gone = eof, accepts = [], chunks = cs, ended = eof, took = 0, retry = False\<rparr>"

definition demo_app :: "((nat \<Rightarrow> nat \<Rightarrow> i64) \<times> proc world) handler" where
  "demo_app = app_handler (aof_ops demo_os Map.empty isort) Map.empty []"

lemma demo_accepts: "kq_runs Map.empty demo_app 3 ((\<lambda>_ _. 5), demo_world demo_mem) demo_kq ((\<lambda>_ _. 5), demo_world demo_mem)"
proof (rule kq_runs.event [OF kq_runs.start])
  let ?ev = "\<lparr>ident = 3, filter_of = EVFILT_READ, gone = False, accepts = [(7, ''1.2.3.4'')], chunks = [], ended = False, took = 0, retry = False\<rparr>"
  show "kq_event Map.empty demo_app 3 ?ev (kq0 3) ((\<lambda>_ _. 5), demo_world demo_mem) = Inr (demo_kq, ((\<lambda>_ _. 5), demo_world demo_mem))"
    by (simp add: kq_event_def demo_kq_def)
  show "accepts_ok 3 (kq0 3) ?ev" by (simp add: accepts_ok_def kq0_def add_ev_def)
qed

lemma demo_kq_conn: "um_find (conns demo_kq) 7 = Some (kq_conn0\<lparr>peer_of := ''1.2.3.4''\<rparr>)"
  by (simp add: demo_kq_def kq_accept_def add_ev_def kq_put_def kq0_def um_simps)

lemma demo_first:
  obtains tw' where "demo_app (w_method (hd demo_wishes)) (w_path (hd demo_wishes)) (w_body (hd demo_wishes)) (w_token (hd demo_wishes)) peer
    ((\<lambda>_ _. 5), demo_world demo_mem) = Inr (no_content, tw')"
  by (simp add: demo_app_def demo_wishes_def app_handler_def handle_def route_def Let_def)

theorem kq_forgets_nothing_witness:
  "\<exists>q w. kq_runs Map.empty demo_app 3 ((\<lambda>_ _. 5), demo_world demo_mem) q w \<and> um_find (conns q) 7 \<noteq> None \<and> kq_inv 3 q"
  using kq_forgets_nothing [OF demo_accepts] demo_accepts demo_kq_conn by auto

theorem kq_reads_like_mini_witness:
  "\<exists>q' cn' tw'. kq_event Map.empty demo_app 3 (demo_event [asks (hd demo_wishes)] False) demo_kq ((\<lambda>_ _. 5), demo_world demo_mem) = Inr (q', tw') \<and>
     um_find (conns q') 7 = Some cn' \<and> wbuf cn' = write_reply Map.empty [] no_content"
proof -
  let ?w = "((\<lambda>_ _. 5), demo_world demo_mem)" and ?q = "hd demo_wishes" and ?cn = "kq_conn0\<lparr>peer_of := ''1.2.3.4''\<rparr>"
  obtain tw' where h: "demo_app (w_method ?q) (w_path ?q) (w_body ?q) (w_token ?q) ''1.2.3.4'' ?w = Inr (no_content, tw')" by (rule demo_first)
  have q: "wish_ok ?q" using demo_wishes_ok by (simp add: demo_wishes_def)
  have "answers Map.empty demo_app ''1.2.3.4'' (asks ?q @ []) ?w = Inr (Pending, [no_content], [], tw')"
    unfolding answers_wish [OF q demo_asks_length(2)] by (simp add: h answers_stop)
  then have a: "answers Map.empty demo_app ''1.2.3.4'' (cn_buf conn0 @ asks ?q) ?w = Inr (Pending, [no_content], [], tw')" by (simp add: conn0_def)
  obtain c where c: "conn_step Map.empty demo_app byte_sender ''1.2.3.4'' (Data (asks ?q)) conn0 ?w = Inr (c, tw')" "cn_open c"
    "cn_sent c = write_reply Map.empty [] no_content"
    using conn_step_data [OF byte_sender_ok _ a] by (auto simp: conn0_def)
  have ev: "filter_of (demo_event [asks ?q] False) = EVFILT_READ" "\<not> gone (demo_event [asks ?q] False)" "\<not> ended (demo_event [asks ?q] False)"
    "ident (demo_event [asks ?q] False) = 7" "concat (chunks (demo_event [asks ?q] False)) = asks ?q"
    by (simp_all add: demo_event_def)
  from kq_reads_like_mini [OF kq_runs_inv [OF demo_accepts], where ev = "demo_event [asks ?q] False" and c = conn0 and c' = c and cn = ?cn and
      env = Map.empty and h = demo_app and sd = byte_sender and w = ?w and w' = tw'] ev c demo_kq_conn byte_sender_ok
  show ?thesis by (auto simp: conn0_def kq_conn0_def)
qed

end
