(* ===== verification/Boot.thy ===== *)
theory Boot
  imports Event_Loop
begin

text \<open>
  Starting the program (\<^verbatim>\<open>src/src/main.cpp\<close>, \<^verbatim>\<open>Store::open_env\<close>): which engine the environment chooses, the
  seeding of an empty store, the supervisor and the environment of its workers, and the engine a
  server process really works on.
\<close>

section \<open>Definitions\<close>

text \<open>The environment as the process gets it, a list of \<^verbatim>\<open>NAME=value\<close>, and \<^verbatim>\<open>getenv\<close> on it.\<close>

definition environ_of :: "string list \<Rightarrow> environ" where
  "environ_of es k =
     (case filter (\<lambda>e. starts_with e (k @ ''='')) es of [] \<Rightarrow> None | e # _ \<Rightarrow> Some (drop (length k + 1) e))"

definition port :: "environ \<Rightarrow> i64" where
  "port env = env_i64 env ''PORT'' 3000"

definition data_dir :: "environ \<Rightarrow> string" where
  "data_dir env = env_str env ''DATA_DIR'' ''data''"

datatype config =
    Use_rocks string int nat i64
  | Use_kv string int nat i64
  | Use_aof string int

definition open_env :: "environ \<Rightarrow> string \<Rightarrow> int \<Rightarrow> config" where
  "open_env env d instance_id =
     (let mode = env_str env ''STORE'' ''aof''
      in if mode = ''rocksdb'' \<or> mode = ''rocks'' then
           (let path = env_str env ''ROCKSDB_PATH'' [];
                path = (if path = [] then d @ ''/rocks'' else path)
            in Use_rocks path instance_id (size_of (env_i64 env ''CACHE'' 100000)) (env_i64 env ''CACHE_TTL_MS'' 5000))
         else if mode = ''dragonfly'' \<or> mode = ''redis'' \<or> mode = ''kv'' then
           (let addr = env_str env ''DRAGONFLY_ADDR'' [];
                addr = (if addr = [] then env_str env ''KV_ADDR'' ''127.0.0.1:6379'' else addr)
            in Use_kv addr instance_id (size_of (env_i64 env ''CACHE'' 100000)) (env_i64 env ''CACHE_TTL_MS'' 5000))
         else Use_aof d instance_id)"

definition seed_urls :: "i64 \<Rightarrow> string list" where
  "seed_urls n = map (\<lambda>i. ''https://example.com/'' @ to_string (int i)) [0..<nat n]"

text \<open>Seeding with the default engine; an exception is reported and the program goes on.\<close>

definition seed_main :: "os \<Rightarrow> environ \<Rightarrow> i64 \<Rightarrow> i64 \<Rightarrow> 64 word \<Rightarrow> i64 \<Rightarrow> disk \<Rightarrow> fault + disk" where
  "seed_main sys env seed_n now st n disk =
     (case open_store sys env (data_dir env) 0 disk st n of
        Inl (msg, disk) \<Rightarrow> Inr disk
      | Inr s \<Rightarrow>
          if empty s then
            (case seed sys now (seed_urls seed_n) s of
               None \<Rightarrow> Inl Loops
             | Some (k, s) \<Rightarrow> Inr (disk_of (close_store sys s)))
          else Inr (disk_of (close_store sys s)))"

definition child_env :: "string list \<Rightarrow> int \<Rightarrow> string list" where
  "child_env es i =
     filter (\<lambda>v. \<not> starts_with v ''SHRT_CHILD='' \<and> \<not> starts_with v ''INSTANCE='' \<and> \<not> starts_with v ''WORKERS='' \<and>
       \<not> starts_with v ''SEED='') es @
     [''SHRT_CHILD=1'', ''INSTANCE='' @ to_string i, ''WORKERS=1'', ''SEED=0'']"

definition run_supervisor :: "string list \<Rightarrow> int \<Rightarrow> string list list" where
  "run_supervisor es n = map (\<lambda>i. child_env es (int i)) [0..<nat n]"

text \<open>
  \<^verbatim>\<open>serve\<close> assigns the store that \<^verbatim>\<open>open_env\<close> returns to a variable. A store declares a destructor, so
  the assignment copies, the copy shares the engine, and the destructor of the temporary closes it.
\<close>

definition serve_store :: "os \<Rightarrow> environ \<Rightarrow> disk \<Rightarrow> 64 word \<Rightarrow> i64 \<Rightarrow> (string \<times> disk) + proc" where
  "serve_store sys env disk st n =
     (case open_store sys env (data_dir env) (wrap32 (env_i64 env ''INSTANCE'' (-1))) disk st n of
        Inl e \<Rightarrow> Inl e
      | Inr temporary \<Rightarrow> Inr (close_store sys temporary))"

definition on_sig_serve :: "os \<Rightarrow> proc \<Rightarrow> proc" where
  "on_sig_serve sys s = close_store sys s"

datatype front = Kq_front | Mini_front

definition front_of :: "environ \<Rightarrow> front" where
  "front_of env = (if env_str env ''SERVER'' ''mini'' = ''kq'' then Kq_front else Mini_front)"

text \<open>What \<^verbatim>\<open>main\<close> does: seed or not, then supervise a number of workers or serve.\<close>

datatype plan = Supervise bool int | Serve bool

definition main_plan :: "environ \<Rightarrow> plan" where
  "main_plan env =
     (let workers = env_i64 env ''WORKERS'' 1; seed_n = env_i64 env ''SEED'' 0
      in if 1 < workers \<and> env ''SHRT_CHILD'' = None then Supervise (0 < seed_n) (wrap32 workers)
         else Serve (0 < seed_n))"

section \<open>The workers\<close>

lemma environ_of_append: "environ_of (es @ fs) k = (case environ_of es k of Some v \<Rightarrow> Some v | None \<Rightarrow> environ_of fs k)"
  by (simp add: environ_of_def split: list.split)

lemma environ_of_Cons: "environ_of (e # es) k = (if starts_with e (k @ ''='') then Some (drop (length k + 1) e) else environ_of es k)"
  by (simp add: environ_of_def)

lemma key_unique:
  assumes "starts_with e (k @ ''='')" and "starts_with e (l @ ''='')" and "CHR ''='' \<notin> set k" and "CHR ''='' \<notin> set l"
  shows "k = l"
proof -
  have "takeWhile (\<lambda>c. c \<noteq> CHR ''='') (m @ CHR ''='' # z) = m" if "CHR ''='' \<notin> set m" for m z
    using that by (induction m) auto
  then show ?thesis using assms by (auto simp: prefix_def) metis
qed

lemma environ_of_filter:
  assumes "\<And>e. e \<in> set es \<Longrightarrow> starts_with e (k @ ''='') \<Longrightarrow> P e"
  shows "environ_of (filter P es) k = environ_of es k"
proof -
  have "filter (\<lambda>e. starts_with e (k @ ''='')) (filter P es) = filter (\<lambda>e. starts_with e (k @ ''='')) es"
    using assms by (induction es) auto
  then show ?thesis by (simp add: environ_of_def)
qed

text \<open>
  C35: A worker serves and does nothing else. Whatever the environment of the supervisor, the environment it
  gives its \<open>i\<close>-th worker makes that worker serve, not supervise and not seed, as instance \<open>i\<close>,
  and leaves every other variable as it was; so workers never spawn workers, and no two of them share an instance.
\<close>

theorem workers_only_serve:
  assumes "env = environ_of (child_env es i)" and "0 \<le> i" and "i < 2 ^ 31"
  shows "main_plan env = Serve False \<and> wrap32 (env_i64 env ''INSTANCE'' (-1)) = i \<and>
    (\<forall>k. CHR ''='' \<notin> set k \<longrightarrow> k \<notin> {''SHRT_CHILD'', ''INSTANCE'', ''WORKERS'', ''SEED''} \<longrightarrow> env k = environ_of es k)"
proof -
  let ?keep = "\<lambda>v. \<not> starts_with v ''SHRT_CHILD='' \<and> \<not> starts_with v ''INSTANCE='' \<and> \<not> starts_with v ''WORKERS='' \<and> \<not> starts_with v ''SEED=''"
  let ?new = "[''SHRT_CHILD=1'', ''INSTANCE='' @ to_string i, ''WORKERS=1'', ''SEED=0'']"
  have env: "env k = (case environ_of (filter ?keep es) k of Some v \<Rightarrow> Some v | None \<Rightarrow> environ_of ?new k)" for k
    unfolding assms(1) child_env_def by (rule environ_of_append)
  have gone: "environ_of (filter ?keep es) k = None" if "k \<in> {''SHRT_CHILD'', ''INSTANCE'', ''WORKERS'', ''SEED''}" for k
    using that by (auto simp: environ_of_def filter_empty_conv split: list.split dest: filter_eq_ConsD)
  have new: "env ''SHRT_CHILD'' = Some ''1''" "env ''INSTANCE'' = Some (to_string i)" "env ''WORKERS'' = Some ''1''" "env ''SEED'' = Some ''0''"
    by (simp_all add: env gone environ_of_Cons)
  have one: "strtoll ''1'' = 1" "strtoll ''0'' = 0" by code_simp+
  have i: "in_i64 i" using assms(2,3) by (simp add: in_i64_def)
  have "env_i64 env ''INSTANCE'' (-1) = i" using i by (simp add: env_i64_def new to_string_def)
  then have "wrap32 (env_i64 env ''INSTANCE'' (-1)) = i" using assms(2,3) by (simp add: wrap32_def signed_take_bit_int_eq_self)
  moreover have "main_plan env = Serve False" using one by (simp add: main_plan_def env_i64_def new)
  moreover have "env k = environ_of es k"
    if k: "CHR ''='' \<notin> set k" "k \<notin> {''SHRT_CHILD'', ''INSTANCE'', ''WORKERS'', ''SEED''}" for k
  proof -
    have other: "\<not> starts_with e (l @ ''='')" if "starts_with e (k @ ''='')" "l \<in> {''SHRT_CHILD'', ''INSTANCE'', ''WORKERS'', ''SEED''}" for e l
      using key_unique [OF that(1), of l] k that(2) by auto
    have "environ_of (filter ?keep es) k = environ_of es k"
      using other [of _ "''SHRT_CHILD''"] other [of _ "''INSTANCE''"] other [of _ "''WORKERS''"] other [of _ "''SEED''"]
      by (intro environ_of_filter) simp
    moreover have "environ_of ?new k = None"
    proof (rule ccontr)
      assume "environ_of ?new k \<noteq> None"
      then obtain e where e: "e \<in> set ?new" "starts_with e (k @ ''='')"
        by (auto simp: environ_of_def split: list.splits if_splits)
      moreover have "starts_with e (''SHRT_CHILD'' @ ''='') \<or> starts_with e (''INSTANCE'' @ ''='') \<or>
          starts_with e (''WORKERS'' @ ''='') \<or> starts_with e (''SEED'' @ ''='')" using e(1) by auto
      ultimately show False using other by blast
    qed
    ultimately show ?thesis by (simp add: env split: option.split)
  qed
  ultimately show ?thesis by blast
qed

theorem workers_only_serve_witness:
  "let env = environ_of (child_env [''PATH=/bin'', ''WORKERS=4'', ''SEED=9'', ''INSTANCE=7''] 2)
   in main_plan env = Serve False \<and> wrap32 (env_i64 env ''INSTANCE'' (-1)) = 2 \<and> env ''PATH'' = Some ''/bin''"
proof -
  let ?es = "[''PATH=/bin'', ''WORKERS=4'', ''SEED=9'', ''INSTANCE=7'']"
  have "environ_of ?es ''PATH'' = Some ''/bin''" by code_simp
  with workers_only_serve [OF refl, of 2 ?es] show ?thesis by (simp add: Let_def)
qed

section \<open>The engine behind the server\<close>

text \<open>An engine whose log has been closed: nothing it is asked to write reaches the disk.\<close>

definition detached :: "proc \<Rightarrow> bool" where
  "detached s \<longleftrightarrow> is_closed s \<and> stopped s \<and> threads s = [] \<and> (\<exists>a. the_aof s = Some a \<and> aof_fd a = None)"

definition keeps_closed :: "(aof \<Rightarrow> disk \<Rightarrow> aof \<times> disk) \<Rightarrow> bool" where
  "keeps_closed g \<longleftrightarrow> (\<forall>a d. aof_fd a = None \<longrightarrow> aof_fd (fst (g a d)) = None \<and> snd (g a d) = d)"

lemma keeps_closed_ops [simp]:
  "keeps_closed (\<lambda>a d. flush_if_full sys (push l a) d)" "keeps_closed (\<lambda>a d. flush_if_full sys (push_raw ls a) d)"
  "keeps_closed (\<lambda>a d. (push l a, d))" "keeps_closed (\<lambda>a d. aof_flush sys (push_raw ls a) d)" "keeps_closed (aof_close sys)"
  by (simp_all add: keeps_closed_def flush_if_full_def aof_flush_def aof_close_def push_def push_raw_def)

text \<open>A change of the index alone.\<close>

definition quiet_change :: "proc \<Rightarrow> proc \<Rightarrow> bool" where
  "quiet_change s s' \<longleftrightarrow> is_closed s' = is_closed s \<and> stopped s' = stopped s \<and> threads s' = threads s \<and> the_aof s' = the_aof s \<and> disk_of s' = disk_of s"

definition stays_off :: "proc \<Rightarrow> proc \<Rightarrow> bool" where
  "stays_off s s' \<longleftrightarrow> (detached s \<longrightarrow> detached s' \<and> disk_of s' = disk_of s)"

lemma stays_off_quiet: "quiet_change s s' \<Longrightarrow> stays_off s s'"
  by (simp add: quiet_change_def stays_off_def detached_def)

lemma stays_off_trans: "stays_off s t \<Longrightarrow> stays_off t u \<Longrightarrow> stays_off s u"
  by (simp add: stays_off_def)

lemma stays_off_aof: "keeps_closed g \<Longrightarrow> stays_off s (with_aof g s)"
  by (auto simp: stays_off_def detached_def with_aof_def keeps_closed_def split: prod.split) (metis fst_conv snd_conv)+

lemma quiet_changes [simp]:
  "quiet_change s s" "quiet_change s (idx_put c e s)" "quiet_change s (idx_erase c s)" "quiet_change s (links_delta k s)"
  "quiet_change s (count_hit env c e s)"
  by (simp_all add: quiet_change_def idx_put_def idx_erase_def upd_shard_def links_delta_def count_hit_def bump_dirty_def)

lemma logged_stays_off: "stays_off s t \<Longrightarrow> keeps_closed g \<Longrightarrow> stays_off s (links_delta k (with_aof g t))"
  using stays_off_trans stays_off_aof stays_off_quiet [OF quiet_changes(4)] by blast

lemma quiet_insert_fresh: "insert_fresh u now ex s = Some (c, s') \<Longrightarrow> quiet_change s s'"
  by (auto simp: insert_fresh_def quiet_change_def idx_put_def upd_shard_def Let_def split: option.splits)

lemma quiet_many_loop: "shorten_many_loop now ex us codes lines s = Some (codes', lines', s') \<Longrightarrow> quiet_change s s'"
proof (induction us arbitrary: codes lines s)
  case (Cons u us)
  then obtain c s1 where "insert_fresh u now ex s = Some (c, s1)" "quiet_change s1 s'"
    by (auto split: option.splits)
  then show ?case using quiet_insert_fresh by (auto simp: quiet_change_def)
qed simp

lemma shorten_stays_off:
  assumes "shorten sys now u al ttl s = Some (r, s')"
  shows "stays_off s s'"
proof -
  obtain c s1 where i: "shorten_insert now u al ttl s = Some (c, s1)" using assms by (auto simp: shorten_def split: option.splits)
  then have "quiet_change s s1"
    by (auto simp: shorten_insert_def Let_def split: option.splits if_splits dest: quiet_insert_fresh)
  then have q: "stays_off s s1" by (rule stays_off_quiet)
  show ?thesis
  proof (cases c)
    case None
    then show ?thesis using assms i q by (simp add: shorten_def)
  next
    case (Some x)
    let ?g = "\<lambda>a d. flush_if_full sys (push (row_line x u now (expiry now ttl) (inst s1) 0) a) d"
    have "s' = links_delta 1 (with_aof ?g s1)" using assms i Some by (simp add: shorten_def shorten_log_def)
    then show ?thesis using logged_stays_off [OF q] by simp
  qed
qed

lemma shorten_many_stays_off:
  assumes "shorten_many sys now us ttl s = Some (codes, s')"
  shows "stays_off s s'"
proof -
  obtain lines s1 where i: "shorten_many_loop now (expiry now ttl) us [] [] s = Some (codes, lines, s1)"
    and s': "s' = links_delta (int (length codes)) (with_aof (\<lambda>a d. flush_if_full sys (push_raw lines a) d) s1)"
    using assms by (auto simp: shorten_many_def split: option.splits)
  show ?thesis unfolding s' by (rule logged_stays_off [OF stays_off_quiet [OF quiet_many_loop [OF i]]]) simp
qed

lemma frame_stays_off: "same_frame s s' \<Longrightarrow> stays_off s s'"
  using same_frameD [of s s'] same_frame_proc [of s s'] by (intro stays_off_quiet) (simp add: quiet_change_def)

lemma resolve_stays_off: "stays_off s (snd (resolve env clk c s))"
proof (cases "idx s c")
  case (Some e)
  then show ?thesis by (simp add: resolve_found stays_off_quiet)
next
  case None
  let ?t = "tail_missed (files (disk_of s)) (clk 1) (clk 2) c s"
  have t: "stays_off s ?t" by (rule frame_stays_off) simp
  have "snd (resolve env clk c s) \<in> {s, ?t} \<or> (\<exists>e. snd (resolve env clk c s) = count_hit env c e ?t)"
    using None by (auto simp: resolve_def Let_def split: option.split)
  then show ?thesis using t stays_off_trans [OF t stays_off_quiet [OF quiet_changes(5)]] stays_off_quiet [OF quiet_changes(1)] by auto
qed

lemma update_stays_off: "stays_off s (snd (update now c u ttl has s))"
proof -
  have i: "stays_off s (snd (update_index now c u ttl has s))"
    by (auto simp: update_index_def Let_def stays_off_quiet split: option.split)
  have "stays_off t (update_log c u a ex t)" for a ex t unfolding update_log_def by (rule stays_off_aof) simp
  then show ?thesis using i stays_off_trans by (fastforce simp: update_def Let_def split: prod.split)
qed

lemma remove_stays_off: "stays_off s (snd (remove c s))"
proof -
  have i: "stays_off s (snd (remove_index c s))" by (auto simp: remove_index_def stays_off_quiet split: option.split)
  then have "stays_off s (remove_log c (snd (remove_index c s)))" unfolding remove_log_def by (rule logged_stays_off) simp
  then show ?thesis using i by (auto simp: remove_def Let_def split: prod.split)
qed

lemma handle_stays_off:
  assumes "handle (aof_ops sys env srt ck) env html clk mthd path bdy token client w = Inr (r, w')"
  shows "stays_off (the_store w) (the_store w')"
  using assms
proof (cases rule: handle_calls)
  case quiet
  then show ?thesis by (simp add: stays_off_quiet)
next
  case lookup
  then show ?thesis using resolve_stays_off [of "the_store w" env ck "asked path"] by simp
next
  case (one url al ttl c)
  then show ?thesis using shorten_stays_off by blast
next
  case (bulk us codes)
  then show ?thesis using shorten_many_stays_off by blast
next
  case (del c)
  then show ?thesis using remove_stays_off by simp
next
  case (upd c url ttl has)
  then show ?thesis using update_stays_off by simp
qed

text \<open>Any number of requests, of any kind.\<close>

inductive answered :: "os \<Rightarrow> environ \<Rightarrow> proc world \<Rightarrow> proc world \<Rightarrow> bool" for sys env w where
  none: "answered sys env w w"
| more: "answered sys env w w2" if "answered sys env w w1"
    and "handle (aof_ops sys env srt ck) env html clk mthd path bdy token client w1 = Inr (r, w2)"

lemma answered_stays_off: "answered sys env w w' \<Longrightarrow> stays_off (the_store w) (the_store w')"
proof (induction rule: answered.induct)
  case none
  show ?case by (simp add: stays_off_quiet)
next
  case (more w1 srt ck html clk mthd path bdy token client r w2)
  then show ?case using handle_stays_off stays_off_trans by blast
qed

lemma detached_inert:
  assumes "detached s"
  shows "close_store sys s = s" "thread_tick sys now t s = s" "disk_of (flush_public sys s) = disk_of s"
proof -
  show "close_store sys s = s" "thread_tick sys now t s = s" using assms by (simp_all add: detached_def close_store_def thread_tick_def)
  have a: "the_aof s \<noteq> None" using assms by (auto simp: detached_def)
  have "detached (drained s)" "disk_of (drained s) = disk_of s" using assms by (simp_all add: detached_def drained_def)
  then show "disk_of (flush_public sys s) = disk_of s"
    using stays_off_aof [of "\<lambda>a d. aof_flush sys (push_raw (unlines (hit_lines s [0..<NUM_SHARDS])) a) d" "drained s"]
    by (simp add: flush_public_def flush_locked_eq [OF a] stays_off_def)
qed

lemma flush_fields:
  assumes "the_aof s \<noteq> None"
  shows "is_closed (flush_public sys s) = is_closed s" "stopped (flush_public sys s) = stopped s" "threads (flush_public sys s) = threads s"
    "the_aof (flush_public sys s) \<noteq> None"
  unfolding flush_public_def flush_locked_eq [OF assms] using assms by (auto simp: drained_def with_aof_def split: prod.splits)

lemma close_detached:
  assumes "the_aof s \<noteq> None" and "\<not> is_closed s"
  shows "detached (close_store sys s)"
proof -
  let ?s1 = "flush_public sys (s\<lparr>is_closed := True, stopped := True, threads := []\<rparr>)"
  obtain a where a: "the_aof ?s1 = Some a" using flush_fields(4) [of "s\<lparr>is_closed := True, stopped := True, threads := []\<rparr>" sys] assms(1) by auto
  have "aof_fd (fst (aof_close sys a d)) = None" for d by (simp add: aof_close_def split: prod.split)
  then have "detached (with_aof (aof_close sys) ?s1)"
    using a assms(1) flush_fields [of "s\<lparr>is_closed := True, stopped := True, threads := []\<rparr>" sys]
    by (auto simp: detached_def with_aof_def split: prod.split) (metis fst_conv)
  then show ?thesis using assms(2) by (simp add: close_store_def Let_def detached_def)
qed

lemma opened_not_closed:
  assumes "open_store sys env d i disk st n = Inr s" and "d \<noteq> '':memory:''"
  shows "\<not> is_closed s" "the_aof s \<noteq> None"
proof -
  obtain id lock a disk' where s: "s = start_threads env (boot_replay (booting d id lock a disk' st n))" using open_storeD [OF assms] by metis
  have "same_frame (booting d id lock a disk' st n) (boot_replay (booting d id lock a disk' st n))"
    by (rule conjunct1 [OF boot_replay_eq]) (simp add: booting_def)
  from same_frameD [OF this] show "\<not> is_closed s" by (simp add: s start_threads_def booting_def inner0_def)
  show "the_aof s \<noteq> None" using opened_rows(4) [OF assms] by simp
qed

text \<open>
  C36: A server process with the default engine writes nothing to its disk. The engine it works on
  was closed by the assignment that stored it: after any number of requests of any kind, turns of its
  background threads change nothing, and a flush and the final close leave the disk exactly what it was
  when the server began to listen, so the links created meanwhile end with the process.
\<close>

theorem served_links_are_lost:
  assumes "serve_store sys env disk st n = Inr s" and "data_dir env \<noteq> '':memory:''" and "the_store w = s" and "answered sys env w w'"
  shows "disk_of (on_sig_serve sys (the_store w')) = disk_of s \<and> disk_of (flush_public sys (the_store w')) = disk_of s \<and>
    (\<forall>now t. thread_tick sys now t (the_store w') = the_store w')"
proof -
  obtain s0 where s0: "open_store sys env (data_dir env) (wrap32 (env_i64 env ''INSTANCE'' (-1))) disk st n = Inr s0" "s = close_store sys s0"
    using assms(1) by (auto simp: serve_store_def split: sum.splits)
  have "detached s" unfolding s0(2) using opened_not_closed [OF s0(1) assms(2)] by (intro close_detached)
  then have "detached (the_store w')" "disk_of (the_store w') = disk_of s"
    using answered_stays_off [OF assms(4)] assms(3) by (simp_all add: stays_off_def)
  then show ?thesis using detached_inert by (simp add: on_sig_serve_def)
qed

theorem served_links_are_lost_witness:
  "\<exists>s w1. serve_store demo_os [''INSTANCE'' \<mapsto> ''0''] \<lparr>files = [], durable = []\<rparr> 1 0 = Inr s \<and>
     handle (aof_ops demo_os [''INSTANCE'' \<mapsto> ''0''] isort (\<lambda>_. 5)) [''INSTANCE'' \<mapsto> ''0''] [] (\<lambda>_. 5) ''POST'' ''/api/shorten'' demo_body [] ''1.2.3.4''
       (demo_world s) = Inr (created ''ali'', w1) \<and>
     aof_view (the_store w1) ''ali'' = Some (''http://x'', 86400005) \<and>
     disk_of (on_sig_serve demo_os (the_store w1)) = disk_of s"
proof -
  let ?e = "[''INSTANCE'' \<mapsto> ''0'']" and ?d = "\<lparr>files = [], durable = []\<rparr>"
  have e: "data_dir ?e = ''data''" "wrap32 (env_i64 ?e ''INSTANCE'' (-1)) = 0" by code_simp+
  obtain s0 where s0: "open_store demo_os ?e ''data'' 0 ?d 1 0 = Inr s0" using open_store_total [OF demo_os_ok, of "''data''" 0] by fastforce
  let ?s = "close_store demo_os s0"
  have s: "serve_store demo_os ?e ?d 1 0 = Inr ?s" using s0 e by (simp add: serve_store_def)
  have f: "files (disk_of s0) = [(''data/'' @ log_name 0, [])]" "inst s0 = 0"
    using opened_disk [OF s0] by (simp_all add: um_emplace_def um_put_def um_count_def)
  have sh: "shard_files [(''data/'' @ log_name 0, [])] ''data'' (log_name 0) = []" by (rule shard_files_alone) simp
  have c: "file_content [(''data/'' @ log_name 0, [])] q = []" for q by (simp add: file_content_def um_get_def)
  have "rows s0 = Map.empty" using opened_rows(1) [OF s0] by (simp add: f sh [simplified] c [simplified] sibling_lines_def)
  then have "aof_view s0 ''ali'' = None" by (rule demo_unknown)
  then have "idx s0 ''ali'' = None" by (simp add: aof_view_def)
  moreover have "idx ?s = idx s0"
  proof -
    have "idx (with_aof g (drained (s0\<lparr>is_closed := True, stopped := True, threads := []\<rparr>))) = idx s0" for g
      using idx_drained [of "s0\<lparr>is_closed := True, stopped := True, threads := []\<rparr>"] by (simp add: idx_def [abs_def])
    then show ?thesis
      using opened_not_closed(2) [OF s0] by (auto simp: close_store_def flush_public_def flush_locked_eq Let_def idx_def [abs_def])
  qed
  ultimately have v: "aof_view ?s ''ali'' = None" by (simp add: aof_view_def)
  let ?p = "J_OBJ [(''url'', J_STR ''http://x''), (''alias'', J_STR ''ali'')]"
  have p: "j_find ''url'' ?p = Some (J_STR ''http://x'')" "j_find ''alias'' ?p = Some (J_STR ''ali'')" "req_ttl ?e ?p = Inr 86400000"
    "expiry 5 86400000 = 86400005" by code_simp+
  obtain w1 where w1: "handle (aof_ops demo_os ?e isort (\<lambda>_. 5)) ?e [] (\<lambda>_. 5) ''POST'' ''/api/shorten'' demo_body [] ''1.2.3.4'' (demo_world ?s) =
      Inr (created ''ali'', w1)" and m: "shorten demo_os 5 ''http://x'' (Some ''ali'') 86400000 ?s = Some (Some ''ali'', the_store w1)"
    using post_creates [where w = "demo_world ?s" and sys = demo_os and srt = isort and ck = "\<lambda>_. 5" and clk = "\<lambda>_. 5" and html = "[]" and
        token = "[]" and client = "''1.2.3.4''", OF demo_parse p(1) demo_checks(1) p(2) demo_checks(2) p(3)] v by auto
  have "answered demo_os ?e (demo_world ?s) w1" using w1 by (rule answered.more [OF answered.none])
  from served_links_are_lost [OF s _ _ this] e(1) have "disk_of (on_sig_serve demo_os (the_store w1)) = disk_of ?s" by simp
  then show ?thesis using s w1 posted_view [OF m] p(4) by auto
qed

end
