(* ===== verification/Kv.thy ===== *)
theory Kv
  imports Common
begin

text \<open>
  The client of the external key-value server (\<^verbatim>\<open>src/src/kv.hpp\<close>, \<^verbatim>\<open>src/src/kv.cpp\<close>): the reader of
  RESP replies over a connection that delivers its bytes in pieces, pipelines, and the commands the
  store uses. The server is a parameter: what it does with the bytes of a pipeline and in which pieces
  its answer arrives. The lemmas show that pieces do not matter, that printed replies are read back,
  and that a pipeline runs exactly the commands it was given.
\<close>

section \<open>Definitions\<close>

datatype resp = Resp (r_kind: char) (r_str: string) (r_num: i64) (r_arr: "resp list")

definition resp_null :: "resp \<Rightarrow> bool" where
  "resp_null r \<longleftrightarrow> (r_kind r = CHR ''$'' \<and> r_num r < 0) \<or> (r_kind r = CHR ''*'' \<and> r_num r < 0)"

text \<open>
  A connection: the bytes received, how far they are read, and the pieces \<^verbatim>\<open>recv\<close> will still deliver.
  An empty piece is the end of the stream, and so is the end of the list.
\<close>

record kv_conn =
  rd_buf :: string
  rd_pos :: nat
  rd_in :: "string list"

definition fill :: "kv_conn \<Rightarrow> bool \<times> kv_conn" where
  "fill c =
     (let c = (if rd_pos c = length (rd_buf c) then c\<lparr>rd_buf := [], rd_pos := 0\<rparr> else c)
      in case rd_in c of
           [] \<Rightarrow> (False, c)
         | t # ts \<Rightarrow> if t = [] then (False, c\<lparr>rd_in := ts\<rparr>) else (True, c\<lparr>rd_buf := rd_buf c @ t, rd_in := ts\<rparr>))"

lemma fill_decreases: "fill c = (True, c') \<Longrightarrow> length (rd_in c') < length (rd_in c)"
  by (auto simp: fill_def Let_def split: list.splits if_splits)

function rd_byte :: "kv_conn \<Rightarrow> char option \<times> kv_conn" where
  "rd_byte c =
     (if rd_pos c < length (rd_buf c) then (Some (rd_buf c ! rd_pos c), c\<lparr>rd_pos := rd_pos c + 1\<rparr>)
      else let (ok, c) = fill c in if ok then rd_byte c else (None, c))"
  by pat_completeness auto
termination
  by (relation "measure (\<lambda>c. length (rd_in c))") (auto dest: fill_decreases [OF sym])

function rd_line :: "kv_conn \<Rightarrow> string option \<times> kv_conn" where
  "rd_line c =
     (case str_find CRLF (drop (rd_pos c) (rd_buf c)) of
        Some p \<Rightarrow> (Some (take p (drop (rd_pos c) (rd_buf c))), c\<lparr>rd_pos := rd_pos c + p + 2\<rparr>)
      | None \<Rightarrow> let (ok, c) = fill c in if ok then rd_line c else (None, c))"
  by pat_completeness auto
termination
  by (relation "measure (\<lambda>c. length (rd_in c))") (auto dest: fill_decreases [OF sym])

function rd_exact :: "nat \<Rightarrow> string \<Rightarrow> kv_conn \<Rightarrow> string option \<times> kv_conn" where
  "rd_exact n dst c =
     (if length dst < n then
        (let avail = length (rd_buf c) - rd_pos c
         in if avail \<noteq> 0 then
              (let k = min avail (n - length dst)
               in rd_exact n (dst @ take k (drop (rd_pos c) (rd_buf c))) (c\<lparr>rd_pos := rd_pos c + k\<rparr>))
            else let (ok, c) = fill c in if ok then rd_exact n dst c else (None, c))
      else (Some dst, c))"
  by pat_completeness auto
termination
  by (relation "measure (\<lambda>(n, dst, c). (n - length dst) + length (rd_in c))") (auto dest: fill_decreases [OF sym])

declare rd_byte.simps [simp del] rd_line.simps [simp del] rd_exact.simps [simp del]

text \<open>Why a command fails: the connection ended, or a length or number in a reply was not one.\<close>

datatype kv_error = Read_failed | Bad_number | Send_failed

text \<open>
  Replies, with a bound on the depth of the recursion that \<open>None\<close> would exceed; \<open>read_one\<close> gives a bound
  that is never reached. An array is read element by element.
\<close>

fun read_resp :: "nat \<Rightarrow> kv_conn \<Rightarrow> ((kv_error + resp) \<times> kv_conn) option"
and read_arr :: "nat \<Rightarrow> nat \<Rightarrow> resp list \<Rightarrow> kv_conn \<Rightarrow> ((kv_error + resp list) \<times> kv_conn) option"
where
  "read_resp 0 c = None"
| "read_resp (Suc n) c =
     (case rd_byte c of
        (None, c) \<Rightarrow> Some (Inl Read_failed, c)
      | (Some k, c) \<Rightarrow>
          if k \<notin> {CHR ''+'', CHR ''-'', CHR '':'', CHR ''$'', CHR ''*''} then Some (Inl Read_failed, c)
          else
            (case rd_line c of
               (None, c) \<Rightarrow> Some (Inl Read_failed, c)
             | (Some l, c) \<Rightarrow>
                 if k = CHR ''+'' \<or> k = CHR ''-'' then Some (Inr (Resp k l 0 []), c)
                 else
                   (case stoll l of
                      None \<Rightarrow> Some (Inl Bad_number, c)
                    | Some m \<Rightarrow>
                        if k = CHR '':'' \<or> m < 0 then Some (Inr (Resp k [] m []), c)
                        else if k = CHR ''$'' then
                          (case rd_exact (nat m + 2) [] c of
                             (None, c) \<Rightarrow> Some (Inl Read_failed, c)
                           | (Some d, c) \<Rightarrow> Some (Inr (Resp k (take (nat m) d) m []), c))
                        else
                          (case read_arr n (nat m) [] c of
                             None \<Rightarrow> None
                           | Some (Inl e, c) \<Rightarrow> Some (Inl e, c)
                           | Some (Inr es, c) \<Rightarrow> Some (Inr (Resp k [] m es), c)))))"
| "read_arr 0 k es c = None"
| "read_arr (Suc n) k es c =
     (if k = 0 then Some (Inr es, c)
      else
        (case read_resp n c of
           None \<Rightarrow> None
         | Some (Inl e, c) \<Rightarrow> Some (Inl e, c)
         | Some (Inr r, c) \<Rightarrow> read_arr n (k - 1) (es @ [r]) c))"

text \<open>The bytes a connection has still to give.\<close>

definition rest_of :: "kv_conn \<Rightarrow> string" where
  "rest_of c = drop (rd_pos c) (rd_buf c) @ concat (rd_in c)"

definition read_one :: "kv_conn \<Rightarrow> (kv_error + resp) \<times> kv_conn" where
  "read_one c = (case read_resp (2 * length (rest_of c) + 1) c of Some x \<Rightarrow> x | None \<Rightarrow> (Inl Read_failed, c))"

fun read_all :: "nat \<Rightarrow> resp list \<Rightarrow> kv_conn \<Rightarrow> (kv_error + resp list) \<times> kv_conn" where
  "read_all 0 rs c = (Inr rs, c)"
| "read_all (Suc k) rs c =
     (case read_one c of (Inl e, c) \<Rightarrow> (Inl e, c) | (Inr r, c) \<Rightarrow> read_all k (rs @ [r]) c)"

definition warg :: "string \<Rightarrow> string \<Rightarrow> string" where
  "warg b a = b @ ''$'' @ to_string (int (length a)) @ CRLF @ a @ CRLF"

definition print_cmd :: "string \<Rightarrow> string list \<Rightarrow> string" where
  "print_cmd buf args = fold (\<lambda>a b. warg b a) args (buf @ ''*'' @ to_string (int (length args)) @ CRLF)"

text \<open>
  The client: its connections, the counter that picks the next one, and the state of the server behind
  them. A \<open>peer\<close> is the server at the other end: given the bytes of a pipeline it changes its state and
  tells the pieces in which its answer arrives, or the sending fails.
\<close>

type_synonym 'd peer = "string \<Rightarrow> 'd \<Rightarrow> string list option \<times> 'd"

record 'd kv =
  kv_conns :: "kv_conn list"
  kv_next :: nat
  kv_data :: 'd

definition pipe :: "'d peer \<Rightarrow> string list list \<Rightarrow> 'd kv \<Rightarrow> (kv_error + resp list) \<times> 'd kv" where
  "pipe peer cmds s =
     (let i = kv_next s mod length (kv_conns s);
          s = s\<lparr>kv_next := (kv_next s + 1) mod 2 ^ 64\<rparr>
      in case peer (fold (\<lambda>args buf. print_cmd buf args) cmds []) (kv_data s) of
           (None, d) \<Rightarrow> (Inl Send_failed, s\<lparr>kv_data := d\<rparr>)
         | (Some ts, d) \<Rightarrow>
             (let c = (kv_conns s ! i)\<lparr>rd_in := rd_in (kv_conns s ! i) @ ts\<rparr>;
                  (r, c) = read_all (length cmds) [] c
              in (r, s\<lparr>kv_conns := (kv_conns s)[i := c], kv_data := d\<rparr>)))"

text \<open>A call that may throw, followed by the rest of its caller.\<close>

definition and_then :: "('s \<Rightarrow> (kv_error + 'a) \<times> 's) \<Rightarrow> ('a \<Rightarrow> 's \<Rightarrow> (kv_error + 'b) \<times> 's) \<Rightarrow> 's \<Rightarrow> (kv_error + 'b) \<times> 's" where
  "and_then m f s = (case m s of (Inl e, s) \<Rightarrow> (Inl e, s) | (Inr x, s) \<Rightarrow> f x s)"

definition return :: "'a \<Rightarrow> 's \<Rightarrow> (kv_error + 'a) \<times> 's" where
  "return x s = (Inr x, s)"

definition cmd :: "'d peer \<Rightarrow> string list \<Rightarrow> 'd kv \<Rightarrow> (kv_error + resp) \<times> 'd kv" where
  "cmd peer args = and_then (pipe peer [args]) (\<lambda>rs. return (rs ! 0))"

definition kv_get :: "'d peer \<Rightarrow> string \<Rightarrow> 'd kv \<Rightarrow> (kv_error + string option) \<times> 'd kv" where
  "kv_get peer k = and_then (cmd peer [''GET'', k]) (\<lambda>r. return (if resp_null r then None else Some (r_str r)))"

definition set_args :: "string \<Rightarrow> string \<Rightarrow> i64 \<Rightarrow> bool \<Rightarrow> string list" where
  "set_args k v px_ms nx =
     [''SET'', k, v] @ (if 0 < px_ms then [''PX'', to_string px_ms] else []) @ (if nx then [''NX''] else [])"

definition kv_set :: "'d peer \<Rightarrow> string \<Rightarrow> string \<Rightarrow> i64 \<Rightarrow> bool \<Rightarrow> 'd kv \<Rightarrow> (kv_error + bool) \<times> 'd kv" where
  "kv_set peer k v px_ms nx =
     and_then (cmd peer (set_args k v px_ms nx)) (\<lambda>r. return (r_kind r = CHR ''+'' \<and> r_str r = ''OK''))"

definition kv_del :: "'d peer \<Rightarrow> string \<Rightarrow> 'd kv \<Rightarrow> (kv_error + i64) \<times> 'd kv" where
  "kv_del peer k = and_then (cmd peer [''DEL'', k]) (\<lambda>r. return (if r_kind r = CHR '':'' then r_num r else 0))"

definition incrby_many :: "'d peer \<Rightarrow> (string \<times> i64) list \<Rightarrow> 'd kv \<Rightarrow> (kv_error + unit) \<times> 'd kv" where
  "incrby_many peer deltas =
     (if deltas = [] then return ()
      else and_then (pipe peer (map (\<lambda>(k, d). [''INCRBY'', k, to_string d]) deltas)) (\<lambda>rs. return ()))"

definition kv_hget :: "'d peer \<Rightarrow> string \<Rightarrow> string \<Rightarrow> 'd kv \<Rightarrow> (kv_error + string option) \<times> 'd kv" where
  "kv_hget peer k f =
     and_then (cmd peer [''HGET'', k, f]) (\<lambda>r. return (if r_kind r = CHR ''$'' \<and> \<not> resp_null r then Some (r_str r) else None))"

definition hsetnx :: "'d peer \<Rightarrow> string \<Rightarrow> string \<Rightarrow> string \<Rightarrow> 'd kv \<Rightarrow> (kv_error + bool) \<times> 'd kv" where
  "hsetnx peer k f v = and_then (cmd peer [''HSETNX'', k, f, v]) (\<lambda>r. return (r_kind r = CHR '':'' \<and> r_num r = 1))"

definition hset :: "'d peer \<Rightarrow> string \<Rightarrow> string \<Rightarrow> string \<Rightarrow> 'd kv \<Rightarrow> (kv_error + bool) \<times> 'd kv" where
  "hset peer k f v = and_then (cmd peer [''HSET'', k, f, v]) (\<lambda>r. return (r_kind r = CHR '':''))"

definition hdel :: "'d peer \<Rightarrow> string \<Rightarrow> string \<Rightarrow> 'd kv \<Rightarrow> (kv_error + i64) \<times> 'd kv" where
  "hdel peer k f = and_then (cmd peer [''HDEL'', k, f]) (\<lambda>r. return (if r_kind r = CHR '':'' then r_num r else 0))"

definition hincrby_many :: "'d peer \<Rightarrow> (string \<times> string \<times> i64) list \<Rightarrow> 'd kv \<Rightarrow> (kv_error + unit) \<times> 'd kv" where
  "hincrby_many peer deltas =
     (if deltas = [] then return ()
      else and_then (pipe peer (map (\<lambda>(k, f, n). [''HINCRBY'', k, f, to_string n]) deltas)) (\<lambda>rs. return ()))"

text \<open>
  The scans call the server until it answers with cursor 0, which it may never do; the callbacks of
  the store collect what they are given.
\<close>

partial_function (option) scan_each ::
  "'d peer \<Rightarrow> string \<Rightarrow> string \<Rightarrow> string list \<Rightarrow> 'd kv \<Rightarrow> ((kv_error + string list) \<times> 'd kv) option"
where
  "scan_each peer pat cursor ks s =
     (case cmd peer [''SCAN'', cursor, ''MATCH'', pat, ''COUNT'', ''500''] s of
        (Inl e, s) \<Rightarrow> Some (Inl e, s)
      | (Inr r, s) \<Rightarrow>
          if r_kind r \<noteq> CHR ''*'' \<or> length (r_arr r) \<noteq> 2 then Some (Inr ks, s)
          else
            (let cursor = r_str (r_arr r ! 0); ks = ks @ map r_str (r_arr (r_arr r ! 1))
             in if cursor = ''0'' then Some (Inr ks, s) else scan_each peer pat cursor ks s))"

fun item_pairs :: "resp list \<Rightarrow> (string \<times> string) list" where
  "item_pairs (f # v # items) = (r_str f, r_str v) # item_pairs items"
| "item_pairs _ = []"

partial_function (option) hscan_each ::
  "'d peer \<Rightarrow> string \<Rightarrow> string \<Rightarrow> (string \<times> string) list \<Rightarrow> 'd kv \<Rightarrow> ((kv_error + (string \<times> string) list) \<times> 'd kv) option"
where
  "hscan_each peer k cursor fs s =
     (case cmd peer [''HSCAN'', k, cursor, ''COUNT'', ''1000''] s of
        (Inl e, s) \<Rightarrow> Some (Inl e, s)
      | (Inr r, s) \<Rightarrow>
          if r_kind r \<noteq> CHR ''*'' \<or> length (r_arr r) \<noteq> 2 then Some (Inr fs, s)
          else
            (let cursor = r_str (r_arr r ! 0); fs = fs @ item_pairs (r_arr (r_arr r ! 1))
             in if cursor \<noteq> ''0'' then hscan_each peer k cursor fs s else Some (Inr fs, s)))"

definition flushdb :: "'d peer \<Rightarrow> 'd kv \<Rightarrow> (kv_error + unit) \<times> 'd kv" where
  "flushdb peer = and_then (cmd peer [''FLUSHDB'']) (\<lambda>_. return ())"

text \<open>
  The constructor dials up to \<open>nconn\<close> connections; the first failure ends the dialling, and only a failure
  of the very first one is an error. Then it asks for a sign of life. \<open>kv_what\<close> is the text of the exception.
\<close>

definition conn_new :: kv_conn where
  "conn_new = \<lparr>rd_buf = [], rd_pos = 0, rd_in = []\<rparr>"

definition kv_what :: "kv_error \<Rightarrow> string" where
  "kv_what e = (case e of Read_failed \<Rightarrow> ''kv: read failed'' | Bad_number \<Rightarrow> ''stoll'' | Send_failed \<Rightarrow> ''kv: send failed'')"

definition Kv_open :: "'d peer \<Rightarrow> (nat \<Rightarrow> bool) \<Rightarrow> string \<Rightarrow> nat \<Rightarrow> 'd \<Rightarrow> string + 'd kv" where
  "Kv_open peer dials addr nconn d =
     (let k = length (takeWhile dials [0..<nconn])
      in if k = 0 \<and> 0 < nconn then Inl (''kv: connect '' @ addr @ '' failed'')
         else
           (case cmd peer [''PING''] \<lparr>kv_conns = replicate k conn_new, kv_next = 0, kv_data = d\<rparr> of
              (Inl e, s) \<Rightarrow> Inl (kv_what e)
            | (Inr r, s) \<Rightarrow>
                if r_kind r \<noteq> CHR ''+'' \<or> r_str r \<noteq> ''PONG'' then Inl (''kv: PING failed on '' @ addr) else Inr s))"

section \<open>The reader ends\<close>

lemma fill_rest: "fill c = (ok, c') \<Longrightarrow> length (rest_of c') \<le> length (rest_of c)"
  by (auto simp: fill_def rest_of_def Let_def split: list.splits if_splits)

lemma rd_byte_rest: "rd_byte c = (Some b, c') \<Longrightarrow> length (rest_of c') < length (rest_of c)"
proof (induction c rule: rd_byte.induct)
  case (1 c)
  show ?case
  proof (cases "rd_pos c < length (rd_buf c)")
    case True
    then show ?thesis using "1.prems" by (subst (asm) rd_byte.simps) (auto simp: rest_of_def)
  next
    case False
    obtain ok d where d: "fill c = (ok, d)" by force
    with False "1.prems" have "ok" "rd_byte d = (Some b, c')" by (subst (asm) rd_byte.simps, auto split: if_splits)+
    with "1.IH" [OF False d [symmetric] refl] fill_rest [OF d] show ?thesis by simp
  qed
qed

lemma rd_line_rest: "rd_line c = (r, c') \<Longrightarrow> length (rest_of c') \<le> length (rest_of c)"
proof (induction c rule: rd_line.induct)
  case (1 c)
  show ?case
  proof (cases "str_find CRLF (drop (rd_pos c) (rd_buf c))")
    case (Some p)
    then show ?thesis using "1.prems" by (subst (asm) rd_line.simps) (auto simp: rest_of_def)
  next
    case None
    obtain ok d where d: "fill c = (ok, d)" by force
    show ?thesis
    proof (cases ok)
      case True
      then have "rd_line d = (r, c')" using None d "1.prems" by (subst (asm) rd_line.simps) simp
      with "1.IH" [OF None d [symmetric] refl True] fill_rest [OF d] show ?thesis by simp
    next
      case False
      then show ?thesis using None d "1.prems" fill_rest [OF d] by (subst (asm) rd_line.simps) simp
    qed
  qed
qed

lemma rd_exact_rest: "rd_exact n dst c = (r, c') \<Longrightarrow> length (rest_of c') \<le> length (rest_of c)"
proof (induction n dst c rule: rd_exact.induct)
  case (1 n dst c)
  show ?case
  proof (cases "length dst < n")
    case lt: True
    show ?thesis
    proof (cases "length (rd_buf c) - rd_pos c = 0")
      case False
      define k where "k = min (length (rd_buf c) - rd_pos c) (n - length dst)"
      have "rd_exact n (dst @ take k (drop (rd_pos c) (rd_buf c))) (c\<lparr>rd_pos := rd_pos c + k\<rparr>) = (r, c')"
        using "1.prems" lt False by (subst (asm) rd_exact.simps) (simp add: Let_def k_def)
      from "1.IH"(1) [OF lt refl False k_def this] show ?thesis by (simp add: rest_of_def)
    next
      case e: True
      obtain ok d where d: "fill c = (ok, d)" by force
      show ?thesis
      proof (cases ok)
        case True
        then have "rd_exact n dst d = (r, c')" using lt e d "1.prems" by (subst (asm) rd_exact.simps) simp
        with "1.IH"(2) [OF lt refl _ d [symmetric] refl True] e fill_rest [OF d] show ?thesis by simp
      next
        case False
        then show ?thesis using lt e d "1.prems" fill_rest [OF d] by (subst (asm) rd_exact.simps) simp
      qed
    qed
  next
    case False
    then show ?thesis using "1.prems" by (subst (asm) rd_exact.simps) simp
  qed
qed

text \<open>Every value takes a byte, so the bound of \<open>read_one\<close> is never reached.\<close>

lemma read_consumes:
  "read_resp n c = Some (Inr r, c') \<Longrightarrow> length (rest_of c') < length (rest_of c)"
  "read_arr n k es c = Some (Inr es', c') \<Longrightarrow> length (rest_of c') \<le> length (rest_of c)"
proof (induction n c and n k es c arbitrary: r c' and es' c' rule: read_resp_read_arr.induct)
  case (2 n c)
  obtain b c1 where c1: "rd_byte c = (Some b, c1)" using "2.prems" by (auto split: prod.splits option.splits)
  obtain l c2 where c2: "rd_line c1 = (Some l, c2)" using "2.prems" c1 by (auto split: prod.splits option.splits if_splits)
  note le = rd_byte_rest [OF c1] rd_line_rest [OF c2]
  show ?case
  proof (cases "c' = c2")
    case False
    then obtain m where m: "stoll l = Some m" "\<not> m < 0" "b \<noteq> CHR '':''" "b \<in> {CHR ''+'', CHR ''-'', CHR '':'', CHR ''$'', CHR ''*''}" "\<not> (b = CHR ''+'' \<or> b = CHR ''-'')"
      using "2.prems" c1 c2 by (auto split: prod.splits option.splits if_splits)
    show ?thesis
    proof (cases "b = CHR ''$''")
      case True
      then obtain d where "rd_exact (nat m + 2) [] c2 = (Some d, c')" using "2.prems" c1 c2 m by (auto split: prod.splits option.splits)
      from rd_exact_rest [OF this] le show ?thesis by simp
    next
      case False
      then obtain es where es: "read_arr n (nat m) [] c2 = Some (Inr es, c')"
        using "2.prems" c1 c2 m by (auto split: prod.splits option.splits sum.splits)
      have "length (rest_of c') \<le> length (rest_of c2)"
        by (rule "2.IH" [OF c1 [symmetric] refl _ c2 [symmetric] refl m(5,1) _ False es]) (use m in auto)
      with le show ?thesis by simp
    qed
  qed (use le in simp)
next
  case (4 n k es c)
  show ?case
  proof (cases "k = 0")
    case True
    then show ?thesis using "4.prems" by simp
  next
    case False
    then obtain r c1 where r: "read_resp n c = Some (Inr r, c1)" "read_arr n (k - 1) (es @ [r]) c1 = Some (Inr es', c')"
      using "4.prems" by (auto split: option.splits prod.splits sum.splits)
    have "length (rest_of c1) < length (rest_of c)" using "4.IH"(1) [OF False r(1)] .
    moreover have "length (rest_of c') \<le> length (rest_of c1)" by (rule "4.IH"(2) [OF False r(1) refl refl r(2)])
    ultimately show ?thesis by simp
  qed
qed simp_all

lemma read_enough:
  "2 * length (rest_of c) < n \<Longrightarrow> read_resp n c \<noteq> None"
  "2 * length (rest_of c) + 1 < n \<Longrightarrow> read_arr n k es c \<noteq> None"
proof (induction n c and n k es c rule: read_resp_read_arr.induct)
  case (2 n c)
  show ?case
  proof (cases "\<exists>b c1 l c2 m. rd_byte c = (Some b, c1) \<and> rd_line c1 = (Some l, c2) \<and> stoll l = Some m \<and> \<not> m < 0 \<and> b = CHR ''*''")
    case True
    then obtain b c1 l c2 m where c: "rd_byte c = (Some b, c1)" "rd_line c1 = (Some l, c2)" "stoll l = Some m" "\<not> m < 0" "b = CHR ''*''" by blast
    have "2 * length (rest_of c2) + 1 < n" using rd_byte_rest [OF c(1)] rd_line_rest [OF c(2)] "2.prems" by simp
    then have "read_arr n (nat m) [] c2 \<noteq> None"
      by (intro "2.IH" [OF c(1) [symmetric] refl _ c(2) [symmetric] refl _ c(3)]) (use c(4,5) in simp_all)
    then show ?thesis using c by (auto split: prod.splits sum.splits)
  next
    case False
    then show ?thesis by (auto split: prod.splits option.splits if_splits)
  qed
next
  case (4 n k es c)
  show ?case
  proof (cases "k = 0")
    case False
    have "read_resp n c \<noteq> None" using "4.IH"(1) [OF False] "4.prems" by simp
    then consider e c1 where "read_resp n c = Some (Inl e, c1)" | r c1 where "read_resp n c = Some (Inr r, c1)" by (metis option.exhaust prod.exhaust sum.exhaust)
    then show ?thesis
    proof cases
      case 1
      then show ?thesis using False by simp
    next
      case 2
      have "2 * length (rest_of c1) + 1 < n" using read_consumes(1) [OF 2] "4.prems" by simp
      then show ?thesis using "4.IH"(2) [OF False 2 refl refl] 2 False by simp
    qed
  qed simp
qed simp_all

lemma read_one_total: "\<exists>x. read_resp (2 * length (rest_of c) + 1) c = Some x \<and> read_one c = x"
  using read_enough(1) [of c "2 * length (rest_of c) + 1"] by (auto simp: read_one_def)
section \<open>Pieces do not matter\<close>

definition conn_ok :: "kv_conn \<Rightarrow> bool" where
  "conn_ok c \<longleftrightarrow> rd_pos c \<le> length (rd_buf c) \<and> [] \<notin> set (rd_in c)"

text \<open>A connection in order that has still to give the bytes \<open>s\<close>.\<close>

definition leaves :: "kv_conn \<Rightarrow> string \<Rightarrow> bool" where
  "leaves c s \<longleftrightarrow> conn_ok c \<and> rest_of c = s"

lemma fill_more:
  assumes "leaves c s" and "rd_in c \<noteq> []"
  shows "\<exists>c'. fill c = (True, c') \<and> leaves c' s"
  using assms by (auto simp: leaves_def conn_ok_def fill_def rest_of_def Let_def split: list.splits)

lemma rd_byte_leaves: "leaves c (b # s) \<Longrightarrow> \<exists>c'. rd_byte c = (Some b, c') \<and> leaves c' s"
proof (induction c rule: rd_byte.induct)
  case (1 c)
  show ?case
  proof (cases "rd_pos c < length (rd_buf c)")
    case True
    then have "drop (rd_pos c) (rd_buf c) = rd_buf c ! rd_pos c # drop (rd_pos c + 1) (rd_buf c)" by (simp add: Cons_nth_drop_Suc)
    then show ?thesis using True "1.prems" by (simp add: rd_byte.simps leaves_def conn_ok_def rest_of_def)
  next
    case False
    then have "rd_in c \<noteq> []" using "1.prems" by (auto simp: leaves_def rest_of_def)
    from fill_more [OF "1.prems" this] obtain c' where c': "fill c = (True, c')" "leaves c' (b # s)" by auto
    from "1.IH" [OF False c'(1) [symmetric] refl _ c'(2)] show ?thesis using False c'(1) by (simp add: rd_byte.simps)
  qed
qed

lemma rd_line_leaves: "leaves c (l @ CRLF @ s) \<Longrightarrow> CR \<notin> set l \<Longrightarrow> \<exists>c'. rd_line c = (Some l, c') \<and> leaves c' s"
proof (induction c rule: rd_line.induct)
  case (1 c)
  let ?b = "drop (rd_pos c) (rd_buf c)"
  have r: "?b @ concat (rd_in c) = l @ CRLF @ s" "conn_ok c" using "1.prems"(1) by (simp_all add: leaves_def rest_of_def)
  show ?case
  proof (cases "str_find CRLF ?b")
    case (Some p)
    from str_find_extend [OF this, of "concat (rd_in c)"] r(1) str_find_two [OF "1.prems"(2), of s] have p: "p = length l" by simp
    have le: "length l + 2 \<le> length ?b" using str_find_Some [OF Some] p by simp
    have "take p ?b = l" using arg_cong [OF r(1), of "take p"] le p by simp
    moreover have "drop (p + 2) ?b @ concat (rd_in c) = s" using arg_cong [OF r(1), of "drop (p + 2)"] le p by simp
    ultimately show ?thesis using Some p le r(2)
      by (simp add: rd_line.simps leaves_def rest_of_def conn_ok_def add.commute add.left_commute)
  next
    case None
    then have "rd_in c \<noteq> []" using r(1) str_find_two [OF "1.prems"(2), of s] by auto
    from fill_more [OF "1.prems"(1) this] obtain c' where c': "fill c = (True, c')" "leaves c' (l @ CRLF @ s)" by auto
    from "1.IH" [OF None c'(1) [symmetric] refl _ c'(2) "1.prems"(2)] show ?thesis using None c'(1) by (simp add: rd_line.simps)
  qed
qed

lemma rd_exact_leaves:
  "leaves c (d @ s) \<Longrightarrow> length dst + length d = n \<Longrightarrow> \<exists>c'. rd_exact n dst c = (Some (dst @ d), c') \<and> leaves c' s"
proof (induction n dst c arbitrary: d rule: rd_exact.induct)
  case (1 n dst c)
  let ?b = "drop (rd_pos c) (rd_buf c)"
  show ?case
  proof (cases "d = []")
    case True
    then show ?thesis using "1.prems" by (simp add: rd_exact.simps)
  next
    case False
    then have lt: "length dst < n" using "1.prems"(2) by (cases d) auto
    have r: "?b @ concat (rd_in c) = d @ s" "conn_ok c" using "1.prems"(1) by (simp_all add: leaves_def rest_of_def)
    show ?thesis
    proof (cases "length (rd_buf c) - rd_pos c = 0")
      case False
      define k where "k = min (length (rd_buf c) - rd_pos c) (n - length dst)"
      have k: "k \<le> length ?b" "k \<le> length d" using "1.prems"(2) by (auto simp: k_def)
      have t: "take k ?b = take k d" using arg_cong [OF r(1), of "take k"] k by simp
      have dr: "drop k ?b @ concat (rd_in c) = drop k d @ s" using arg_cong [OF r(1), of "drop k"] k by simp
      have "leaves (c\<lparr>rd_pos := rd_pos c + k\<rparr>) (drop k d @ s)"
        using dr k(1) r(2) by (auto simp: leaves_def rest_of_def conn_ok_def add.commute)
      from "1.IH"(1) [OF lt refl False k_def this] "1.prems"(2) k t
      have "\<exists>c'. rd_exact n (dst @ take k ?b) (c\<lparr>rd_pos := rd_pos c + k\<rparr>) = (Some (dst @ d), c') \<and> leaves c' s" by simp
      then show ?thesis using lt False by (subst rd_exact.simps) (simp add: Let_def k_def)
    next
      case True
      then have "rd_in c \<noteq> []" using r(1) \<open>d \<noteq> []\<close> by auto
      from fill_more [OF "1.prems"(1) this] obtain c' where c': "fill c = (True, c')" "leaves c' (d @ s)" by auto
      have "\<exists>c''. rd_exact n dst c' = (Some (dst @ d), c'') \<and> leaves c'' s"
        using "1.IH"(2) [OF lt refl _ c'(1) [symmetric] refl _ c'(2) "1.prems"(2)] True by simp
      then show ?thesis using lt True c'(1) by (subst rd_exact.simps) (simp add: Let_def)
    qed
  qed
qed
section \<open>Replies are read back\<close>

text \<open>The serialization protocol, as a server prints it, and the replies it can print.\<close>

fun print_resp :: "resp \<Rightarrow> string" where
  "print_resp (Resp k s m es) =
     k # (if k = CHR ''+'' \<or> k = CHR ''-'' then s @ CRLF
          else to_string m @ CRLF @
            (if k = CHR '':'' \<or> m < 0 then [] else if k = CHR ''$'' then s @ CRLF else concat (map print_resp es)))"

fun resp_ok :: "resp \<Rightarrow> bool" where
  "resp_ok (Resp k s m es) \<longleftrightarrow>
     (if k = CHR ''+'' \<or> k = CHR ''-'' then CR \<notin> set s \<and> m = 0 \<and> es = []
      else in_i64 m \<and>
        (if k = CHR '':'' then s = [] \<and> es = []
         else if k = CHR ''$'' then es = [] \<and> (if m < 0 then s = [] else m = int (length s))
         else k = CHR ''*'' \<and> s = [] \<and> (if m < 0 then es = [] else m = int (length es) \<and> (\<forall>e \<in> set es. resp_ok e))))"

lemma to_string_one_line: "CR \<notin> set (to_string n)"
  unfolding to_string_def by (rule itoa_avoids) simp

lemma print_resp_pos: "0 < length (print_resp r)"
  by (cases r) simp

lemma rd_number_leaves:
  assumes "leaves c (to_string m @ CRLF @ s)" and "in_i64 m"
  shows "\<exists>l c'. rd_line c = (Some l, c') \<and> stoll l = Some m \<and> leaves c' s"
  using rd_line_leaves [OF assms(1) to_string_one_line] assms(2) by auto

lemma read_arr_leaves:
  assumes "\<And>e c s n. e \<in> set es \<Longrightarrow> leaves c (print_resp e @ s) \<Longrightarrow> 2 * length (print_resp e) < n \<Longrightarrow>
      \<exists>c'. read_resp n c = Some (Inr e, c') \<and> leaves c' s"
    and "leaves c (concat (map print_resp es) @ s)" and "2 * length (concat (map print_resp es)) + 1 < n"
  shows "\<exists>c'. read_arr n (length es) acc c = Some (Inr (acc @ es), c') \<and> leaves c' s"
  using assms
proof (induction es arbitrary: acc c n)
  case Nil
  then show ?case by (cases n) simp_all
next
  case (Cons e es)
  obtain m where n: "n = Suc m" using Cons.prems(3) by (cases n) simp_all
  from Cons.prems(1) [of e c "concat (map print_resp es) @ s" m] Cons.prems(2,3) n
  obtain c' where c': "read_resp m c = Some (Inr e, c')" "leaves c' (concat (map print_resp es) @ s)" by auto
  have "2 * length (concat (map print_resp es)) + 1 < m" using Cons.prems(3) n print_resp_pos [of e]
    by (simp del: length_greater_0_conv)
  from Cons.IH [OF Cons.prems(1) c'(2) this, of "acc @ [e]"] show ?case using c'(1) n by auto
qed

lemma read_resp_leaves:
  "resp_ok r \<Longrightarrow> leaves c (print_resp r @ s) \<Longrightarrow> 2 * length (print_resp r) < n \<Longrightarrow>
    \<exists>c'. read_resp n c = Some (Inr r, c') \<and> leaves c' s"
proof (induction r arbitrary: c s n)
  case (Resp k t m es)
  obtain j where n: "n = Suc j" using Resp.prems(3) by (cases n) simp_all
  obtain c1 where c1: "rd_byte c = (Some k, c1)" "leaves c1 (tl (print_resp (Resp k t m es)) @ s)"
    using rd_byte_leaves [of c k "tl (print_resp (Resp k t m es)) @ s"] Resp.prems(2) by auto
  have k: "k \<in> {CHR ''+'', CHR ''-'', CHR '':'', CHR ''$'', CHR ''*''}" using Resp.prems(1) by (auto split: if_splits)
  show ?case
  proof (cases "k = CHR ''+'' \<or> k = CHR ''-''")
    case True
    have "leaves c1 (t @ CRLF @ s)" using c1(2) True by auto
    from rd_line_leaves [OF this] obtain c2 where "rd_line c1 = (Some t, c2)" "leaves c2 s" using Resp.prems(1) True by auto
    then show ?thesis using c1(1) True n Resp.prems(1) by auto
  next
    case False
    let ?tl = "if k = CHR '':'' \<or> m < 0 then [] else if k = CHR ''$'' then t @ CRLF else concat (map print_resp es)"
    have m: "in_i64 m" using Resp.prems(1) False by simp
    have "leaves c1 (to_string m @ CRLF @ ?tl @ s)" using c1(2) False by simp
    from rd_number_leaves [OF this m] obtain l c2 where c2: "rd_line c1 = (Some l, c2)" "stoll l = Some m" "leaves c2 (?tl @ s)" by auto
    consider "k = CHR '':'' \<or> m < 0" | "k = CHR ''$''" "\<not> m < 0" | "k = CHR ''*''" "\<not> m < 0" using k False by auto
    then show ?thesis
    proof cases
      case 1
      then show ?thesis using c1(1) c2 False n k Resp.prems(1) by auto
    next
      case 2
      then have t: "m = int (length t)" "es = []" using Resp.prems(1) by simp_all
      have "leaves c2 ((t @ CRLF) @ s)" using c2(3) 2 by simp
      from rd_exact_leaves [OF this, of "[]" "nat m + 2"] t obtain c3 where "rd_exact (nat m + 2) [] c2 = (Some (t @ CRLF), c3)" "leaves c3 s" by auto
      then show ?thesis using c1(1) c2(1,2) 2 n t by simp
    next
      case 3
      then have es: "m = int (length es)" "t = []" "\<forall>e \<in> set es. resp_ok e" using Resp.prems(1) by simp_all
      have "leaves c2 (concat (map print_resp es) @ s)" using c2(3) 3 by simp
      moreover have "2 * length (concat (map print_resp es)) + 1 < j" using Resp.prems(3) n 3 by simp
      ultimately obtain c3 where "read_arr j (length es) [] c2 = Some (Inr es, c3)" "leaves c3 s"
        using read_arr_leaves [of es c2 s j "[]"] Resp.IH es(3) by auto
      then show ?thesis using c1(1) c2(1,2) 3 n es by simp
    qed
  qed
qed

lemma read_all_leaves:
  "list_all resp_ok rs \<Longrightarrow> leaves c (concat (map print_resp rs) @ s) \<Longrightarrow>
    \<exists>c'. read_all (length rs) acc c = (Inr (acc @ rs), c') \<and> leaves c' s"
proof (induction rs arbitrary: acc c)
  case Nil
  then show ?case by simp
next
  case (Cons r rs)
  have "leaves c (print_resp r @ concat (map print_resp rs) @ s)" using Cons.prems(2) by simp
  moreover have "2 * length (print_resp r) < 2 * length (rest_of c) + 1" using Cons.prems(2) by (simp add: leaves_def)
  ultimately obtain c' where c': "read_one c = (Inr r, c')" "leaves c' (concat (map print_resp rs) @ s)"
    using read_resp_leaves Cons.prems(1) by (fastforce simp: read_one_def)
  from Cons.IH [OF _ c'(2), of "acc @ [r]"] Cons.prems(1) c'(1) show ?case by auto
qed
section \<open>Pipelines run their commands\<close>

definition bulk :: "string \<Rightarrow> resp" where
  "bulk a = Resp (CHR ''$'') a (int (length a)) []"

text \<open>A command is itself an array of strings of the protocol.\<close>

definition cmd_resp :: "string list \<Rightarrow> resp" where
  "cmd_resp args = Resp (CHR ''*'') [] (int (length args)) (map bulk args)"

definition cmd_ok :: "string list \<Rightarrow> bool" where
  "cmd_ok args \<longleftrightarrow> int (length args) < 2 ^ 63 \<and> (\<forall>a \<in> set args. int (length a) < 2 ^ 63)"

lemma bulk_ok [simp]: "int (length a) < 2 ^ 63 \<Longrightarrow> resp_ok (bulk a)" "r_str (bulk a) = a"
  by (simp_all add: bulk_def in_i64_def)

lemma cmd_resp_ok: "cmd_ok args \<Longrightarrow> resp_ok (cmd_resp args)"
  by (simp add: cmd_ok_def cmd_resp_def in_i64_def)

lemma print_cmd_eq: "print_cmd buf args = buf @ print_resp (cmd_resp args)"
proof -
  have "fold (\<lambda>a b. warg b a) as b = b @ concat (map (print_resp \<circ> bulk) as)" for as b
    by (induction as arbitrary: b) (simp_all add: warg_def bulk_def)
  then show ?thesis by (simp add: print_cmd_def cmd_resp_def)
qed

lemma print_cmds_eq: "fold (\<lambda>args buf. print_cmd buf args) cmds [] = concat (map (print_resp \<circ> cmd_resp) cmds)"
proof -
  have "fold (\<lambda>args buf. print_cmd buf args) cmds b = b @ concat (map (print_resp \<circ> cmd_resp) cmds)" for b
    by (induction cmds arbitrary: b) (simp_all add: print_cmd_eq)
  then show ?thesis by simp
qed

text \<open>The other end of the connection: reading commands off the bytes of a pipeline.\<close>

fun read_cmds :: "nat \<Rightarrow> kv_conn \<Rightarrow> string list list" where
  "read_cmds 0 c = []"
| "read_cmds (Suc n) c =
     (if rest_of c = [] then []
      else case read_one c of (Inl e, c) \<Rightarrow> [] | (Inr r, c) \<Rightarrow> map r_str (r_arr r) # read_cmds n c)"

definition conn_of :: "string \<Rightarrow> kv_conn" where
  "conn_of s = \<lparr>rd_buf = s, rd_pos = 0, rd_in = []\<rparr>"

lemma conn_of_leaves: "leaves (conn_of s) s"
  by (simp add: conn_of_def leaves_def conn_ok_def rest_of_def)

lemma cmd_resp_strs: "map r_str (r_arr (cmd_resp args)) = args"
  by (simp add: cmd_resp_def comp_def)

lemma read_cmds_leaves:
  "list_all cmd_ok cmds \<Longrightarrow> leaves c (concat (map (print_resp \<circ> cmd_resp) cmds)) \<Longrightarrow> length cmds \<le> n \<Longrightarrow> read_cmds n c = cmds"
proof (induction cmds arbitrary: c n)
  case Nil
  then show ?case by (cases n) (simp_all add: leaves_def)
next
  case (Cons args cmds)
  obtain m where n: "n = Suc m" using Cons.prems(3) by (cases n) simp_all
  have l: "leaves c (concat (map print_resp [cmd_resp args]) @ concat (map (print_resp \<circ> cmd_resp) cmds))" using Cons.prems(2) by (simp add: comp_def)
  obtain c' where c': "read_all 1 [] c = (Inr [cmd_resp args], c')" "leaves c' (concat (map (print_resp \<circ> cmd_resp) cmds))"
    using read_all_leaves [OF _ l, of "[]"] cmd_resp_ok Cons.prems(1) by auto
  then have "read_one c = (Inr (cmd_resp args), c')" by (auto split: prod.splits sum.splits)
  moreover have "rest_of c \<noteq> []" using Cons.prems(2) print_resp_pos [of "cmd_resp args"] by (auto simp: leaves_def)
  ultimately show ?case using Cons.IH [OF _ c'(2), of m] Cons.prems n cmd_resp_strs by simp
qed

lemma length_print_cmds: "length cmds \<le> length (concat (map (print_resp \<circ> cmd_resp) cmds))"
proof (induction cmds)
  case (Cons args cmds)
  then show ?case using print_resp_pos [of "cmd_resp args"] by (simp del: length_greater_0_conv)
qed simp

text \<open>
  C18: No argument can smuggle in a command. The bytes of a pipeline determine its commands and their
  arguments, whatever bytes the arguments hold: two pipelines that print the same are the same.
\<close>

theorem commands_not_injected:
  assumes "list_all cmd_ok cmds" and "list_all cmd_ok cmds'"
    and "fold (\<lambda>args buf. print_cmd buf args) cmds [] = fold (\<lambda>args buf. print_cmd buf args) cmds' []"
  shows "cmds = cmds'"
proof -
  let ?b = "concat (map (print_resp \<circ> cmd_resp) cmds)"
  have "read_cmds (length ?b) (conn_of ?b) = cmds" by (rule read_cmds_leaves [OF assms(1) conn_of_leaves length_print_cmds])
  moreover have "read_cmds (length ?b) (conn_of ?b) = cmds'"
    using assms(3) unfolding print_cmds_eq by (metis read_cmds_leaves [OF assms(2) conn_of_leaves length_print_cmds])
  ultimately show ?thesis by simp
qed

theorem commands_not_injected_witness:
  "fold (\<lambda>args buf. print_cmd buf args) [[''SET'', ''l:a'', ''v'' @ CRLF @ ''*1'' @ CRLF @ ''$8'' @ CRLF @ ''FLUSHALL'']] [] \<noteq>
     fold (\<lambda>args buf. print_cmd buf args) [[''SET'', ''l:a'', ''v''], [''FLUSHALL'']] []"
  using commands_not_injected [of "[[''SET'', ''l:a'', ''v'' @ CRLF @ ''*1'' @ CRLF @ ''$8'' @ CRLF @ ''FLUSHALL'']]"
      "[[''SET'', ''l:a'', ''v''], [''FLUSHALL'']]"]
  by (auto simp: cmd_ok_def)

text \<open>
  What the client relies on: the server executes the commands of a pipeline in order, whoever else talks to
  it, and prints one reply for each; its answer arrives in some pieces.
\<close>

fun exec_all :: "(string list \<Rightarrow> 'd \<Rightarrow> resp \<times> 'd) \<Rightarrow> string list list \<Rightarrow> 'd \<Rightarrow> resp list \<times> 'd" where
  "exec_all exec [] d = ([], d)"
| "exec_all exec (c # cs) d = (let (r, d) = exec c d; (rs, d) = exec_all exec cs d in (r # rs, d))"

definition resp_peer :: "(string list \<Rightarrow> 'd \<Rightarrow> resp \<times> 'd) \<Rightarrow> 'd peer \<Rightarrow> bool" where
  "resp_peer exec peer \<longleftrightarrow>
     (\<forall>c d. resp_ok (fst (exec c d))) \<and>
     (\<forall>cmds d. list_all cmd_ok cmds \<longrightarrow>
        (\<exists>ts. peer (fold (\<lambda>args buf. print_cmd buf args) cmds []) d = (Some ts, snd (exec_all exec cmds d)) \<and>
           [] \<notin> set ts \<and> concat ts = concat (map print_resp (fst (exec_all exec cmds d)))))"

text \<open>A client whose connections have nothing unread.\<close>

definition kv_ready :: "'d kv \<Rightarrow> bool" where
  "kv_ready s \<longleftrightarrow> kv_conns s \<noteq> [] \<and> (\<forall>c \<in> set (kv_conns s). leaves c [])"

lemma exec_all_length: "length (fst (exec_all exec cmds d)) = length cmds"
  by (induction cmds arbitrary: d) (simp_all add: Let_def case_prod_beta)

lemma exec_all_ok: "\<forall>c d. resp_ok (fst (exec c d)) \<Longrightarrow> list_all resp_ok (fst (exec_all exec cmds d))"
proof (induction cmds arbitrary: d)
  case (Cons c cmds)
  have "resp_ok (fst (exec c d))" using Cons.prems by blast
  then show ?case using Cons.IH [OF Cons.prems] by (simp add: Let_def case_prod_beta)
qed simp

lemma pipe_exec:
  assumes "resp_peer exec peer" and "kv_ready s" and "list_all cmd_ok cmds"
  shows "\<exists>s'. pipe peer cmds s = (Inr (fst (exec_all exec cmds (kv_data s))), s') \<and>
    kv_data s' = snd (exec_all exec cmds (kv_data s)) \<and> kv_ready s'"
proof -
  let ?rs = "fst (exec_all exec cmds (kv_data s))" and ?i = "kv_next s mod length (kv_conns s)"
  obtain ts where ts: "peer (fold (\<lambda>args buf. print_cmd buf args) cmds []) (kv_data s) = (Some ts, snd (exec_all exec cmds (kv_data s)))"
    "[] \<notin> set ts" "concat ts = concat (map print_resp ?rs)" using assms(1,3) unfolding resp_peer_def by blast
  have ok: "list_all resp_ok ?rs" using assms(1) exec_all_ok [of exec cmds "kv_data s"] by (simp add: resp_peer_def)
  have i: "?i < length (kv_conns s)" using assms(2) by (simp add: kv_ready_def)
  let ?c = "(kv_conns s ! ?i)\<lparr>rd_in := rd_in (kv_conns s ! ?i) @ ts\<rparr>"
  have "leaves (kv_conns s ! ?i) []" using assms(2) i by (simp add: kv_ready_def)
  then have "leaves ?c (concat (map print_resp ?rs) @ [])" using ts(2,3) by (auto simp: leaves_def conn_ok_def rest_of_def)
  from read_all_leaves [OF ok this, of "[]"] obtain c' where c': "read_all (length cmds) [] ?c = (Inr ?rs, c')" "leaves c' []"
    by (auto simp: exec_all_length)
  have "leaves c []" if "c \<in> set ((kv_conns s)[?i := c'])" for c
    using that assms(2) c'(2) set_update_subset_insert [of "kv_conns s" ?i c'] by (auto simp: kv_ready_def)
  then have "kv_ready (s\<lparr>kv_next := (kv_next s + 1) mod 2 ^ 64, kv_conns := (kv_conns s)[?i := c'], kv_data := snd (exec_all exec cmds (kv_data s))\<rparr>)"
    using assms(2) by (auto simp: kv_ready_def)
  then show ?thesis using ts(1) c'(1) by (simp add: pipe_def Let_def)
qed

text \<open>Pipelines one after the other, with the replies of each.\<close>

fun pipes :: "'d peer \<Rightarrow> string list list list \<Rightarrow> 'd kv \<Rightarrow> (kv_error + resp list list) \<times> 'd kv" where
  "pipes peer [] s = (Inr [], s)"
| "pipes peer (cmds # rest) s = and_then (pipe peer cmds) (\<lambda>rs. and_then (pipes peer rest) (\<lambda>rss. return (rs # rss))) s"

lemma exec_all_append:
  "exec_all exec (cs @ ds) d = (let (rs, d) = exec_all exec cs d; (qs, d) = exec_all exec ds d in (rs @ qs, d))"
  by (induction cs arbitrary: d) (simp_all add: Let_def case_prod_beta)

text \<open>
  C17: Pipelines do what their commands do. With a server that executes commands in order, in whatever pieces its
  answers arrive and whichever connections are used, any pipelines sent one after the other return the
  reply of each command, and leave the server in the state after all of them and nothing unread.
\<close>

theorem pipes_run_commands:
  assumes "resp_peer exec peer" and "kv_ready s" and "list_all (list_all cmd_ok) css" and "exec_all exec (concat css) (kv_data s) = (rs, d)"
  shows "\<exists>rss s'. pipes peer css s = (Inr rss, s') \<and> concat rss = rs \<and> map length rss = map length css \<and> kv_data s' = d \<and> kv_ready s'"
  using assms(2-4)
proof (induction css arbitrary: s rs)
  case Nil
  then show ?case by simp
next
  case (Cons cmds css)
  from pipe_exec [OF assms(1) Cons.prems(1)] Cons.prems(2)
  obtain s1 where s1: "pipe peer cmds s = (Inr (fst (exec_all exec cmds (kv_data s))), s1)"
    "kv_data s1 = snd (exec_all exec cmds (kv_data s))" "kv_ready s1" by auto
  obtain qs where qs: "exec_all exec (concat css) (kv_data s1) = (qs, d)" "rs = fst (exec_all exec cmds (kv_data s)) @ qs"
    using Cons.prems(3) s1(2) by (auto simp: exec_all_append Let_def split: prod.splits)
  from Cons.IH [OF s1(3) _ qs(1)] Cons.prems(2) obtain rss s'
    where "pipes peer css s1 = (Inr rss, s')" "concat rss = qs" "map length rss = map length css" "kv_data s' = d" "kv_ready s'" by auto
  then show ?case using s1(1) qs(2) exec_all_length [of exec cmds "kv_data s"] by (simp add: and_then_def return_def)
qed

text \<open>A server that answers byte by byte.\<close>

definition byte_peer :: "(string list \<Rightarrow> 'd \<Rightarrow> resp \<times> 'd) \<Rightarrow> 'd peer" where
  "byte_peer exec buf d =
     (let (rs, d) = exec_all exec (read_cmds (length buf) (conn_of buf)) d
      in (Some (map (\<lambda>b. [b]) (concat (map print_resp rs))), d))"

lemma byte_peer_ok: "\<forall>c d. resp_ok (fst (exec c d)) \<Longrightarrow> resp_peer exec (byte_peer exec)"
  using read_cmds_leaves [OF _ conn_of_leaves length_print_cmds]
  by (auto simp: resp_peer_def byte_peer_def print_cmds_eq Let_def split: prod.split)

text \<open>A server with one key.\<close>

definition demo_exec :: "string list \<Rightarrow> string \<Rightarrow> resp \<times> string" where
  "demo_exec args d =
     (if args = [''GET'', ''k''] then (Resp (CHR ''$'') (take 9 d) (int (length (take 9 d))) [], d)
      else if length args = 3 \<and> args ! 0 = ''SET'' then (Resp (CHR ''+'') ''OK'' 0 [], args ! 2)
      else (Resp (CHR ''-'') ''ERR'' 0 [], d))"

lemma demo_exec_ok: "\<forall>c d. resp_ok (fst (demo_exec c d))"
  by (auto simp: demo_exec_def in_i64_def)

theorem pipes_run_commands_witness:
  "\<exists>rss s'. pipes (byte_peer demo_exec) [[[''SET'', ''k'', ''v'' @ CRLF], [''GET'', ''k'']], [[''PUT'']]]
       \<lparr>kv_conns = [conn_new, conn_new], kv_next = 0, kv_data = []\<rparr> = (Inr rss, s') \<and>
     concat rss = [Resp (CHR ''+'') ''OK'' 0 [], Resp (CHR ''$'') (''v'' @ CRLF) 3 [], Resp (CHR ''-'') ''ERR'' 0 []] \<and>
     map length rss = [2, 1] \<and> kv_data s' = ''v'' @ CRLF"
proof -
  have "kv_ready \<lparr>kv_conns = [conn_new, conn_new], kv_next = 0, kv_data = [] :: string\<rparr>"
    by (simp add: kv_ready_def leaves_def conn_ok_def rest_of_def conn_new_def)
  from pipes_run_commands [OF byte_peer_ok [OF demo_exec_ok] this, of "[[[''SET'', ''k'', ''v'' @ CRLF], [''GET'', ''k'']], [[''PUT'']]]"]
  show ?thesis by (fastforce simp: cmd_ok_def demo_exec_def)
qed

end
