(* ===== verification/Hot_Cache.thy ===== *)
theory Hot_Cache
  imports Metrics Store
begin

text \<open>
  What the two external engines (\<^verbatim>\<open>src/src/store_kv.cpp\<close>, \<^verbatim>\<open>src/src/store_rocks.cpp\<close>) share, line for line: the
  format of a stored link, the bounded first-in-first-out cache in front of the database, and the
  generation of codes. The lemmas show that a stored link is read back, that the cache is bounded while
  its queue is not, and, once for both engines, how stale an answer from the cache can be.
\<close>

section \<open>Definitions\<close>

definition KV_SHARDS :: nat where
  "KV_SHARDS = 256"

definition kv_shard_of :: "string \<Rightarrow> nat" where
  "kv_shard_of code = unat (fnv32 2166136261 code AND (of_nat KV_SHARDS - 1))"

definition enc :: "i64 \<Rightarrow> i64 \<Rightarrow> string \<Rightarrow> string" where
  "enc e c u = ''v1|'' @ to_string e @ ''|'' @ to_string c @ ''|'' @ u"

text \<open>The expiry, the creation time and the URL, or \<open>None\<close> where the source answers false.\<close>

definition dec :: "string \<Rightarrow> (i64 \<times> i64 \<times> string) option" where
  "dec v =
     (let sv = (if starts_with v ''v1|'' then drop 3 v else v)
      in case chr_find (CHR ''|'') sv of
           None \<Rightarrow> None
         | Some p \<Rightarrow>
             (case stoll (take p sv) of
                None \<Rightarrow> None
              | Some e \<Rightarrow>
                  (let rest = drop (p + 1) sv
                   in case chr_find (CHR ''|'') rest of
                        Some q \<Rightarrow>
                          (case stoll (take q rest) of None \<Rightarrow> None | Some c \<Rightarrow> Some (e, c, drop (q + 1) rest))
                      | None \<Rightarrow> Some (e, 0, rest))))"

record kv_entry =
  ce_u :: string
  ce_e :: i64
  ce_at :: i64

record kv_shard =
  sh_m :: "(string, kv_entry) umap"
  sh_order :: "string list"

type_synonym kv_cache = "nat \<Rightarrow> kv_shard"

definition cache0 :: kv_cache where
  "cache0 = (\<lambda>_. \<lparr>sh_m = [], sh_order = []\<rparr>)"

definition cap_per_shard :: "nat \<Rightarrow> nat" where
  "cap_per_shard cache_entries = max 16 (cache_entries div KV_SHARDS)"

definition cached :: "kv_cache \<Rightarrow> string \<Rightarrow> kv_entry option" where
  "cached cache code = um_find (sh_m (cache (kv_shard_of code))) code"

definition cache_del :: "string \<Rightarrow> kv_cache \<Rightarrow> kv_cache" where
  "cache_del code cache =
     (let i = kv_shard_of code; sh = cache i in cache(i := sh\<lparr>sh_m := um_erase code (sh_m sh)\<rparr>))"

definition cache_get :: "i64 \<Rightarrow> i64 \<Rightarrow> string \<Rightarrow> kv_cache \<Rightarrow> string option \<times> kv_cache" where
  "cache_get cache_ttl_ms now code cache =
     (case cached cache code of
        None \<Rightarrow> (None, cache)
      | Some it \<Rightarrow>
          if 0 < cache_ttl_ms \<and> cache_ttl_ms < now - ce_at it then (None, cache_del code cache)
          else if ce_e it \<noteq> 0 \<and> ce_e it \<le> now then (None, cache)
          else (Some (ce_u it), cache))"

text \<open>The loop that makes room: it erases from the front of the queue while the shard is full.\<close>

fun evict :: "nat \<Rightarrow> (string, kv_entry) umap \<Rightarrow> string list \<Rightarrow> (string, kv_entry) umap \<times> string list" where
  "evict cap m [] = (m, [])"
| "evict cap m (c # order) = (if cap \<le> length m then evict cap (um_erase c m) order else (m, c # order))"

definition cache_put :: "nat \<Rightarrow> i64 \<Rightarrow> string \<Rightarrow> string \<Rightarrow> i64 \<Rightarrow> kv_cache \<Rightarrow> kv_cache" where
  "cache_put cap now code u e cache =
     (let i = kv_shard_of code; sh = cache i; it = \<lparr>ce_u = u, ce_e = e, ce_at = now\<rparr>
      in if um_find (sh_m sh) code \<noteq> None then cache(i := sh\<lparr>sh_m := um_put code it (sh_m sh)\<rparr>)
         else let (m, order) = evict cap (sh_m sh) (sh_order sh)
              in cache(i := sh\<lparr>sh_m := um_emplace code it m, sh_order := order @ [code]\<rparr>))"

text \<open>Codes: the letter of the instance and seven draws from the alphabet; the generator is a parameter.\<close>

definition kv_gen_code :: "(nat \<Rightarrow> nat) \<Rightarrow> char \<Rightarrow> nat \<Rightarrow> string \<times> nat" where
  "kv_gen_code draws p n = (p # map (\<lambda>i. ALPHABET ! draws (n + i)) [0..<7], n + 7)"

definition kv_instance :: "int \<Rightarrow> int" where
  "kv_instance i = max 0 (min 61 i)"

definition dirty_put :: "string \<Rightarrow> (nat \<Rightarrow> (string, i64) umap) \<Rightarrow> nat \<Rightarrow> (string, i64) umap" where
  "dirty_put code pending =
     (let i = kv_shard_of code in pending(i := um_put code (add64 (um_get 0 (pending i) code) 1) (pending i)))"

section \<open>A stored link is read back\<close>

lemma dec_enc:
  assumes "in_i64 e" and "in_i64 c"
  shows "dec (enc e c u) = Some (e, c, u)"
proof -
  have b: "CHR ''|'' \<notin> set (to_string n)" for n unfolding to_string_def by (rule itoa_avoids) simp
  show ?thesis using assms chr_find_append [OF b, of e "to_string c @ ''|'' @ u"] chr_find_append [OF b, of c u]
    by (simp add: dec_def enc_def Let_def)
qed

section \<open>The cache is bounded\<close>

definition shard_ok :: "nat \<Rightarrow> kv_shard \<Rightarrow> bool" where
  "shard_ok cap sh \<longleftrightarrow> um_inv (sh_m sh) \<and> fst ` set (sh_m sh) \<subseteq> set (sh_order sh) \<and> length (sh_m sh) \<le> cap"

lemma evict_room:
  assumes "evict cap m order = (m', order')" and "um_inv m" and "fst ` set m \<subseteq> set order" and "0 < cap"
  shows "um_inv m' \<and> fst ` set m' \<subseteq> set order' \<and> length m' < cap"
  using assms
proof (induction cap m order rule: evict.induct)
  case (1 cap m)
  then show ?case by auto
next
  case (2 cap m c order)
  have "fst ` set (um_erase c m) \<subseteq> set order" using "2.prems"(3) by (auto simp: um_erase_keys)
  moreover have "um_inv (um_erase c m)" using "2.prems"(2) by (rule um_inv_erase)
  ultimately show ?case using 2 by (auto split: if_splits)
qed

lemma shard_ok_put:
  assumes "\<And>i. shard_ok cap (cache i)" and "0 < cap"
  shows "shard_ok cap (cache_put cap now code u e cache i)"
proof -
  let ?sh = "cache (kv_shard_of code)"
  obtain m order where ev: "evict cap (sh_m ?sh) (sh_order ?sh) = (m, order)" by force
  from evict_room [OF this] assms have r: "um_inv m" "fst ` set m \<subseteq> set order" "length m < cap" by (auto simp: shard_ok_def)
  have a: "um_inv (sh_m ?sh)" "fst ` set (sh_m ?sh) \<subseteq> set (sh_order ?sh)" "length (sh_m ?sh) \<le> cap"
    using assms(1) [of "kv_shard_of code"] by (auto simp: shard_ok_def)
  have k: "code \<in> set (sh_order ?sh)" if "um_find (sh_m ?sh) code \<noteq> None"
  proof -
    have "code \<in> fst ` set (sh_m ?sh)" using that by (simp add: map_of_eq_None_iff)
    then show ?thesis using a(2) by auto
  qed
  have l: "length (um_emplace code it m) \<le> cap" for it using r(3) by (simp add: um_emplace_def um_put_length)
  show ?thesis
    using assms(1) [of i] a r l k by (auto simp: cache_put_def Let_def ev shard_ok_def um_inv_put um_inv_emplace um_put_keys um_emplace_keys um_put_length)
qed

lemma shard_ok_del: "(\<And>i. shard_ok cap (cache i)) \<Longrightarrow> shard_ok cap (cache_del code cache i)"
  using um_erase_length_le [of code] by (fastforce simp: cache_del_def Let_def shard_ok_def um_inv_erase um_erase_keys intro: order_trans)

lemma shard_ok_get: "(\<And>i. shard_ok cap (cache i)) \<Longrightarrow> shard_ok cap (snd (cache_get ttl now code cache) i)"
  using shard_ok_del by (auto simp: cache_get_def split: option.split)

lemma shard_ok_cache0 [simp]: "shard_ok cap (cache0 i)"
  by (simp add: shard_ok_def cache0_def)

section \<open>Sequences of calls\<close>

text \<open>The calls the engines make, and what was last put in and not taken out.\<close>

datatype cache_op = Get i64 string | Put i64 string string i64 | Del string

fun cache_call :: "nat \<Rightarrow> i64 \<Rightarrow> cache_op \<Rightarrow> kv_cache \<Rightarrow> kv_cache" where
  "cache_call cap ttl (Get now code) cache = snd (cache_get ttl now code cache)"
| "cache_call cap ttl (Put now code u e) cache = cache_put cap now code u e cache"
| "cache_call cap ttl (Del code) cache = cache_del code cache"

fun put_last :: "cache_op \<Rightarrow> (string \<rightharpoonup> kv_entry) \<Rightarrow> string \<rightharpoonup> kv_entry" where
  "put_last (Get now code) m = m"
| "put_last (Put now code u e) m = m(code \<mapsto> \<lparr>ce_u = u, ce_e = e, ce_at = now\<rparr>)"
| "put_last (Del code) m = m(code := None)"

lemma cached_cache0 [simp]: "cached cache0 code = None"
  by (simp add: cached_def cache0_def)

lemma cached_del: "cached (cache_del code cache) = (cached cache)(code := None)"
  by (auto simp: cached_def cache_del_def Let_def fun_eq_iff um_simps)

lemma evict_find: "evict cap m order = (m', order') \<Longrightarrow> um_find m' k = Some it \<Longrightarrow> um_find m k = Some it"
proof (induction cap m order rule: evict.induct)
  case (2 cap m c order)
  then show ?case by (auto simp: um_simps split: if_splits)
qed simp

lemma cached_put:
  "cached (cache_put cap now code u e cache) x = Some it \<Longrightarrow>
    (if x = code then it = \<lparr>ce_u = u, ce_e = e, ce_at = now\<rparr> else cached cache x = Some it)"
proof -
  let ?sh = "cache (kv_shard_of code)"
  obtain m order where ev: "evict cap (sh_m ?sh) (sh_order ?sh) = (m, order)" by force
  assume "cached (cache_put cap now code u e cache) x = Some it"
  then show ?thesis using evict_find [OF ev]
    by (auto simp: cached_def cache_put_def Let_def ev um_simps split: if_splits)
qed

lemma cached_put_same: "cached (cache_put cap now code u e cache) code = Some \<lparr>ce_u = u, ce_e = e, ce_at = now\<rparr>"
proof -
  let ?sh = "cache (kv_shard_of code)"
  obtain m order where ev: "evict cap (sh_m ?sh) (sh_order ?sh) = (m, order)" by force
  have "um_find m code = None" if "um_find (sh_m ?sh) code = None"
    using evict_find [OF ev, of code] that by (cases "um_find m code") auto
  then show ?thesis by (auto simp: cached_def cache_put_def Let_def ev um_simps)
qed

lemma cached_get: "cached (snd (cache_get ttl now code cache)) x = Some it \<Longrightarrow> cached cache x = Some it"
  by (auto simp: cache_get_def cached_del split: option.splits if_splits)

text \<open>
  C22: The cache of the external engines is a bounded part of a map. After any calls, no shard holds
  more entries than its share of the configured size, and an entry found is the one last put for
  its code, with none taken out since.
\<close>

theorem cache_bounded:
  assumes "cache = fold (cache_call (cap_per_shard n) ttl) ops cache0"
  shows "length (sh_m (cache i)) \<le> cap_per_shard n \<and>
    (\<forall>code it. cached cache code = Some it \<longrightarrow> fold put_last ops Map.empty code = Some it)"
proof -
  have cap: "0 < cap_per_shard n" by (simp add: cap_per_shard_def)
  have "(\<forall>i. shard_ok (cap_per_shard n) (fold (cache_call (cap_per_shard n) ttl) ops cache0 i)) \<and>
    (\<forall>code it. cached (fold (cache_call (cap_per_shard n) ttl) ops cache0) code = Some it \<longrightarrow> fold put_last ops Map.empty code = Some it)"
  proof (induction ops rule: rev_induct)
    case (snoc op ops)
    then show ?case using cap
      by (cases op) (auto simp: shard_ok_put shard_ok_del shard_ok_get cached_del split: if_splits dest: cached_put cached_get)
  qed simp
  then show ?thesis using assms by (simp add: shard_ok_def)
qed

theorem cache_bounded_witness:
  "length (sh_m (fold (cache_call (cap_per_shard 0) 5) [Put 1 ''a'' ''u'' 0, Get 2 ''a'', Del ''b''] cache0 7)) \<le> 16 \<and>
   fold put_last [Put 1 ''a'' ''u'' 0, Get 2 ''a'', Del ''b''] Map.empty ''a'' = Some \<lparr>ce_u = ''u'', ce_e = 0, ce_at = 1\<rparr>"
  using cache_bounded [OF refl, of 0 5 "[Put 1 ''a'' ''u'' 0, Get 2 ''a'', Del ''b'']" 7] by (simp add: cap_per_shard_def)

text \<open>
  C38: The queue of the cache is not bounded. A single link that is looked up once per lifetime of a
  cache entry leaves one more element in the queue each time, while the cache never holds more than this one entry.
\<close>

theorem cache_queue_grows:
  assumes "0 < ttl" and "lookup = (\<lambda>j cache. cache_put (cap_per_shard n) (int j * (ttl + 1)) code u 0 (snd (cache_get ttl (int j * (ttl + 1)) code cache)))"
  shows "length (sh_order (fold lookup [0..<k] cache0 (kv_shard_of code))) = k \<and> (\<forall>i. length (sh_m (fold lookup [0..<k] cache0 i)) \<le> 1)"
proof -
  let ?i = "kv_shard_of code"
  let ?m = "\<lambda>k. if k = 0 then [] else [(code, \<lparr>ce_u = u, ce_e = 0, ce_at = int (k - 1) * (ttl + 1)\<rparr>)]"
  have "1 < cap_per_shard n" by (simp add: cap_per_shard_def)
  then have ev: "evict (cap_per_shard n) [] (replicate k code) = ([], replicate k code)" for k by (cases k) simp_all
  have "fold lookup [0..<k] cache0 = cache0(?i := \<lparr>sh_m = ?m k, sh_order = replicate k code\<rparr>)"
  proof (induction k)
    case 0
    then show ?case by (simp add: cache0_def fun_eq_iff)
  next
    case (Suc k)
    let ?c = "cache0(?i := \<lparr>sh_m = ?m k, sh_order = replicate k code\<rparr>)"
    have "snd (cache_get ttl (int k * (ttl + 1)) code ?c) = cache0(?i := \<lparr>sh_m = [], sh_order = replicate k code\<rparr>)"
      using assms(1) by (cases k) (simp_all add: cache_get_def cached_def cache_del_def Let_def um_erase_def algebra_simps)
    then have "lookup k ?c = cache0(?i := \<lparr>sh_m = ?m (Suc k), sh_order = replicate k code @ [code]\<rparr>)"
      using ev [of k] by (simp add: assms(2) cache_put_def Let_def um_emplace_def um_count_def um_put_def)
    moreover have "fold lookup [0..<Suc k] cache0 = lookup k (fold lookup [0..<k] cache0)" by simp
    moreover have "replicate k code @ [code] = replicate (Suc k) code" by (simp add: replicate_append_same)
    ultimately show ?case by (simp only: Suc.IH)
  qed
  then show ?thesis by (simp add: cache0_def)
qed

theorem cache_queue_grows_witness:
  "length (sh_order (fold (\<lambda>j cache. cache_put (cap_per_shard 100000) (int j * 5001) ''a'' ''u'' 0 (snd (cache_get 5000 (int j * 5001) ''a'' cache)))
     [0..<1000000] cache0 (kv_shard_of ''a''))) = 1000000"
  using cache_queue_grows [of 5000 _ 100000 "''a''" "''u''" 1000000] by simp
section \<open>How stale an answer can be\<close>

text \<open>
  A run of an engine with what its database held, and when: for every clock reading of every step, the
  links in the database before and after the step.
\<close>

inductive runs ::
  "('s \<Rightarrow> string \<Rightarrow> (string \<times> i64) option) \<Rightarrow> ((nat \<Rightarrow> i64) \<Rightarrow> 's \<Rightarrow> 's \<Rightarrow> bool) \<Rightarrow> 's \<Rightarrow> (i64 \<times> string \<times> string \<times> i64) set \<Rightarrow> 's \<Rightarrow> bool"
  for holds step s0
where
  start: "runs holds step s0 {} s0"
| go: "runs holds step s0 (H \<union> {(clk k, c, u, e) | k c u e. holds s c = Some (u, e) \<or> holds s' c = Some (u, e)}) s'"
    if "runs holds step s0 H s" and "step clk s s'"

text \<open>
  The contract of an engine with a cache: whatever a step does, an entry of the cache was there before, or it
  carries a clock reading of the step and is a link the database held before or after it.
\<close>

locale cached_engine =
  fixes cache_of :: "'s \<Rightarrow> kv_cache"
    and holds :: "'s \<Rightarrow> string \<Rightarrow> (string \<times> i64) option"
    and step :: "(nat \<Rightarrow> i64) \<Rightarrow> 's \<Rightarrow> 's \<Rightarrow> bool"
  assumes cached_from: "step clk s s' \<Longrightarrow> cached (cache_of s') c = Some it \<Longrightarrow>
      cached (cache_of s) c = Some it \<or>
      (\<exists>k. ce_at it = clk k) \<and> (holds s c = Some (ce_u it, ce_e it) \<or> holds s' c = Some (ce_u it, ce_e it))"
begin

lemma cached_was_held:
  "runs holds step s0 H s \<Longrightarrow> cache_of s0 = cache0 \<Longrightarrow> cached (cache_of s) c = Some it \<Longrightarrow> (ce_at it, c, ce_u it, ce_e it) \<in> H"
proof (induction rule: runs.induct)
  case (go H s clk s')
  from cached_from [OF go(2) go.prems(2)] show ?case using go.IH go.prems(1) by auto
qed simp

lemma answer_fresh:
  assumes "runs holds step s0 H s" and "cache_of s0 = cache0" and "0 < ttl" and "fst (cache_get ttl now c (cache_of s)) = Some u"
  shows "\<exists>t e. (t, c, u, e) \<in> H \<and> now - t \<le> ttl \<and> (e = 0 \<or> now < e)"
proof -
  obtain it where it: "cached (cache_of s) c = Some it" "now - ce_at it \<le> ttl" "ce_e it = 0 \<or> now < ce_e it" "u = ce_u it"
    using assms(3,4) by (auto simp: cache_get_def split: option.splits if_splits)
  with cached_was_held [OF assms(1,2) it(1)] show ?thesis by blast
qed

end

end
