(* ===== verification/Kv_Store.thy ===== *)
theory Kv_Store
  imports Kv Hot_Cache
begin

text \<open>
  The engine over an external key-value server (\<^verbatim>\<open>src/src/store_kv.cpp\<close>): links live in the server, in string
  keys or in the fields of hashes, and this process keeps a cache and the hits not yet sent. The server is the
  parameter \<open>peer\<close> of \<^verbatim>\<open>Kv.thy\<close>, the random numbers are \<open>draws\<close>, and every clock reading is an
  argument. An exception of the client is \<open>Inl\<close>; a loop that may not end is in the option type.
\<close>

section \<open>Definitions\<close>

record 'd kv_store =
  ks_kv :: "'d kv"
  ks_cache :: kv_cache
  ks_cap :: nat
  ks_ttl :: i64
  ks_dirty :: "nat \<Rightarrow> (string, i64) umap"
  ks_inst :: int
  ks_prefix :: char
  ks_hash :: bool
  ks_buckets :: "32 word"
  ks_rng :: nat
  ks_stop :: bool
  ks_sweep_ms :: "64 word option"
  ks_waited :: "64 word"
  ks_mets :: metrics

text \<open>\<^verbatim>\<open>std::stoull\<close> on a 64-bit value: a minus sign wraps around, no digits or too large a number throws.\<close>

definition stoull :: "string \<Rightarrow> 64 word option" where
  "stoull s =
     (let (neg, t) = read_sign (skip_space s); (v, n) = read_digits 10 0 0 t
      in if n = 0 \<or> 2 ^ 64 \<le> v then None else Some (if neg then - word_of_int v else word_of_int v))"

text \<open>The constructor; \<open>Inl\<close> is the exception that escapes it.\<close>

definition env_word :: "environ \<Rightarrow> string \<Rightarrow> 64 word \<Rightarrow> 64 word \<Rightarrow> string + 64 word" where
  "env_word env k least def =
     (case env k of None \<Rightarrow> Inr def | Some v \<Rightarrow> (case stoull v of None \<Rightarrow> Inl ''stoull'' | Some n \<Rightarrow> Inr (max least n)))"

definition KvInnerImpl ::
  "'d peer \<Rightarrow> (nat \<Rightarrow> bool) \<Rightarrow> environ \<Rightarrow> string \<Rightarrow> int \<Rightarrow> nat \<Rightarrow> i64 \<Rightarrow> metrics \<Rightarrow> 'd \<Rightarrow> string + 'd kv_store"
where
  "KvInnerImpl peer dials env addr i cache_entries cttl mets d =
     (case Kv_open peer dials addr 16 d of
        Inl e \<Rightarrow> Inl e
      | Inr k \<Rightarrow>
          (let layout_hash = (env ''KV_LAYOUT'' = Some ''hash'')
           in case env_word env ''KV_BUCKETS'' 1 1000000 of
                Inl e \<Rightarrow> Inl e
              | Inr buckets \<Rightarrow>
                  (case (if layout_hash then env_word env ''KV_SWEEP_MS'' 50 3600000 else Inr 0) of
                     Inl e \<Rightarrow> Inl e
                   | Inr sweep \<Rightarrow>
                       Inr \<lparr>ks_kv = k, ks_cache = cache0, ks_cap = cap_per_shard cache_entries, ks_ttl = cttl,
                         ks_dirty = (\<lambda>_. []), ks_inst = kv_instance i, ks_prefix = ALPHABET ! nat (kv_instance i),
                         ks_hash = layout_hash, ks_buckets = ucast buckets, ks_rng = 0, ks_stop = False,
                         ks_sweep_ms = (if layout_hash then Some sweep else None), ks_waited = 0, ks_mets = mets\<rparr>)))"

text \<open>A call of the client on behalf of the engine.\<close>

definition on_kv :: "('d kv \<Rightarrow> (kv_error + 'a) \<times> 'd kv) \<Rightarrow> 'd kv_store \<Rightarrow> (kv_error + 'a) \<times> 'd kv_store" where
  "on_kv f s = (let (r, k) = f (ks_kv s) in (r, s\<lparr>ks_kv := k\<rparr>))"

definition lkey :: "string \<Rightarrow> string" where
  "lkey c = ''l:'' @ c"

definition hkey :: "string \<Rightarrow> string" where
  "hkey c = ''h:'' @ c"

text \<open>
  The hash a code is in. The number of buckets must not be zero: a setting that is a multiple of \<open>2\<^sup>3\<^sup>2\<close> makes it zero, and the
  remainder is then undefined in the source; here it is the dividend, and nothing below rests on that case.
\<close>

definition bkey :: "32 word \<Rightarrow> string \<Rightarrow> string" where
  "bkey buckets c = ''l:'' @ to_string (int (unat (of_nat (kv_shard_of c) mod buckets)))"

definition hfield :: "string \<Rightarrow> string" where
  "hfield c = ''h:'' @ c"

definition dirty_all :: "(nat \<Rightarrow> (string, i64) umap) \<Rightarrow> (string \<times> i64) list" where
  "dirty_all pending = concat (map pending [0..<KV_SHARDS])"

definition flush_hits :: "'d peer \<Rightarrow> 'd kv_store \<Rightarrow> (kv_error + unit) \<times> 'd kv_store" where
  "flush_hits peer s =
     (let ds = dirty_all (ks_dirty s); s' = s\<lparr>ks_dirty := (\<lambda>i. if i < KV_SHARDS then [] else ks_dirty s i)\<rparr>
      in if ks_hash s then on_kv (hincrby_many peer (map (\<lambda>(code, n). (bkey (ks_buckets s) code, hfield code, n)) ds)) s'
         else on_kv (incrby_many peer (map (\<lambda>(code, n). (''h:'' @ code, n)) ds)) s')"

text \<open>Scans over all buckets, one after the other.\<close>

fun hscan_all :: "'d peer \<Rightarrow> string list \<Rightarrow> 'd kv \<Rightarrow> ((kv_error + (string \<times> (string \<times> string) list) list) \<times> 'd kv) option" where
  "hscan_all peer [] s = Some (Inr [], s)"
| "hscan_all peer (b # bs) s =
     (case hscan_each peer b ''0'' [] s of
        None \<Rightarrow> None
      | Some (Inl e, s) \<Rightarrow> Some (Inl e, s)
      | Some (Inr fs, s) \<Rightarrow>
          (case hscan_all peer bs s of
             None \<Rightarrow> None
           | Some (Inl e, s) \<Rightarrow> Some (Inl e, s)
           | Some (Inr rest, s) \<Rightarrow> Some (Inr ((b, fs) # rest), s)))"

definition is_dead :: "i64 \<Rightarrow> string \<times> string \<Rightarrow> bool" where
  "is_dead now p =
     (\<not> starts_with (fst p) ''h:'' \<and> (case dec (snd p) of None \<Rightarrow> False | Some (e, c, u) \<Rightarrow> e \<noteq> 0 \<and> e \<le> now))"

definition sweep_expired :: "'d peer \<Rightarrow> i64 \<Rightarrow> 'd kv \<Rightarrow> ((kv_error + unit) \<times> 'd kv) option" where
  "sweep_expired peer now s =
     (case scan_each peer ''l:*'' ''0'' [] s of
        None \<Rightarrow> None
      | Some (Inl e, s) \<Rightarrow> Some (Inl e, s)
      | Some (Inr bs, s) \<Rightarrow>
          (case hscan_all peer bs s of
             None \<Rightarrow> None
           | Some (Inl e, s) \<Rightarrow> Some (Inl e, s)
           | Some (Inr items, s) \<Rightarrow>
               (let dels = concat (map (\<lambda>(b, fs). map (\<lambda>p. [''HDEL'', b, fst p]) (filter (is_dead now) fs)) items)
                in if dels = [] then Some (Inr (), s)
                   else Some (and_then (pipe peer dels) (\<lambda>_. return ()) s))))"

text \<open>One turn of the two background threads; they swallow exceptions.\<close>

definition flusher_turn :: "'d peer \<Rightarrow> 'd kv_store \<Rightarrow> 'd kv_store" where
  "flusher_turn peer s = (if ks_stop s then s else snd (flush_hits peer s))"

definition janitor_turn :: "'d peer \<Rightarrow> i64 \<Rightarrow> 'd kv_store \<Rightarrow> 'd kv_store option" where
  "janitor_turn peer now s =
     (case ks_sweep_ms s of
        None \<Rightarrow> Some s
      | Some ms \<Rightarrow>
          if ks_stop s then Some s
          else if ms \<le> ks_waited s + 50 then
            map_option (\<lambda>(r, k). s\<lparr>ks_waited := 0, ks_kv := k\<rparr>) (sweep_expired peer now (ks_kv s))
          else Some (s\<lparr>ks_waited := ks_waited s + 50\<rparr>))"

definition kv_close :: "'d peer \<Rightarrow> 'd kv_store \<Rightarrow> 'd kv_store" where
  "kv_close peer s = snd (flush_hits peer (s\<lparr>ks_stop := True\<rparr>))"

definition fetch :: "'d peer \<Rightarrow> string \<Rightarrow> 'd kv_store \<Rightarrow> (kv_error + string option) \<times> 'd kv_store" where
  "fetch peer code s =
     (if ks_hash s then on_kv (kv_hget peer (bkey (ks_buckets s) code) code) s else on_kv (kv_get peer (lkey code)) s)"

definition kv_bump :: "environ \<Rightarrow> string \<Rightarrow> 'd kv_store \<Rightarrow> 'd kv_store" where
  "kv_bump env code s = (if track_hits env then s\<lparr>ks_dirty := dirty_put code (ks_dirty s)\<rparr> else s)"

definition kv_healthy :: "'d peer \<Rightarrow> 'd kv_store \<Rightarrow> bool \<times> 'd kv_store" where
  "kv_healthy peer s =
     (case on_kv (cmd peer [''PING'']) s of
        (Inl e, s) \<Rightarrow> (False, s)
      | (Inr r, s) \<Rightarrow> (r_kind r = CHR ''+'' \<and> r_str r = ''PONG'', s))"

definition kv_resolve ::
  "'d peer \<Rightarrow> environ \<Rightarrow> (nat \<Rightarrow> i64) \<Rightarrow> i64 \<Rightarrow> string \<Rightarrow> 'd kv_store \<Rightarrow> (kv_error + string option) \<times> 'd kv_store"
where
  "kv_resolve peer env clk us code s =
     (case cache_get (ks_ttl s) (clk 0) code (ks_cache s) of
        (Some u, cache) \<Rightarrow> (Inr (Some u), kv_bump env code (s\<lparr>ks_cache := cache, ks_mets := cache_hit (ks_mets s)\<rparr>))
      | (None, cache) \<Rightarrow>
          (case fetch peer code (s\<lparr>ks_cache := cache, ks_mets := cache_miss (ks_mets s)\<rparr>) of
             (Inl e, s) \<Rightarrow> (Inl e, s)
           | (Inr v, s) \<Rightarrow>
               (let s = s\<lparr>ks_mets := store_read us (ks_mets s)\<rparr>
                in case v of
                     None \<Rightarrow> (Inr None, s)
                   | Some v \<Rightarrow>
                       (case dec v of
                          None \<Rightarrow> (Inr None, s)
                        | Some (e, c, u) \<Rightarrow>
                            if e \<noteq> 0 \<and> e \<le> clk 1 then (Inr None, s)
                            else (Inr (Some u), kv_bump env code (s\<lparr>ks_cache := cache_put (ks_cap s) (clk 2) code u e (ks_cache s)\<rparr>))))))"

text \<open>Storing a link under a code that must be free.\<close>

definition put_new :: "'d peer \<Rightarrow> string \<Rightarrow> string \<Rightarrow> i64 \<Rightarrow> 'd kv_store \<Rightarrow> (kv_error + bool) \<times> 'd kv_store" where
  "put_new peer code v ttl_ms s =
     (if ks_hash s then on_kv (hsetnx peer (bkey (ks_buckets s) code) code v) s
      else on_kv (kv_set peer (lkey code) v ttl_ms True) s)"

partial_function (option) new_code ::
  "'d peer \<Rightarrow> (nat \<Rightarrow> nat) \<Rightarrow> string \<Rightarrow> i64 \<Rightarrow> 'd kv_store \<Rightarrow> (string option \<times> 'd kv_store) option"
where
  "new_code peer draws v ttl_ms s =
     (let (c, n) = kv_gen_code draws (ks_prefix s) (ks_rng s)
      in case put_new peer c v ttl_ms (s\<lparr>ks_rng := n\<rparr>) of
           (Inl e, s) \<Rightarrow> Some (None, s)
         | (Inr ok, s) \<Rightarrow> if ok then Some (Some c, s) else new_code peer draws v ttl_ms s)"

definition kv_shorten ::
  "'d peer \<Rightarrow> (nat \<Rightarrow> nat) \<Rightarrow> i64 \<Rightarrow> string \<Rightarrow> string option \<Rightarrow> i64 \<Rightarrow> 'd kv_store \<Rightarrow> ((kv_error + string option) \<times> 'd kv_store) option"
where
  "kv_shorten peer draws now url alias ttl_ms s =
     (let s = s\<lparr>ks_mets := store_write (ks_mets s)\<rparr>; ex = expiry now ttl_ms
      in case alias of
           Some al \<Rightarrow>
             Some (and_then (put_new peer al (enc ex now url) ttl_ms) (\<lambda>ok. return (if ok then Some al else None)) s)
         | None \<Rightarrow> map_option (\<lambda>(c, s). (Inr c, s)) (new_code peer draws (enc ex now url) ttl_ms s))"

text \<open>Many links in one round trip; those the server refused are stored one by one, each at its own time.\<close>

fun gen_codes :: "(nat \<Rightarrow> nat) \<Rightarrow> char \<Rightarrow> nat \<Rightarrow> nat \<Rightarrow> string list \<times> nat" where
  "gen_codes draws p 0 n = ([], n)"
| "gen_codes draws p (Suc k) n = (let (c, n) = kv_gen_code draws p n; (cs, n) = gen_codes draws p k n in (c # cs, n))"

definition bulk_cmd :: "bool \<Rightarrow> 32 word \<Rightarrow> i64 \<Rightarrow> string \<Rightarrow> string \<Rightarrow> string list" where
  "bulk_cmd layout_hash buckets ttl_ms c v =
     (if layout_hash then [''HSETNX'', bkey buckets c, c, v] else set_args (lkey c) v ttl_ms True)"

definition bulk_stored :: "bool \<Rightarrow> resp list \<Rightarrow> nat \<Rightarrow> bool" where
  "bulk_stored layout_hash rs i =
     (i < length rs \<and>
       (if layout_hash then r_kind (rs ! i) = CHR '':'' \<and> r_num (rs ! i) = 1
        else r_kind (rs ! i) = CHR ''+'' \<and> r_str (rs ! i) = ''OK''))"

fun bulk_rest ::
  "'d peer \<Rightarrow> (nat \<Rightarrow> nat) \<Rightarrow> (nat \<Rightarrow> i64) \<Rightarrow> i64 \<Rightarrow> resp list \<Rightarrow> nat \<Rightarrow> string list \<Rightarrow> string list \<Rightarrow> 'd kv_store \<Rightarrow>
    (string list \<times> 'd kv_store) option"
where
  "bulk_rest peer draws clk ttl_ms rs i (u # us) (c # cs) s =
     (if bulk_stored (ks_hash s) rs i then map_option (\<lambda>(cs, s). (c # cs, s)) (bulk_rest peer draws clk ttl_ms rs (Suc i) us cs s)
      else
        (case kv_shorten peer draws (clk (Suc i)) u None ttl_ms s of
           None \<Rightarrow> None
         | Some (r, s) \<Rightarrow>
             (let c = (case r of Inr (Some c2) \<Rightarrow> c2 | _ \<Rightarrow> c)
              in map_option (\<lambda>(cs, s). (c # cs, s)) (bulk_rest peer draws clk ttl_ms rs (Suc i) us cs s))))"
| "bulk_rest peer draws clk ttl_ms rs i us cs s = Some (cs, s)"

definition kv_shorten_many ::
  "'d peer \<Rightarrow> (nat \<Rightarrow> nat) \<Rightarrow> (nat \<Rightarrow> i64) \<Rightarrow> string list \<Rightarrow> i64 \<Rightarrow> 'd kv_store \<Rightarrow> (string list \<times> 'd kv_store) option"
where
  "kv_shorten_many peer draws clk urls ttl_ms s =
     (let now = clk 0; ex = expiry now ttl_ms;
          (codes, n) = gen_codes draws (ks_prefix s) (length urls) (ks_rng s);
          s = s\<lparr>ks_rng := n\<rparr>;
          cmds = map (\<lambda>(c, u). bulk_cmd (ks_hash s) (ks_buckets s) ttl_ms c (enc ex now u)) (zip codes urls);
          (r, s) = on_kv (pipe peer cmds) s
      in bulk_rest peer draws clk ttl_ms (case r of Inl e \<Rightarrow> [] | Inr rs \<Rightarrow> rs) 0 urls codes s)"

definition kv_update ::
  "'d peer \<Rightarrow> (nat \<Rightarrow> i64) \<Rightarrow> string \<Rightarrow> string \<Rightarrow> i64 \<Rightarrow> bool \<Rightarrow> 'd kv_store \<Rightarrow> (kv_error + mut_result) \<times> 'd kv_store"
where
  "kv_update peer clk code url ttl_ms has_ttl =
     and_then (fetch peer code) (\<lambda>v s.
       case v of
         None \<Rightarrow> (Inr Missing, s)
       | Some v \<Rightarrow>
           (case dec v of
              None \<Rightarrow> (Inr Missing, s)
            | Some (e, c, us) \<Rightarrow>
                (let ex = (if has_ttl then expiry (clk 0) ttl_ms else e)
                 in and_then
                      (if ks_hash s then on_kv (hset peer (bkey (ks_buckets s) code) code (enc ex c url))
                       else on_kv (kv_set peer (lkey code) (enc ex c url) (if 0 < ex then ex - clk 1 else 0) False))
                      (\<lambda>ok s. if \<not> ok then (Inr Missing, s) else (Inr Ok, s\<lparr>ks_cache := cache_del code (ks_cache s)\<rparr>)) s)))"

definition kv_remove :: "'d peer \<Rightarrow> string \<Rightarrow> 'd kv_store \<Rightarrow> (kv_error + mut_result) \<times> 'd kv_store" where
  "kv_remove peer code s =
     (let del = (if ks_hash s then \<lambda>f. hdel peer (bkey (ks_buckets s) code) f else kv_del peer)
      in and_then (on_kv (del (if ks_hash s then code else lkey code))) (\<lambda>n s.
           if n \<le> 0 then (Inr Missing, s)
           else and_then (on_kv (del (if ks_hash s then hfield code else hkey code)))
                  (\<lambda>_ s. (Inr Ok, s\<lparr>ks_cache := cache_del code (ks_cache s)\<rparr>)) s) s)"

text \<open>Listing. In hashes a field is a link or the hits of one; in keys the links and hits are fetched together.\<close>

definition kv_link :: "string \<Rightarrow> i64 \<Rightarrow> i64 \<times> i64 \<times> string \<Rightarrow> link" where
  "kv_link code h v = (case v of (e, c, u) \<Rightarrow> \<lparr>l_code = code, l_url = u, l_hits = h, l_created_at = c, l_expires_at = e\<rparr>)"

definition kv_matches :: "i64 \<Rightarrow> string \<Rightarrow> string \<Rightarrow> i64 \<times> i64 \<times> string \<Rightarrow> bool" where
  "kv_matches now q code v =
     (case v of (e, c, u) \<Rightarrow> \<not> (e \<noteq> 0 \<and> e \<le> now) \<and> (q = [] \<or> contains code q \<or> contains u q))"

definition hash_hits :: "(string \<times> string) list \<Rightarrow> (string, i64) umap" where
  "hash_hits fs =
     fold (\<lambda>(f, v) m. if starts_with f ''h:'' then (case stoll v of Some n \<Rightarrow> um_put (drop 2 f) n m | None \<Rightarrow> m) else m) fs []"

definition hash_items :: "i64 \<Rightarrow> string \<Rightarrow> (string \<times> string) list \<Rightarrow> link list" where
  "hash_items now q fs =
     concat (map (\<lambda>(f, v).
       if starts_with f ''h:'' then []
       else case dec v of None \<Rightarrow> [] | Some x \<Rightarrow> if kv_matches now q f x then [kv_link f (um_get 0 (hash_hits fs) f) x] else []) fs)"

definition key_items :: "i64 \<Rightarrow> string \<Rightarrow> string list \<Rightarrow> resp list \<Rightarrow> link list" where
  "key_items now q keys rs =
     concat (map (\<lambda>i.
       let code = drop 2 (keys ! i)
       in if length rs \<le> 2 * i \<or> resp_null (rs ! (2 * i)) then []
          else case dec (r_str (rs ! (2 * i))) of
                 None \<Rightarrow> []
               | Some x \<Rightarrow>
                   if \<not> kv_matches now q code x then []
                   else [kv_link code
                     (if 2 * i + 1 < length rs \<and> \<not> resp_null (rs ! (2 * i + 1))
                      then (case stoll (r_str (rs ! (2 * i + 1))) of Some n \<Rightarrow> n | None \<Rightarrow> 0) else 0) x]) [0..<length keys])"

definition kv_page :: "((link \<Rightarrow> link \<Rightarrow> bool) \<Rightarrow> link list \<Rightarrow> link list) \<Rightarrow> nat \<Rightarrow> nat \<Rightarrow> string \<Rightarrow> link list \<Rightarrow> link list \<times> nat" where
  "kv_page srt limit offset ord items =
     (let items = (if ord = ''hits'' then srt (\<lambda>a b. l_hits b < l_hits a) items else items);
          total = length items; offset = (if total < offset then total else offset);
          en = min total ((offset + limit) mod 2 ^ 64)
      in (take (en - offset) (drop offset items), total))"

definition kv_list ::
  "'d peer \<Rightarrow> ((link \<Rightarrow> link \<Rightarrow> bool) \<Rightarrow> link list \<Rightarrow> link list) \<Rightarrow> i64 \<Rightarrow> nat \<Rightarrow> nat \<Rightarrow> string \<Rightarrow> string \<Rightarrow> 'd kv_store \<Rightarrow>
    ((kv_error + link list \<times> nat) \<times> 'd kv) option"
where
  "kv_list peer srt now limit offset ord q s =
     (case scan_each peer ''l:*'' ''0'' [] (ks_kv s) of
        None \<Rightarrow> None
      | Some (Inl e, k) \<Rightarrow> Some (Inl e, k)
      | Some (Inr keys, k) \<Rightarrow>
          if ks_hash s then
            (case hscan_all peer keys k of
               None \<Rightarrow> None
             | Some (Inl e, k) \<Rightarrow> Some (Inl e, k)
             | Some (Inr items, k) \<Rightarrow> Some (Inr (kv_page srt limit offset ord (hash_items now q (concat (map snd items)))), k))
          else
            (let (r, k) = pipe peer (concat (map (\<lambda>key. [[''GET'', key], [''GET'', hkey (drop 2 key)]]) keys)) k
             in Some (Inr (kv_page srt limit offset ord (key_items now q keys (case r of Inl e \<Rightarrow> [] | Inr rs \<Rightarrow> rs))), k)))"

definition kv_stats :: "'d peer \<Rightarrow> string \<Rightarrow> 'd kv_store \<Rightarrow> (kv_error + link option) \<times> 'd kv_store" where
  "kv_stats peer code =
     and_then (fetch peer code) (\<lambda>v s.
       and_then (if ks_hash s then on_kv (kv_hget peer (bkey (ks_buckets s) code) (hfield code)) else on_kv (kv_get peer (hkey code))) (\<lambda>hv s.
         case v of
           None \<Rightarrow> (Inr None, s)
         | Some v \<Rightarrow>
             (case dec v of
                None \<Rightarrow> (Inr None, s)
              | Some x \<Rightarrow>
                  (let h = (case hv of None \<Rightarrow> 0 | Some hv \<Rightarrow> (case stoll hv of None \<Rightarrow> 0 | Some n \<Rightarrow> n))
                   in (Inr (Some (kv_link code (add64 h (um_get 0 (ks_dirty s (kv_shard_of code)) code)) x)), s)))) s)"

definition kv_seed ::
  "'d peer \<Rightarrow> (nat \<Rightarrow> nat) \<Rightarrow> (nat \<Rightarrow> i64) \<Rightarrow> string list \<Rightarrow> 'd kv_store \<Rightarrow> ((kv_error + nat) \<times> 'd kv_store) option"
where
  "kv_seed peer draws clk urls s =
     (case kv_shorten_many peer draws clk urls 0 s of
        None \<Rightarrow> None
      | Some (_, s) \<Rightarrow> Some (and_then (flush_hits peer) (\<lambda>_. return (length urls)) s))"

definition kv_empty :: "'d peer \<Rightarrow> 'd kv_store \<Rightarrow> ((kv_error + bool) \<times> 'd kv) option" where
  "kv_empty peer s = map_option (\<lambda>(r, k). (map_sum id (\<lambda>ks. ks = []) r, k)) (scan_each peer ''l:*'' ''0'' [] (ks_kv s))"

definition kv_flush :: "'d peer \<Rightarrow> 'd kv_store \<Rightarrow> (kv_error + unit) \<times> 'd kv_store" where
  "kv_flush peer s = flush_hits peer s"

section \<open>How stale an answer can be\<close>

text \<open>What a lookup would fetch from the server at this moment.\<close>

definition kv_holds :: "'d peer \<Rightarrow> 'd kv_store \<Rightarrow> string \<Rightarrow> (string \<times> i64) option" where
  "kv_holds peer s code =
     (case fst (fetch peer code s) of
        Inr (Some v) \<Rightarrow> (case dec v of Some (e, c, u) \<Rightarrow> Some (u, e) | None \<Rightarrow> None)
      | _ \<Rightarrow> None)"

text \<open>
  The steps of a node: its operations, the turns of its threads, and whatever happens to the server and the
  connections meanwhile, such as the writes of other nodes, keys that expire, and the calls that only read.
\<close>

inductive kv_step :: "'d peer \<Rightarrow> environ \<Rightarrow> (nat \<Rightarrow> nat) \<Rightarrow> (nat \<Rightarrow> i64) \<Rightarrow> 'd kv_store \<Rightarrow> 'd kv_store \<Rightarrow> bool"
  for peer env draws clk s
where
  look: "kv_step peer env draws clk s (snd (kv_resolve peer env clk us code s))"
| make: "kv_step peer env draws clk s s'" if "kv_shorten peer draws (clk 0) url al ttl s = Some (r, s')"
| many: "kv_step peer env draws clk s s'" if "kv_shorten_many peer draws clk urls ttl s = Some (codes, s')"
| upd: "kv_step peer env draws clk s (snd (kv_update peer clk code url ttl has s))"
| del: "kv_step peer env draws clk s (snd (kv_remove peer code s))"
| flush: "kv_step peer env draws clk s (flusher_turn peer s)"
| sweep: "kv_step peer env draws clk s s'" if "janitor_turn peer (clk 0) s = Some s'"
| outside: "kv_step peer env draws clk s (s\<lparr>ks_kv := k\<rparr>)"

lemma on_kv_frame [simp]:
  "ks_cache (snd (on_kv f s)) = ks_cache s" "ks_hash (snd (on_kv f s)) = ks_hash s" "ks_buckets (snd (on_kv f s)) = ks_buckets s"
  "ks_cap (snd (on_kv f s)) = ks_cap s"
  by (simp_all add: on_kv_def Let_def case_prod_beta)

lemma on_kv_frameD: "on_kv f s = (r, s') \<Longrightarrow> ks_cache s' = ks_cache s"
  using on_kv_frame(1) [of f s] by simp

lemma fetch_frame: "fetch peer code s = (r, s') \<Longrightarrow> ks_cache s' = ks_cache s"
  using on_kv_frameD by (auto simp: fetch_def split: if_splits)

lemma put_new_frame: "put_new peer c v ttl s = (r, s') \<Longrightarrow> ks_cache s' = ks_cache s"
  using on_kv_frameD by (auto simp: put_new_def split: if_splits)

text \<open>The loop that looks for a free code keeps what each refused attempt keeps, and ends with an attempt that is not refused.\<close>

lemma new_code_rule:
  assumes "new_code peer draws v ttl s = Some (r, s')" and "I s"
    and "\<And>s c n s1. I s \<Longrightarrow> kv_gen_code draws (ks_prefix s) (ks_rng s) = (c, n) \<Longrightarrow> put_new peer c v ttl (s\<lparr>ks_rng := n\<rparr>) = (Inr False, s1) \<Longrightarrow> I s1"
  shows "\<exists>s0 c n x. I s0 \<and> kv_gen_code draws (ks_prefix s0) (ks_rng s0) = (c, n) \<and> put_new peer c v ttl (s0\<lparr>ks_rng := n\<rparr>) = (x, s') \<and>
    (x = Inr True \<and> r = Some c \<or> (\<exists>e. x = Inl e) \<and> r = None)"
proof -
  let ?Q = "\<lambda>peer draws v ttl s y. I s \<longrightarrow>
    (\<forall>s c n s1. I s \<longrightarrow> kv_gen_code draws (ks_prefix s) (ks_rng s) = (c, n) \<longrightarrow> put_new peer c v ttl (s\<lparr>ks_rng := n\<rparr>) = (Inr False, s1) \<longrightarrow> I s1) \<longrightarrow>
    (\<exists>s0 c n x. I s0 \<and> kv_gen_code draws (ks_prefix s0) (ks_rng s0) = (c, n) \<and> put_new peer c v ttl (s0\<lparr>ks_rng := n\<rparr>) = (x, snd y) \<and>
      (x = Inr True \<and> fst y = Some c \<or> (\<exists>e. x = Inl e) \<and> fst y = None))"
  have "?Q peer draws v ttl s (r, s')"
  proof (rule new_code.raw_induct [where P = ?Q, OF _ assms(1)])
    fix f peer draws v ttl s y
    assume IH: "\<And>peer draws v ttl s y. f peer draws v ttl s = Some y \<Longrightarrow> ?Q peer draws v ttl s y"
      and eq: "(let (c, n) = kv_gen_code draws (ks_prefix s) (ks_rng s)
        in case put_new peer c v ttl (s\<lparr>ks_rng := n\<rparr>) of (Inl e, s) \<Rightarrow> Some (None, s)
           | (Inr ok, s) \<Rightarrow> if ok then Some (Some c, s) else f peer draws v ttl s) = Some y"
    obtain c n where g: "kv_gen_code draws (ks_prefix s) (ks_rng s) = (c, n)" by force
    obtain x s1 where p: "put_new peer c v ttl (s\<lparr>ks_rng := n\<rparr>) = (x, s1)" by force
    show "?Q peer draws v ttl s y"
    proof (cases "x = Inr False")
      case True
      then show ?thesis using IH [of peer draws v ttl s1 y] eq g p by simp
    next
      case False
      then show ?thesis using eq g p by (cases x) auto
    qed
  qed
  then show ?thesis using assms(2,3) by auto
qed

lemma new_code_frame:
  assumes "new_code peer draws v ttl s = Some (r, s')"
  shows "ks_cache s' = ks_cache s"
proof -
  have "ks_cache s1 = ks_cache s" if "ks_cache s0 = ks_cache s" "put_new peer c v ttl (s0\<lparr>ks_rng := n\<rparr>) = (x, s1)" for s0 c n x s1
    using put_new_frame [OF that(2)] that(1) by simp
  with new_code_rule [OF assms, where I = "\<lambda>t. ks_cache t = ks_cache s"] show ?thesis by blast
qed

lemma kv_shorten_frame: "kv_shorten peer draws now url al ttl s = Some (r, s') \<Longrightarrow> ks_cache s' = ks_cache s"
  by (auto simp: kv_shorten_def Let_def and_then_def return_def split: option.splits prod.splits sum.splits dest!: put_new_frame new_code_frame)

lemma bulk_rest_frame: "bulk_rest peer draws clk ttl rs i us cs s = Some (codes, s') \<Longrightarrow> ks_cache s' = ks_cache s"
proof (induction us arbitrary: i cs s codes)
  case (Cons u us)
  show ?case
  proof (cases cs)
    case c: (Cons c cs')
    show ?thesis
    proof (cases "bulk_stored (ks_hash s) rs i")
      case True
      then show ?thesis using Cons.prems Cons.IH by (auto simp: c)
    next
      case False
      then obtain r s1 cs1 where "kv_shorten peer draws (clk (Suc i)) u None ttl s = Some (r, s1)"
        "bulk_rest peer draws clk ttl rs (Suc i) us cs' s1 = Some (cs1, s')"
        using Cons.prems by (auto simp: c Let_def split: option.splits)
      with Cons.IH kv_shorten_frame show ?thesis by metis
    qed
  qed (use Cons.prems in simp)
qed simp

lemma kv_shorten_many_frame: "kv_shorten_many peer draws clk urls ttl s = Some (codes, s') \<Longrightarrow> ks_cache s' = ks_cache s"
  by (auto simp: kv_shorten_many_def Let_def split: prod.splits dest!: bulk_rest_frame on_kv_frameD)

lemma on_kv_if: "(if b then on_kv f else on_kv g) = on_kv (if b then f else g)"
  by simp

lemma kv_update_cached: "cached (ks_cache (snd (kv_update peer clk code url ttl has s))) x = Some it \<Longrightarrow> cached (ks_cache s) x = Some it"
proof -
  obtain r s1 where f: "fetch peer code s = (r, s1)" by force
  have c: "ks_cache s1 = ks_cache s" using fetch_frame [OF f] .
  assume "cached (ks_cache (snd (kv_update peer clk code url ttl has s))) x = Some it"
  then show ?thesis using f c
    by (auto simp: kv_update_def and_then_def Let_def cached_del on_kv_if split: sum.splits option.splits prod.splits if_splits dest!: on_kv_frameD)
qed

lemma kv_remove_cached: "cached (ks_cache (snd (kv_remove peer code s))) x = Some it \<Longrightarrow> cached (ks_cache s) x = Some it"
  by (auto simp: kv_remove_def and_then_def Let_def cached_del split: sum.splits prod.splits if_splits dest!: on_kv_frameD)

lemma flusher_frame: "ks_cache (flusher_turn peer s) = ks_cache s"
  by (simp add: flusher_turn_def flush_hits_def Let_def)

lemma janitor_frame: "janitor_turn peer now s = Some s' \<Longrightarrow> ks_cache s' = ks_cache s"
  by (auto simp: janitor_turn_def split: option.splits if_splits)

lemma kv_bump_frame [simp]: "ks_cache (kv_bump env code s) = ks_cache s"
  by (simp add: kv_bump_def)

lemma fetch_only_server: "fst (fetch peer code (s\<lparr>ks_cache := c, ks_mets := m\<rparr>)) = fst (fetch peer code s)"
  by (simp add: fetch_def on_kv_def Let_def case_prod_beta)

lemma kv_holds_fetch:
  assumes "fetch peer code (s\<lparr>ks_cache := c, ks_mets := m\<rparr>) = (Inr (Some v), s1)" and "dec v = Some (e, k, u)"
  shows "kv_holds peer s code = Some (u, e)"
proof -
  have "fst (fetch peer code s) = Inr (Some v)" using assms(1) fetch_only_server [where s = s and m = m and c = c, of peer code] by simp
  then show ?thesis using assms(2) by (simp add: kv_holds_def)
qed

lemma kv_resolve_cached:
  assumes "cached (ks_cache (snd (kv_resolve peer env clk us code s))) x = Some it"
  shows "cached (ks_cache s) x = Some it \<or> ce_at it = clk 2 \<and> kv_holds peer s x = Some (ce_u it, ce_e it)"
proof -
  obtain a cache where g: "cache_get (ks_ttl s) (clk 0) code (ks_cache s) = (a, cache)" by force
  have cg: "cached cache y = Some j \<Longrightarrow> cached (ks_cache s) y = Some j" for y j using cached_get [of "ks_ttl s" "clk 0" code "ks_cache s" y j] g by simp
  let ?s = "s\<lparr>ks_cache := cache, ks_mets := cache_miss (ks_mets s)\<rparr>"
  obtain r s1 where f: "fetch peer code ?s = (r, s1)" by force
  have c: "ks_cache s1 = cache" using fetch_frame [OF f] by simp
  show ?thesis
  proof (cases "\<exists>v e k u. a = None \<and> r = Inr (Some v) \<and> dec v = Some (e, k, u) \<and> \<not> (e \<noteq> 0 \<and> e \<le> clk 1)")
    case True
    then obtain v e k u where v: "a = None" "r = Inr (Some v)" "dec v = Some (e, k, u)" "\<not> (e \<noteq> 0 \<and> e \<le> clk 1)" by blast
    then have "ks_cache (snd (kv_resolve peer env clk us code s)) = cache_put (ks_cap s1) (clk 2) code u e cache"
      using g f c by (auto simp: kv_resolve_def Let_def)
    moreover have "kv_holds peer s code = Some (u, e)" using kv_holds_fetch [where s = s] f v by blast
    ultimately show ?thesis using assms cg cached_put [of "ks_cap s1" "clk 2" code u e cache x it] by (auto split: if_splits)
  next
    case False
    then have "ks_cache (snd (kv_resolve peer env clk us code s)) = cache"
      using g f c by (auto simp: kv_resolve_def Let_def split: option.splits sum.splits)
    then show ?thesis using assms cg by simp
  qed
qed

interpretation kv_engine: cached_engine ks_cache "kv_holds peer" "kv_step peer env draws" for peer env draws
proof
  fix clk s s' c it
  assume st: "kv_step peer env draws clk s s'" and it: "cached (ks_cache s') c = Some it"
  show "cached (ks_cache s) c = Some it \<or>
      (\<exists>k. ce_at it = clk k) \<and> (kv_holds peer s c = Some (ce_u it, ce_e it) \<or> kv_holds peer s' c = Some (ce_u it, ce_e it))"
    using st
  proof cases
    case (look us code)
    with it kv_resolve_cached [of peer env clk us code s c it] show ?thesis by auto
  qed (use it in \<open>auto simp: flusher_frame dest: kv_shorten_frame kv_shorten_many_frame kv_update_cached kv_remove_cached janitor_frame\<close>)
qed

text \<open>
  C14: An answer of the external engine is fresh up to the lifetime of its cache. However a node got where it is, with
  its own requests and threads, the writes of other nodes and keys that expire, an address it answers is the
  one the server holds for the code now, or one the server held for it at a clock reading at most \<^verbatim>\<open>CACHE_TTL_MS\<close> ago, and
  its expiry as it was then has not come.
\<close>

theorem kv_answers_fresh:
  assumes "runs (kv_holds peer) (kv_step peer env draws) s0 H s" and "ks_cache s0 = cache0" and "0 < ks_ttl s"
    and "kv_resolve peer env clk us code s = (Inr (Some u), s')"
  shows "(\<exists>e. kv_holds peer s code = Some (u, e) \<and> (e = 0 \<or> clk 1 < e)) \<or>
    (\<exists>t e. (t, code, u, e) \<in> H \<and> clk 0 - t \<le> ks_ttl s \<and> (e = 0 \<or> clk 0 < e))"
proof (cases "fst (cache_get (ks_ttl s) (clk 0) code (ks_cache s))")
  case (Some w)
  then have "w = u" using assms(4) by (auto simp: kv_resolve_def split: prod.splits option.splits)
  with kv_engine.answer_fresh [OF assms(1-3), of "clk 0" code] Some show ?thesis by blast
next
  case None
  obtain cache where g: "cache_get (ks_ttl s) (clk 0) code (ks_cache s) = (None, cache)" using None by (cases "cache_get (ks_ttl s) (clk 0) code (ks_cache s)") simp
  obtain r s1 where f: "fetch peer code (s\<lparr>ks_cache := cache, ks_mets := cache_miss (ks_mets s)\<rparr>) = (r, s1)" by force
  obtain v e k where "r = Inr (Some v)" "dec v = Some (e, k, u)" "\<not> (e \<noteq> 0 \<and> e \<le> clk 1)"
    using assms(4) g f by (auto simp: kv_resolve_def Let_def split: sum.splits option.splits if_splits)
  moreover from this have "kv_holds peer s code = Some (u, e)" using kv_holds_fetch [where s = s] f by blast
  ultimately show ?thesis by auto
qed

section \<open>With a server that keeps its promises\<close>

definition nil :: resp where
  "nil = Resp (CHR ''$'') [] (-1) []"

definition okay :: resp where
  "okay = Resp (CHR ''+'') ''OK'' 0 []"

definition number :: "i64 \<Rightarrow> resp" where
  "number n = Resp (CHR '':'') [] n []"

text \<open>The number a counter holds: nothing counts as zero, a string that is no number as \<open>None\<close>.\<close>

definition count_of :: "string option \<Rightarrow> i64 option" where
  "count_of v = (case v of None \<Rightarrow> Some 0 | Some v \<Rightarrow> stoll v)"

text \<open>
  The documented behaviour of the commands on a server that holds strings, \<open>strs d k\<close> being the string at a key:
  \<^verbatim>\<open>GET\<close>, \<^verbatim>\<open>SET\<close> with \<^verbatim>\<open>NX\<close> and \<^verbatim>\<open>PX\<close>, \<^verbatim>\<open>DEL\<close> and \<^verbatim>\<open>INCRBY\<close>.
\<close>

definition redis_strings :: "(string list \<Rightarrow> 'd \<Rightarrow> resp \<times> 'd) \<Rightarrow> ('d \<Rightarrow> string \<Rightarrow> string option) \<Rightarrow> bool" where
  "redis_strings exec strs \<longleftrightarrow>
     (\<forall>k d. exec [''GET'', k] d = (case strs d k of None \<Rightarrow> nil | Some v \<Rightarrow> bulk v, d)) \<and>
     (\<forall>k v px nx d. cmd_ok (set_args k v px nx) \<longrightarrow>
        (if nx \<and> strs d k \<noteq> None then exec (set_args k v px nx) d = (nil, d)
         else fst (exec (set_args k v px nx) d) = okay \<and> strs (snd (exec (set_args k v px nx) d)) = (strs d)(k \<mapsto> v))) \<and>
     (\<forall>k d. fst (exec [''DEL'', k] d) = number (if strs d k = None then 0 else 1) \<and>
        strs (snd (exec [''DEL'', k] d)) = (strs d)(k := None)) \<and>
     (\<forall>k n m d. in_i64 n \<longrightarrow> count_of (strs d k) = Some m \<longrightarrow> in_i64 (m + n) \<longrightarrow>
        strs (snd (exec [''INCRBY'', k, to_string n] d)) = (strs d)(k \<mapsto> to_string (m + n)))"

definition short :: "string \<Rightarrow> bool" where
  "short s \<longleftrightarrow> int (length s) < 2 ^ 62"

lemma short_cmds:
  "short c \<Longrightarrow> cmd_ok [''GET'', lkey c]" "short c \<Longrightarrow> cmd_ok [''GET'', hkey c]" "short c \<Longrightarrow> cmd_ok [''DEL'', lkey c]"
  "short c \<Longrightarrow> cmd_ok [''DEL'', hkey c]" "short c \<Longrightarrow> cmd_ok [''INCRBY'', hkey c, to_string n]"
  using length_to_string [of n] by (auto simp: short_def cmd_ok_def lkey_def hkey_def)

lemma short_set:
  assumes "short c" and "short u"
  shows "cmd_ok (set_args (lkey c) (enc e a u) px nx)"
  using assms length_to_string [of e] length_to_string [of a] length_to_string [of px]
  by (auto simp: short_def cmd_ok_def lkey_def set_args_def enc_def)

lemma cmd_exec:
  assumes "resp_peer exec peer" and "kv_ready k" and "cmd_ok args"
  shows "\<exists>k'. cmd peer args k = (Inr (fst (exec args (kv_data k))), k') \<and> kv_data k' = snd (exec args (kv_data k)) \<and> kv_ready k'"
  using pipe_exec [OF assms(1,2), of "[args]"] assms(3) by (auto simp: cmd_def and_then_def return_def Let_def case_prod_beta)

lemma on_cmd:
  assumes "resp_peer exec peer" and "kv_ready (ks_kv s)" and "cmd_ok args"
  shows "\<exists>k'. on_kv (and_then (cmd peer args) (\<lambda>r. return (f r))) s = (Inr (f (fst (exec args (kv_data (ks_kv s))))), s\<lparr>ks_kv := k'\<rparr>) \<and>
    kv_data k' = snd (exec args (kv_data (ks_kv s))) \<and> kv_ready k'"
  using cmd_exec [OF assms] by (auto simp: on_kv_def and_then_def return_def)

text \<open>A node at work on keys.\<close>

definition at_work :: "(string list \<Rightarrow> 'd \<Rightarrow> resp \<times> 'd) \<Rightarrow> ('d \<Rightarrow> string \<Rightarrow> string option) \<Rightarrow> 'd peer \<Rightarrow> 'd kv_store \<Rightarrow> bool" where
  "at_work exec strs peer s \<longleftrightarrow> resp_peer exec peer \<and> redis_strings exec strs \<and> kv_ready (ks_kv s) \<and> \<not> ks_hash s"

lemma at_work_cong: "at_work exec strs peer s \<Longrightarrow> kv_ready k \<Longrightarrow> at_work exec strs peer (s\<lparr>ks_kv := k\<rparr>)"
  by (simp add: at_work_def)

lemma at_work_other:
  assumes "at_work exec strs peer s"
  shows "at_work exec strs peer (s\<lparr>ks_mets := m\<rparr>)" "at_work exec strs peer (s\<lparr>ks_cache := c\<rparr>)" "at_work exec strs peer (s\<lparr>ks_rng := n\<rparr>)"
    "at_work exec strs peer (s\<lparr>ks_dirty := f\<rparr>)"
  using assms by (simp_all add: at_work_def)

lemma get_redis:
  assumes "at_work exec strs peer s" and "cmd_ok [''GET'', k]"
  shows "\<exists>k'. on_kv (kv_get peer k) s = (Inr (strs (kv_data (ks_kv s)) k), s\<lparr>ks_kv := k'\<rparr>) \<and> kv_data k' = kv_data (ks_kv s) \<and> kv_ready k'"
proof -
  have e: "exec [''GET'', k] d = (case strs d k of None \<Rightarrow> nil | Some v \<Rightarrow> bulk v, d)" for d
    using assms(1) by (simp add: at_work_def redis_strings_def)
  let ?f = "\<lambda>r. if resp_null r then None else Some (r_str r)"
  have r: "?f (case strs d k of None \<Rightarrow> nil | Some v \<Rightarrow> bulk v) = strs d k" for d
    by (simp add: resp_null_def nil_def bulk_def split: option.split)
  have w: "resp_peer exec peer" "kv_ready (ks_kv s)" using assms(1) by (simp_all add: at_work_def)
  from on_cmd [OF w assms(2), of ?f] show ?thesis unfolding kv_get_def e fst_conv snd_conv r .
qed

lemma fetch_redis:
  assumes "at_work exec strs peer s" and "short c"
  shows "\<exists>k'. fetch peer c s = (Inr (strs (kv_data (ks_kv s)) (lkey c)), s\<lparr>ks_kv := k'\<rparr>) \<and> kv_data k' = kv_data (ks_kv s) \<and> kv_ready k'"
  using get_redis [OF assms(1) short_cmds(1) [OF assms(2)]] assms(1) by (simp add: fetch_def at_work_def)

lemma put_new_redis:
  assumes "at_work exec strs peer s" and "cmd_ok (set_args (lkey c) v ttl True)"
  shows "\<exists>k'. put_new peer c v ttl s = (Inr (strs (kv_data (ks_kv s)) (lkey c) = None), s\<lparr>ks_kv := k'\<rparr>) \<and> kv_ready k' \<and>
    (if strs (kv_data (ks_kv s)) (lkey c) = None then strs (kv_data k') = (strs (kv_data (ks_kv s)))(lkey c \<mapsto> v) else kv_data k' = kv_data (ks_kv s))"
proof -
  let ?d = "kv_data (ks_kv s)"
  have e: "if strs ?d (lkey c) \<noteq> None then exec (set_args (lkey c) v ttl True) ?d = (nil, ?d)
    else fst (exec (set_args (lkey c) v ttl True) ?d) = okay \<and> strs (snd (exec (set_args (lkey c) v ttl True) ?d)) = (strs ?d)(lkey c \<mapsto> v)"
    using assms by (simp add: at_work_def redis_strings_def)
  let ?f = "\<lambda>r. r_kind r = CHR ''+'' \<and> r_str r = ''OK''"
  have p: "put_new peer c v ttl s = on_kv (and_then (cmd peer (set_args (lkey c) v ttl True)) (\<lambda>r. return (?f r))) s"
    using assms(1) by (simp add: put_new_def kv_set_def at_work_def)
  have w: "resp_peer exec peer" "kv_ready (ks_kv s)" using assms(1) by (simp_all add: at_work_def)
  from on_cmd [OF w assms(2), of ?f] obtain k'
    where k: "put_new peer c v ttl s = (Inr (?f (fst (exec (set_args (lkey c) v ttl True) ?d))), s\<lparr>ks_kv := k'\<rparr>)"
      "kv_data k' = snd (exec (set_args (lkey c) v ttl True) ?d)" "kv_ready k'" unfolding p by blast
  show ?thesis
  proof (cases "strs ?d (lkey c) = None")
    case True
    then have "?f (fst (exec (set_args (lkey c) v ttl True) ?d))" using e by (simp add: okay_def)
    then show ?thesis using True k e by (intro exI [of _ k']) simp
  next
    case False
    then have "\<not> ?f (fst (exec (set_args (lkey c) v ttl True) ?d))" using e by (simp add: nil_def)
    then show ?thesis using False k e by (intro exI [of _ k']) (auto simp: nil_def)
  qed
qed

lemma resolve_redis:
  assumes "at_work exec strs peer s" and "short c" and "fst (cache_get (ks_ttl s) (clk 0) c (ks_cache s)) = None"
  shows "fst (kv_resolve peer env clk us c s) =
    Inr (case strs (kv_data (ks_kv s)) (lkey c) of
      None \<Rightarrow> None
    | Some v \<Rightarrow> (case dec v of None \<Rightarrow> None | Some (e, a, u) \<Rightarrow> if e \<noteq> 0 \<and> e \<le> clk 1 then None else Some u))"
proof -
  obtain cache where g: "cache_get (ks_ttl s) (clk 0) c (ks_cache s) = (None, cache)" using assms(3) by (metis prod.collapse)
  let ?s = "s\<lparr>ks_cache := cache, ks_mets := cache_miss (ks_mets s)\<rparr>"
  have "at_work exec strs peer ?s" using assms(1) by (simp add: at_work_def)
  from fetch_redis [OF this assms(2)] obtain k'
    where k: "fetch peer c ?s = (Inr (strs (kv_data (ks_kv s)) (lkey c)), ?s\<lparr>ks_kv := k'\<rparr>)" by auto
  show ?thesis unfolding kv_resolve_def g using k by (simp add: Let_def split: option.split prod.split)
qed

lemma uncached_get: "cached cache c = None \<Longrightarrow> fst (cache_get ttl now c cache) = None"
  by (simp add: cache_get_def)

lemma shorten_redis:
  assumes "at_work exec strs peer s" and "short c" and "short u"
  shows "\<exists>s'. kv_shorten peer draws now u (Some c) ttl s = Some (Inr (if strs (kv_data (ks_kv s)) (lkey c) = None then Some c else None), s') \<and>
    at_work exec strs peer s' \<and>
    (if strs (kv_data (ks_kv s)) (lkey c) = None
     then strs (kv_data (ks_kv s')) = (strs (kv_data (ks_kv s)))(lkey c \<mapsto> enc (expiry now ttl) now u)
     else kv_data (ks_kv s') = kv_data (ks_kv s))"
proof -
  have w: "at_work exec strs peer (s\<lparr>ks_mets := store_write (ks_mets s)\<rparr>)" using assms(1) by (rule at_work_other)
  from put_new_redis [OF w short_set [OF assms(2,3)], of "expiry now ttl" now ttl] obtain k'
    where k: "put_new peer c (enc (expiry now ttl) now u) ttl (s\<lparr>ks_mets := store_write (ks_mets s)\<rparr>) =
      (Inr (strs (kv_data (ks_kv s)) (lkey c) = None), s\<lparr>ks_mets := store_write (ks_mets s), ks_kv := k'\<rparr>)" "kv_ready k'"
      "if strs (kv_data (ks_kv s)) (lkey c) = None then strs (kv_data k') = (strs (kv_data (ks_kv s)))(lkey c \<mapsto> enc (expiry now ttl) now u)
       else kv_data k' = kv_data (ks_kv s)" by auto
  show ?thesis
    by (rule exI [of _ "s\<lparr>ks_mets := store_write (ks_mets s), ks_kv := k'\<rparr>"])
      (use k at_work_cong [OF w k(2)] in \<open>simp add: kv_shorten_def Let_def and_then_def return_def\<close>)
qed

text \<open>What a cache may hold of a link for lookups to be right: the link itself, or an entry that is too old to be used.\<close>

definition cache_agrees :: "i64 \<Rightarrow> i64 \<Rightarrow> string \<Rightarrow> string \<Rightarrow> i64 \<Rightarrow> kv_cache \<Rightarrow> bool" where
  "cache_agrees ttl now c u ex cache \<longleftrightarrow>
     (case cached cache c of None \<Rightarrow> True | Some it \<Rightarrow> ce_u it = u \<and> ce_e it = ex \<or> 0 < ttl \<and> ttl < now - ce_at it)"

lemma cache_agrees_get:
  assumes "cache_agrees ttl now c u ex cache"
  shows "fst (cache_get ttl now c cache) = None \<or> fst (cache_get ttl now c cache) = Some u \<and> (ex = 0 \<or> now < ex)"
  using assms by (auto simp: cache_agrees_def cache_get_def split: option.splits)

lemma resolve_cached:
  "fst (cache_get (ks_ttl s) (clk 0) c (ks_cache s)) = Some u \<Longrightarrow> fst (kv_resolve peer env clk us c s) = Inr (Some u)"
  by (auto simp: kv_resolve_def split: prod.splits)

lemma resolve_agrees:
  assumes "at_work exec strs peer t" and "short c" and "cache_agrees (ks_ttl t) (clk 0) c u ex (ks_cache t)"
    and "in_i64 ex" and "in_i64 a"
  shows "strs (kv_data (ks_kv t)) (lkey c) = Some (enc ex a u) \<Longrightarrow> ex = 0 \<or> clk 0 < ex \<and> clk 1 < ex \<Longrightarrow>
      fst (kv_resolve peer env clk us c t) = Inr (Some u)"
    and "strs (kv_data (ks_kv t)) (lkey c) = Some (enc ex a u) \<or> strs (kv_data (ks_kv t)) (lkey c) = None \<Longrightarrow>
      ex \<noteq> 0 \<Longrightarrow> ex \<le> clk 0 \<Longrightarrow> ex \<le> clk 1 \<Longrightarrow> fst (kv_resolve peer env clk us c t) = Inr None"
proof -
  note g = cache_agrees_get [OF assms(3)] and d = dec_enc [OF assms(4,5), of u]
  show "fst (kv_resolve peer env clk us c t) = Inr (Some u)"
    if "strs (kv_data (ks_kv t)) (lkey c) = Some (enc ex a u)" "ex = 0 \<or> clk 0 < ex \<and> clk 1 < ex"
    using g resolve_cached resolve_redis [OF assms(1,2), of clk env us] that d by (auto simp del: One_nat_def)
  show "fst (kv_resolve peer env clk us c t) = Inr None"
    if "strs (kv_data (ks_kv t)) (lkey c) = Some (enc ex a u) \<or> strs (kv_data (ks_kv t)) (lkey c) = None" "ex \<noteq> 0" "ex \<le> clk 0" "ex \<le> clk 1"
    using g resolve_redis [OF assms(1,2), of clk env us] that d by (auto simp del: One_nat_def)
qed

text \<open>
  C13: In the key layout, a link created on one node of the external engine is served by the nodes of the same server. Creating it under a
  free alias succeeds. From then on, whatever else has been written to the server, every node whose cache holds nothing of the alias, or
  this link, or an entry older than its limit of age, answers the URL as long as the server keeps the key and the link
  has not expired by its clock, and refuses to create the alias again, leaving the server as it is; once the link has expired
  it answers nothing, whether the server has dropped the key by then or not.
\<close>

theorem kv_created_is_served:
  assumes "at_work exec strs peer s" and "strs (kv_data (ks_kv s)) (lkey c) = None" and "short c" and "short u" and "in_i64 now"
    and "ex = expiry now ttl"
  shows "\<exists>s'. kv_shorten peer draws now u (Some c) ttl s = Some (Inr (Some c), s') \<and>
    (\<forall>t. at_work exec strs peer t \<longrightarrow> cache_agrees (ks_ttl t) (clk 0) c u ex (ks_cache t) \<longrightarrow>
       (strs (kv_data (ks_kv t)) (lkey c) = strs (kv_data (ks_kv s')) (lkey c) \<longrightarrow>
          (ex = 0 \<or> clk 0 < ex \<and> clk 1 < ex \<longrightarrow> fst (kv_resolve peer env clk us c t) = Inr (Some u)) \<and>
          (short u' \<longrightarrow> (\<exists>t'. kv_shorten peer draws now' u' (Some c) ttl' t = Some (Inr None, t') \<and> kv_data (ks_kv t') = kv_data (ks_kv t)))) \<and>
       (strs (kv_data (ks_kv t)) (lkey c) \<in> {strs (kv_data (ks_kv s')) (lkey c), None} \<longrightarrow> ex \<noteq> 0 \<longrightarrow> ex \<le> clk 0 \<longrightarrow> ex \<le> clk 1 \<longrightarrow>
          fst (kv_resolve peer env clk us c t) = Inr None))"
proof -
  from shorten_redis [OF assms(1,3,4), of draws now ttl] assms(2,6) obtain s'
    where s': "kv_shorten peer draws now u (Some c) ttl s = Some (Inr (Some c), s')"
      "strs (kv_data (ks_kv s')) (lkey c) = Some (enc ex now u)" by auto
  have i: "in_i64 ex" using assms(6) in_i64_expiry by simp
  have n: "\<exists>t'. kv_shorten peer draws now' u' (Some c) ttl' t = Some (Inr None, t') \<and> kv_data (ks_kv t') = kv_data (ks_kv t)"
    if "at_work exec strs peer t" "strs (kv_data (ks_kv t)) (lkey c) = Some (enc ex now u)" "short u'" for t
    using shorten_redis [OF that(1) assms(3) that(3), of draws now' ttl'] that(2) by auto
  show ?thesis
  proof (rule exI [of _ s'], unfold s'(2), intro conjI s'(1) allI impI)
    fix t assume w: "at_work exec strs peer t" and a: "cache_agrees (ks_ttl t) (clk 0) c u ex (ks_cache t)"
    note r = resolve_agrees [where clk = clk, OF w assms(3) a i assms(5)]
    show "fst (kv_resolve peer env clk us c t) = Inr (Some u)"
      if "strs (kv_data (ks_kv t)) (lkey c) = Some (enc ex now u)" "ex = 0 \<or> clk 0 < ex \<and> clk 1 < ex" using that by (rule r(1))
    show "\<exists>t'. kv_shorten peer draws now' u' (Some c) ttl' t = Some (Inr None, t') \<and> kv_data (ks_kv t') = kv_data (ks_kv t)"
      if "strs (kv_data (ks_kv t)) (lkey c) = Some (enc ex now u)" "short u'" using w that by (rule n)
    show "fst (kv_resolve peer env clk us c t) = Inr None"
      if "strs (kv_data (ks_kv t)) (lkey c) \<in> {Some (enc ex now u), None}" "ex \<noteq> 0" "ex \<le> clk 0" "ex \<le> clk 1"
      using r(2) [OF _ that(2-4)] that(1) by blast
  qed
qed

section \<open>Generated codes\<close>

lemma kv_gen_code_short: "kv_gen_code draws p n = (c, n') \<Longrightarrow> short c"
  by (auto simp: kv_gen_code_def short_def)

text \<open>The codes a node will draw.\<close>

definition nth_code :: "(nat \<Rightarrow> nat) \<Rightarrow> 'd kv_store \<Rightarrow> nat \<Rightarrow> string" where
  "nth_code draws s i = fst (kv_gen_code draws (ks_prefix s) (ks_rng s + 7 * i))"

lemma nth_code_gen: "kv_gen_code draws (ks_prefix s) (ks_rng s) = (nth_code draws s 0, ks_rng s + 7)"
  by (simp add: nth_code_def kv_gen_code_def)

lemma nth_code_next [simp]: "nth_code draws (s\<lparr>ks_rng := ks_rng s + 7, ks_kv := k\<rparr>) i = nth_code draws s (Suc i)"
  by (simp add: nth_code_def add.assoc)

lemma nth_code_mets [simp]: "nth_code draws (s\<lparr>ks_mets := m\<rparr>) = nth_code draws s"
  by (simp add: nth_code_def fun_eq_iff)

lemma attempt_redis:
  assumes "at_work exec strs peer s" and "\<And>c. short c \<Longrightarrow> cmd_ok (set_args (lkey c) v ttl True)"
  shows "\<exists>k'. put_new peer (nth_code draws s 0) v ttl (s\<lparr>ks_rng := ks_rng s + 7\<rparr>) =
      (Inr (strs (kv_data (ks_kv s)) (lkey (nth_code draws s 0)) = None), s\<lparr>ks_rng := ks_rng s + 7, ks_kv := k'\<rparr>) \<and> kv_ready k' \<and>
    (if strs (kv_data (ks_kv s)) (lkey (nth_code draws s 0)) = None then strs (kv_data k') = (strs (kv_data (ks_kv s)))(lkey (nth_code draws s 0) \<mapsto> v)
     else kv_data k' = kv_data (ks_kv s))"
proof -
  have k: "ks_kv (s\<lparr>ks_rng := n\<rparr>) = ks_kv s" for n by simp
  from put_new_redis [OF at_work_other(3) [OF assms(1)] assms(2) [OF kv_gen_code_short [OF nth_code_gen]], of draws s "ks_rng s + 7"]
  show ?thesis unfolding k .
qed

lemma new_code_redis:
  assumes "at_work exec strs peer s" and "\<And>c. short c \<Longrightarrow> cmd_ok (set_args (lkey c) v ttl True)"
    and "strs (kv_data (ks_kv s)) (lkey (nth_code draws s m)) = None"
  shows "\<exists>s' j. j \<le> m \<and> (\<forall>i < j. strs (kv_data (ks_kv s)) (lkey (nth_code draws s i)) \<noteq> None) \<and>
    new_code peer draws v ttl s = Some (Some (nth_code draws s j), s') \<and> strs (kv_data (ks_kv s)) (lkey (nth_code draws s j)) = None \<and>
    strs (kv_data (ks_kv s')) = (strs (kv_data (ks_kv s)))(lkey (nth_code draws s j) \<mapsto> v)"
  using assms(1,3)
proof (induction m arbitrary: s rule: nat_less_induct)
  case (1 m s)
  let ?s = "\<lambda>k. s\<lparr>ks_rng := ks_rng s + 7, ks_kv := k\<rparr>"
  show ?case
  proof (cases "strs (kv_data (ks_kv s)) (lkey (nth_code draws s 0)) = None")
    case True
    then obtain k' where "put_new peer (nth_code draws s 0) v ttl (s\<lparr>ks_rng := ks_rng s + 7\<rparr>) = (Inr True, ?s k')"
      "strs (kv_data k') = (strs (kv_data (ks_kv s)))(lkey (nth_code draws s 0) \<mapsto> v)" using attempt_redis [OF 1(2) assms(2), of draws] by auto
    then show ?thesis using True nth_code_gen [of draws s]
      by (intro exI [of _ "?s k'"] exI [of _ 0]) (subst new_code.simps, simp add: Let_def)
  next
    case False
    with attempt_redis [OF 1(2) assms(2), of draws] obtain k'
      where k: "put_new peer (nth_code draws s 0) v ttl (s\<lparr>ks_rng := ks_rng s + 7\<rparr>) = (Inr False, ?s k')"
        "kv_ready k'" "kv_data k' = kv_data (ks_kv s)" by auto
    have w: "at_work exec strs peer (?s k')" using 1(2) k(2) by (simp add: at_work_def)
    have new: "new_code peer draws v ttl s = new_code peer draws v ttl (?s k')"
      using k(1) nth_code_gen [of draws s] by (subst new_code.simps) (simp add: Let_def)
    obtain l where m: "m = Suc l" using False 1(3) by (cases m) auto
    from 1(1) [rule_format, of l, OF _ w] 1(3) k(3) m obtain s' j where j: "j \<le> l"
      "\<forall>i < j. strs (kv_data (ks_kv s)) (lkey (nth_code draws s (Suc i))) \<noteq> None"
      "new_code peer draws v ttl s = Some (Some (nth_code draws s (Suc j)), s')" "strs (kv_data (ks_kv s)) (lkey (nth_code draws s (Suc j))) = None"
      "strs (kv_data (ks_kv s')) = (strs (kv_data (ks_kv s)))(lkey (nth_code draws s (Suc j)) \<mapsto> v)" unfolding new by auto
    have "\<forall>i < Suc j. strs (kv_data (ks_kv s)) (lkey (nth_code draws s i)) \<noteq> None" using j(2) False by (simp add: All_less_Suc2)
    then show ?thesis using j m by (intro exI [of _ s'] exI [of _ "Suc j"]) simp
  qed
qed

text \<open>
  C21: The external engine finds a code. As soon as one of the codes it will draw is free, a creation without an
  alias ends, answers the first drawn code that is free, and stores the link under it and nothing else.
\<close>

theorem kv_shorten_generates:
  assumes "at_work exec strs peer s" and "short u" and "strs (kv_data (ks_kv s)) (lkey (nth_code draws s m)) = None"
  shows "\<exists>s' j. kv_shorten peer draws now u None ttl s = Some (Inr (Some (nth_code draws s j)), s') \<and> j \<le> m \<and>
    strs (kv_data (ks_kv s)) (lkey (nth_code draws s j)) = None \<and> (\<forall>i < j. strs (kv_data (ks_kv s)) (lkey (nth_code draws s i)) \<noteq> None) \<and>
    strs (kv_data (ks_kv s')) = (strs (kv_data (ks_kv s)))(lkey (nth_code draws s j) \<mapsto> enc (expiry now ttl) now u)"
proof -
  have w: "at_work exec strs peer (s\<lparr>ks_mets := store_write (ks_mets s)\<rparr>)" using assms(1) by (rule at_work_other)
  from new_code_redis [OF w short_set [OF _ assms(2)], of draws m "expiry now ttl" now ttl] assms(3)
  obtain s' j where j: "j \<le> m" "\<forall>i < j. strs (kv_data (ks_kv s)) (lkey (nth_code draws s i)) \<noteq> None"
    "new_code peer draws (enc (expiry now ttl) now u) ttl (s\<lparr>ks_mets := store_write (ks_mets s)\<rparr>) = Some (Some (nth_code draws s j), s')"
    "strs (kv_data (ks_kv s)) (lkey (nth_code draws s j)) = None"
    "strs (kv_data (ks_kv s')) = (strs (kv_data (ks_kv s)))(lkey (nth_code draws s j) \<mapsto> enc (expiry now ttl) now u)" by auto
  then have "kv_shorten peer draws now u None ttl s = Some (Inr (Some (nth_code draws s j)), s')" by (simp add: kv_shorten_def Let_def)
  with j show ?thesis by blast
qed

text \<open>
  C37: A server that refuses writes makes the external engine spin. If the server answers every write with an error, as it does
  when its memory is full or it is a read-only replica, a creation without an alias never returns.
\<close>

theorem kv_shorten_spins:
  assumes "resp_peer exec peer" and "kv_ready (ks_kv s)" and "\<not> ks_hash s" and "short u"
    and "\<And>k v px nx d. r_kind (fst (exec (set_args k v px nx) d)) = CHR ''-''"
  shows "kv_shorten peer draws now u None ttl s = None"
proof (rule ccontr)
  let ?v = "enc (expiry now ttl) now u" and ?s = "s\<lparr>ks_mets := store_write (ks_mets s)\<rparr>"
  let ?I = "\<lambda>t :: 'a kv_store. kv_ready (ks_kv t) \<and> \<not> ks_hash t"
  have put: "\<exists>k'. put_new peer c ?v ttl (t\<lparr>ks_rng := n\<rparr>) = (Inr False, t\<lparr>ks_rng := n, ks_kv := k'\<rparr>) \<and> kv_ready k'"
    if "?I t" "kv_gen_code draws (ks_prefix t) (ks_rng t) = (c, n)" for t :: "'a kv_store" and c n
  proof -
    have "cmd_ok (set_args (lkey c) ?v ttl True)" using kv_gen_code_short [OF that(2)] assms(4) by (rule short_set)
    from on_cmd [OF assms(1) _ this, of "t\<lparr>ks_rng := n\<rparr>" "\<lambda>r. r_kind r = CHR ''+'' \<and> r_str r = ''OK''"] that(1) assms(5)
    show ?thesis by (auto simp: put_new_def kv_set_def)
  qed
  assume "kv_shorten peer draws now u None ttl s \<noteq> None"
  then obtain r s' where n: "new_code peer draws ?v ttl ?s = Some (r, s')" by (auto simp: kv_shorten_def Let_def)
  have "?I ?s" using assms(2,3) by simp
  moreover have "?I s1" if "?I t" "kv_gen_code draws (ks_prefix t) (ks_rng t) = (c, n)" "put_new peer c ?v ttl (t\<lparr>ks_rng := n\<rparr>) = (Inr False, s1)" for t c n s1
    using put [OF that(1,2)] that(1,3) by auto
  ultimately obtain s0 c n' x where "?I s0" "kv_gen_code draws (ks_prefix s0) (ks_rng s0) = (c, n')" "put_new peer c ?v ttl (s0\<lparr>ks_rng := n'\<rparr>) = (x, s')"
    "x \<noteq> Inr False" using new_code_rule [OF n, where I = ?I] by blast
  with put show False by fastforce
qed

section \<open>Changes and hits\<close>

lemma del_redis:
  assumes "at_work exec strs peer s" and "cmd_ok [''DEL'', k]"
  shows "\<exists>k'. on_kv (kv_del peer k) s = (Inr (if strs (kv_data (ks_kv s)) k = None then 0 else 1), s\<lparr>ks_kv := k'\<rparr>) \<and>
    strs (kv_data k') = (strs (kv_data (ks_kv s)))(k := None) \<and> kv_ready k'"
proof -
  have e: "fst (exec [''DEL'', k] d) = number (if strs d k = None then 0 else 1)" "strs (snd (exec [''DEL'', k] d)) = (strs d)(k := None)" for d
    using assms(1) by (simp_all add: at_work_def redis_strings_def)
  have w: "resp_peer exec peer" "kv_ready (ks_kv s)" using assms(1) by (simp_all add: at_work_def)
  from on_cmd [OF w assms(2), of "\<lambda>r. if r_kind r = CHR '':'' then r_num r else 0"] obtain k'
    where "on_kv (kv_del peer k) s = (Inr (if strs (kv_data (ks_kv s)) k = None then 0 else 1), s\<lparr>ks_kv := k'\<rparr>)"
      "kv_data k' = snd (exec [''DEL'', k] (kv_data (ks_kv s)))" "kv_ready k'" by (auto simp: kv_del_def e(1) number_def)
  then show ?thesis using e(2) by auto
qed

lemma remove_redis:
  assumes "at_work exec strs peer s" and "short c" and "strs (kv_data (ks_kv s)) (lkey c) \<noteq> None"
  shows "\<exists>s'. kv_remove peer c s = (Inr Ok, s') \<and> at_work exec strs peer s' \<and> cached (ks_cache s') c = None \<and>
    strs (kv_data (ks_kv s')) = (strs (kv_data (ks_kv s)))(lkey c := None, hkey c := None)"
proof -
  from del_redis [OF assms(1) short_cmds(3) [OF assms(2)]] assms(3) obtain k1
    where k1: "on_kv (kv_del peer (lkey c)) s = (Inr 1, s\<lparr>ks_kv := k1\<rparr>)" "strs (kv_data k1) = (strs (kv_data (ks_kv s)))(lkey c := None)" "kv_ready k1" by auto
  from del_redis [OF at_work_cong [OF assms(1) k1(3)] short_cmds(4) [OF assms(2)]] obtain k2 n
    where k2: "on_kv (kv_del peer (hkey c)) (s\<lparr>ks_kv := k1\<rparr>) = (Inr n, s\<lparr>ks_kv := k2\<rparr>)" "strs (kv_data k2) = (strs (kv_data k1))(hkey c := None)" "kv_ready k2" by auto
  let ?s = "s\<lparr>ks_kv := k2, ks_cache := cache_del c (ks_cache s)\<rparr>"
  have "kv_remove peer c s = (Inr Ok, ?s)" using assms(1) k1(1) k2(1) by (simp add: kv_remove_def at_work_def and_then_def Let_def)
  moreover have "at_work exec strs peer ?s" using assms(1) k2(3) by (simp add: at_work_def)
  ultimately show ?thesis using k1(2) k2(2) by (simp add: cached_del)
qed

lemma update_redis:
  assumes "at_work exec strs peer s" and "short c" and "short u" and "strs (kv_data (ks_kv s)) (lkey c) = Some v" and "dec v = Some (e, a, u0)"
    and "ex = (if has then expiry (clk 0) ttl else e)"
  shows "\<exists>s'. kv_update peer clk c u ttl has s = (Inr Ok, s') \<and> at_work exec strs peer s' \<and> cached (ks_cache s') c = None \<and>
    strs (kv_data (ks_kv s')) = (strs (kv_data (ks_kv s)))(lkey c \<mapsto> enc ex a u)"
proof -
  define px where "px = (if 0 < ex then ex - clk 1 else 0)"
  let ?f = "\<lambda>r. r_kind r = CHR ''+'' \<and> r_str r = ''OK''"
  from fetch_redis [OF assms(1,2)] assms(4) obtain k1
    where k1: "fetch peer c s = (Inr (Some v), s\<lparr>ks_kv := k1\<rparr>)" "kv_data k1 = kv_data (ks_kv s)" "kv_ready k1" by auto
  let ?set = "set_args (lkey c) (enc ex a u) px False"
  have ok: "cmd_ok ?set" using assms(2,3) by (rule short_set)
  then have e: "fst (exec ?set d) = okay" "strs (snd (exec ?set d)) = (strs d)(lkey c \<mapsto> enc ex a u)" for d
    using assms(1) by (simp_all add: at_work_def redis_strings_def)
  have w: "resp_peer exec peer" "kv_ready (ks_kv (s\<lparr>ks_kv := k1\<rparr>))" using assms(1) k1(3) by (simp_all add: at_work_def)
  from on_cmd [OF w ok, of ?f] obtain k2 where k2: "on_kv (kv_set peer (lkey c) (enc ex a u) px False) (s\<lparr>ks_kv := k1\<rparr>) = (Inr True, s\<lparr>ks_kv := k2\<rparr>)"
    "kv_data k2 = snd (exec ?set (kv_data k1))" "kv_ready k2" by (auto simp: kv_set_def e(1) okay_def)
  let ?s = "s\<lparr>ks_kv := k2, ks_cache := cache_del c (ks_cache s)\<rparr>"
  have "kv_update peer clk c u ttl has s = (Inr Ok, ?s)"
    using k1(1) k2(1) assms(1,5) unfolding kv_update_def px_def
    by (cases "0 < ex") (simp_all add: and_then_def Let_def at_work_def assms(6) [symmetric] del: One_nat_def)
  moreover have "at_work exec strs peer ?s" using assms(1) k2(3) by (simp add: at_work_def)
  ultimately show ?thesis using e(2) k1(2) k2(2) by (simp add: cached_del)
qed

text \<open>
  C19: In the key layout, a change shows at once on the node that made it, whatever the cache of the node held before. After an update the node
  answers the new URL until the new expiry, or the old one if the update named none; after a removal it
  answers nothing, and link and hits are gone from the server.
\<close>

theorem kv_changes_show:
  assumes "at_work exec strs peer s" and "short c" and "short u" and "in_i64 e" and "in_i64 a"
    and "strs (kv_data (ks_kv s)) (lkey c) = Some (enc e a u0)" and "ex = (if has then expiry (clk 0) ttl else e)"
  shows "(\<exists>s1. kv_update peer clk c u ttl has s = (Inr Ok, s1) \<and>
      fst (kv_resolve peer env clk1 us c s1) = Inr (if ex = 0 \<or> clk1 1 < ex then Some u else None) \<and>
      strs (kv_data (ks_kv s1)) = (strs (kv_data (ks_kv s)))(lkey c \<mapsto> enc ex a u)) \<and>
    (\<exists>s2. kv_remove peer c s = (Inr Ok, s2) \<and> fst (kv_resolve peer env clk2 us c s2) = Inr None \<and>
      strs (kv_data (ks_kv s2)) = (strs (kv_data (ks_kv s)))(lkey c := None, hkey c := None))"
proof -
  from update_redis [where clk = clk, OF assms(1-3,6) dec_enc [OF assms(4,5)] assms(7)] obtain s1
    where s1: "kv_update peer clk c u ttl has s = (Inr Ok, s1)" "at_work exec strs peer s1" "cached (ks_cache s1) c = None"
      "strs (kv_data (ks_kv s1)) = (strs (kv_data (ks_kv s)))(lkey c \<mapsto> enc ex a u)" by auto
  from remove_redis [OF assms(1,2)] assms(6) obtain s2
    where s2: "kv_remove peer c s = (Inr Ok, s2)" "at_work exec strs peer s2" "cached (ks_cache s2) c = None"
      "strs (kv_data (ks_kv s2)) = (strs (kv_data (ks_kv s)))(lkey c := None, hkey c := None)" by auto
  have "in_i64 ex" using assms(4,7) in_i64_expiry by simp
  then have "fst (kv_resolve peer env clk1 us c s1) = Inr (if ex = 0 \<or> clk1 1 < ex then Some u else None)"
    unfolding resolve_redis [OF s1(2) assms(2) uncached_get [OF s1(3)]] using dec_enc [of ex a u] assms(5) s1(4) by auto
  moreover have "fst (kv_resolve peer env clk2 us c s2) = Inr None"
    unfolding resolve_redis [OF s2(2) assms(2) uncached_get [OF s2(3)]] using s2(4) by (simp add: lkey_def hkey_def)
  ultimately show ?thesis using s1(1,4) s2(1,4) by blast
qed

text \<open>The hits of a code not yet sent, and queues of hits in which every code is in its shard.\<close>

definition pending_of :: "(nat \<Rightarrow> (string, i64) umap) \<Rightarrow> string \<Rightarrow> i64" where
  "pending_of pending c = um_get 0 (pending (kv_shard_of c)) c"

definition dirty_ok :: "(nat \<Rightarrow> (string, i64) umap) \<Rightarrow> bool" where
  "dirty_ok pending \<longleftrightarrow> (\<forall>i. um_inv (pending i) \<and> (\<forall>c n. (c, n) \<in> set (pending i) \<longrightarrow> kv_shard_of c = i \<and> short c \<and> in_i64 n))"

lemma kv_shard_of_less: "kv_shard_of c < KV_SHARDS"
proof -
  have "fnv32 2166136261 c AND (256 - 1) \<le> (256 - 1 :: 32 word)" by (rule word_and_le1)
  then have "fnv32 2166136261 c AND (256 - 1) < 256" by (rule order_le_less_trans) simp
  then show ?thesis by (simp add: kv_shard_of_def KV_SHARDS_def word_less_nat_alt)
qed

lemma dirty_put_ok: "dirty_ok pending \<Longrightarrow> short c \<Longrightarrow> dirty_ok (dirty_put c pending)"
  by (auto simp: dirty_ok_def dirty_put_def Let_def um_inv_put um_find_in_set [symmetric] um_simps split: if_splits)

lemma pending_of_put: "pending_of (dirty_put c pending) = (pending_of pending)(c := add64 (pending_of pending c) 1)"
  by (auto simp: pending_of_def dirty_put_def Let_def fun_eq_iff um_simps)

lemma dirty_all_distinct:
  assumes "dirty_ok pending"
  shows "distinct (map fst (dirty_all pending))"
proof -
  have "distinct (concat (map (\<lambda>i. map fst (pending i)) [0..<n]))" for n
  proof (induction n)
    case (Suc n)
    have "\<not> i < n" if "(x, a) \<in> set (pending i)" "(x, b) \<in> set (pending n)" for x a b i
      using assms that unfolding dirty_ok_def by (metis less_irrefl)
    then have "set (concat (map (\<lambda>i. map fst (pending i)) [0..<n])) \<inter> fst ` set (pending n) = {}" by auto
    then show ?case using Suc assms by (auto simp: dirty_ok_def um_inv_def)
  qed simp
  then show ?thesis by (simp add: dirty_all_def map_concat comp_def)
qed

lemma dirty_all_find:
  assumes "dirty_ok pending"
  shows "um_get 0 (dirty_all pending) c = pending_of pending c"
proof -
  have inv: "um_inv (dirty_all pending)" using dirty_all_distinct [OF assms] by (simp add: um_inv_def)
  have "um_find (dirty_all pending) c = Some n \<longleftrightarrow> um_find (pending (kv_shard_of c)) c = Some n" for n
  proof -
    have i: "um_inv (pending (kv_shard_of c))" using assms unfolding dirty_ok_def by blast
    have all: "set (dirty_all pending) = (\<Union>i \<in> {..<KV_SHARDS}. set (pending i))" by (auto simp: dirty_all_def)
    have "i = kv_shard_of c" if "(c, n) \<in> set (pending i)" for i using assms that unfolding dirty_ok_def by blast
    then have "(c, n) \<in> set (dirty_all pending) \<longleftrightarrow> (c, n) \<in> set (pending (kv_shard_of c))"
      using kv_shard_of_less [of c] unfolding all by blast
    then show ?thesis unfolding um_find_in_set [OF inv] um_find_in_set [OF i] .
  qed
  then have "um_find (dirty_all pending) c = um_find (pending (kv_shard_of c)) c"
    by (metis not_None_eq)
  then show ?thesis by (simp add: um_get_def pending_of_def)
qed

lemma incr_all:
  assumes "redis_strings exec strs" and "distinct (map fst ds)"
    and "\<And>c n. (c, n) \<in> set ds \<Longrightarrow> in_i64 n \<and> (\<exists>m. count_of (strs d (hkey c)) = Some m \<and> in_i64 m \<and> in_i64 (m + n))"
  shows "count_of (strs (snd (exec_all exec (map (\<lambda>(c, n). [''INCRBY'', hkey c, to_string n]) ds) d)) (hkey c)) =
    map_option (\<lambda>m. m + um_get 0 ds c) (count_of (strs d (hkey c)))"
  using assms(2,3)
proof (induction ds arbitrary: d)
  case Nil
  then show ?case by (simp add: um_get_def option.map_ident)
next
  case (Cons p ds)
  obtain c1 n where p: "p = (c1, n)" by force
  obtain m where m: "in_i64 n" "count_of (strs d (hkey c1)) = Some m" "in_i64 (m + n)" using Cons.prems(2) [of c1 n] p by auto
  let ?d = "snd (exec [''INCRBY'', hkey c1, to_string n] d)"
  have s: "strs ?d = (strs d)(hkey c1 \<mapsto> to_string (m + n))" using assms(1) m by (simp add: redis_strings_def)
  have keys: "hkey x = hkey y \<longleftrightarrow> x = y" for x y by (simp add: hkey_def)
  have "in_i64 k \<and> (\<exists>m. count_of (strs ?d (hkey x)) = Some m \<and> in_i64 m \<and> in_i64 (m + k))" if "(x, k) \<in> set ds" for x k
  proof -
    have "x \<noteq> c1" using that Cons.prems(1) p by (metis distinct.simps(2) fst_conv image_eqI list.simps(9) set_map)
    then show ?thesis using Cons.prems(2) [of x k] that s keys by simp
  qed
  from Cons.IH [OF _ this] Cons.prems(1) have IH: "count_of (strs (snd (exec_all exec (map (\<lambda>(c, n). [''INCRBY'', hkey c, to_string n]) ds) ?d)) (hkey c)) =
    map_option (\<lambda>m. m + um_get 0 ds c) (count_of (strs ?d (hkey c)))" by simp
  have "um_find ds c1 = None" using Cons.prems(1) p by (simp add: map_of_eq_None_iff)
  then have "um_get 0 ds c1 = 0" by (simp add: um_get_def)
  moreover have "count_of (strs ?d (hkey c)) = (if c = c1 then Some (m + n) else count_of (strs d (hkey c)))"
    using s keys m(3) by (simp add: count_of_def)
  moreover have "snd (exec_all exec (map (\<lambda>(c, n). [''INCRBY'', hkey c, to_string n]) (p # ds)) d) =
      snd (exec_all exec (map (\<lambda>(c, n). [''INCRBY'', hkey c, to_string n]) ds) ?d)" by (simp add: p Let_def split: prod.split)
  moreover have "um_get 0 (p # ds) c = (if c = c1 then n else um_get 0 ds c)" by (simp add: p um_get_def)
  ultimately show ?case using IH m(2) by (simp split: if_splits)
qed

text \<open>
  C20: No hit is lost or counted twice on the way to the server. A flush adds to the counter of every code exactly the
  hits the node has counted for it and not yet sent, and leaves none to be sent again.
\<close>

theorem kv_flush_counts:
  assumes "at_work exec strs peer s" and "dirty_ok (ks_dirty s)"
    and "\<And>c. short c \<Longrightarrow> \<exists>m. count_of (strs (kv_data (ks_kv s)) (hkey c)) = Some m \<and> in_i64 m \<and> in_i64 (m + pending_of (ks_dirty s) c)"
  shows "\<exists>s'. kv_flush peer s = (Inr (), s') \<and> pending_of (ks_dirty s') = (\<lambda>_. 0) \<and>
    (\<forall>c. count_of (strs (kv_data (ks_kv s')) (hkey c)) =
       map_option (\<lambda>m. m + pending_of (ks_dirty s) c) (count_of (strs (kv_data (ks_kv s)) (hkey c))))"
proof -
  let ?ds = "dirty_all (ks_dirty s)" and ?d = "kv_data (ks_kv s)"
  let ?cmds = "map (\<lambda>(c, n). [''INCRBY'', hkey c, to_string n]) ?ds"
  let ?e = "s\<lparr>ks_dirty := (\<lambda>i. if i < KV_SHARDS then [] else ks_dirty s i)\<rparr>"
  have in_ds: "short c \<and> in_i64 n \<and> pending_of (ks_dirty s) c = n" if "(c, n) \<in> set ?ds" for c n
  proof -
    have "um_find ?ds c = Some n" using that dirty_all_distinct [OF assms(2)] by (simp add: um_inv_def um_find_in_set)
    then have "pending_of (ks_dirty s) c = n" using dirty_all_find [OF assms(2), of c] by (simp add: um_get_def)
    then show ?thesis using that assms(2) by (auto simp: dirty_all_def dirty_ok_def)
  qed
  have cnt: "count_of (strs (snd (exec_all exec ?cmds ?d)) (hkey c)) = map_option (\<lambda>m. m + pending_of (ks_dirty s) c) (count_of (strs ?d (hkey c)))" for c
    unfolding dirty_all_find [OF assms(2), symmetric]
  proof (rule incr_all [OF _ dirty_all_distinct [OF assms(2)]])
    show "redis_strings exec strs" using assms(1) by (simp add: at_work_def)
    show "in_i64 n \<and> (\<exists>m. count_of (strs ?d (hkey c)) = Some m \<and> in_i64 m \<and> in_i64 (m + n))" if "(c, n) \<in> set ?ds" for c n
      using in_ds [OF that] assms(3) [of c] by auto
  qed
  have p0: "pending_of (ks_dirty ?e) = (\<lambda>_. 0)" using kv_shard_of_less by (auto simp: pending_of_def um_get_def fun_eq_iff)
  have fl: "kv_flush peer s = on_kv (incrby_many peer (map (\<lambda>(code, n). (''h:'' @ code, n)) ?ds)) ?e"
    using assms(1) by (simp add: kv_flush_def flush_hits_def at_work_def Let_def)
  show ?thesis
  proof (cases "?ds = []")
    case True
    then show ?thesis using fl p0 cnt by (simp add: on_kv_def incrby_many_def return_def)
  next
    case False
    have "list_all cmd_ok ?cmds" using in_ds short_cmds(5) by (fastforce simp: list_all_iff)
    with pipe_exec [of exec peer "ks_kv s" ?cmds] assms(1) obtain k' where k: "pipe peer ?cmds (ks_kv s) = (Inr (fst (exec_all exec ?cmds ?d)), k')"
      "kv_data k' = snd (exec_all exec ?cmds ?d)" by (auto simp: at_work_def)
    have m: "map (\<lambda>(k, d). [''INCRBY'', k, to_string d]) (map (\<lambda>(code, n). (''h:'' @ code, n)) ?ds) = ?cmds" by (auto simp: hkey_def)
    have "incrby_many peer (map (\<lambda>(code, n). (''h:'' @ code, n)) ?ds) (ks_kv s) = (Inr (), k')"
      unfolding incrby_many_def m using False k(1) by (simp add: and_then_def return_def)
    then have "kv_flush peer s = (Inr (), ?e\<lparr>ks_kv := k'\<rparr>)" using fl by (simp add: on_kv_def)
    then show ?thesis using p0 cnt k(2) by simp
  qed
qed

section \<open>A small server\<close>

text \<open>A server that keeps the promises, on an association list; values no client can send are not there.\<close>

definition mini_strs :: "(string, string) umap \<Rightarrow> string \<Rightarrow> string option" where
  "mini_strs d k = (case um_find d k of None \<Rightarrow> None | Some v \<Rightarrow> if int (length v) < 2 ^ 63 then Some v else None)"

definition mini_exec :: "string list \<Rightarrow> (string, string) umap \<Rightarrow> resp \<times> (string, string) umap" where
  "mini_exec args d =
     (if length args = 2 \<and> args ! 0 = ''GET'' then (case mini_strs d (args ! 1) of None \<Rightarrow> nil | Some v \<Rightarrow> bulk v, d)
      else if 3 \<le> length args \<and> args ! 0 = ''SET'' then
        (if ''NX'' \<in> set (drop 3 args) \<and> mini_strs d (args ! 1) \<noteq> None then (nil, d) else (okay, um_put (args ! 1) (args ! 2) d))
      else if length args = 2 \<and> args ! 0 = ''DEL'' then (number (if mini_strs d (args ! 1) = None then 0 else 1), um_erase (args ! 1) d)
      else if length args = 3 \<and> args ! 0 = ''INCRBY'' then
        (case (count_of (mini_strs d (args ! 1)), stoll (args ! 2)) of
           (Some m, Some n) \<Rightarrow> if in_i64 (m + n) then (number (m + n), um_put (args ! 1) (to_string (m + n)) d) else (Resp (CHR ''-'') ''ERR'' 0 [], d)
         | _ \<Rightarrow> (Resp (CHR ''-'') ''ERR'' 0 [], d))
      else (Resp (CHR ''-'') ''ERR'' 0 [], d))"

lemma mini_exec_ok: "\<forall>c d. resp_ok (fst (mini_exec c d))"
  by (auto simp: mini_exec_def mini_strs_def nil_def okay_def number_def bulk_def in_i64_def split: option.split)

lemma mini_strs_put: "int (length v) < 2 ^ 63 \<Longrightarrow> mini_strs (um_put k v d) = (mini_strs d)(k \<mapsto> v)"
  by (auto simp: mini_strs_def fun_eq_iff um_simps)

lemma mini_strs_erase: "mini_strs (um_erase k d) = (mini_strs d)(k := None)"
  by (auto simp: mini_strs_def fun_eq_iff um_simps)

lemma to_string_not_NX: "to_string n \<noteq> ''NX''"
proof -
  have "CHR ''N'' \<notin> set (to_string n)" unfolding to_string_def by (rule itoa_avoids) simp
  then show ?thesis by auto
qed

lemma mini_redis: "redis_strings mini_exec mini_strs"
proof -
  have n: "int (length (to_string x)) < 2 ^ 63" for x using length_to_string [of x] by simp
  have set: "mini_exec (set_args k v px nx) d = (if nx \<and> mini_strs d k \<noteq> None then (nil, d) else (okay, um_put k v d))" for k v px nx d
    using to_string_not_NX [of px] by (auto simp: mini_exec_def set_args_def)
  have v: "int (length v) < 2 ^ 63" if "cmd_ok (set_args k v px nx)" for k v px nx using that by (simp add: cmd_ok_def set_args_def)
  have inc: "mini_strs (snd (mini_exec [''INCRBY'', k, to_string n] d)) = (mini_strs d)(k \<mapsto> to_string (m + n))"
    if "in_i64 n" "count_of (mini_strs d k) = Some m" "in_i64 (m + n)" for k n m d
    using that mini_strs_put [OF n] by (simp add: mini_exec_def)
  have del: "mini_exec [''DEL'', k] d = (number (if mini_strs d k = None then 0 else 1), um_erase k d)" for k d by (simp add: mini_exec_def)
  have get: "mini_exec [''GET'', k] d = (case mini_strs d k of None \<Rightarrow> nil | Some v \<Rightarrow> bulk v, d)" for k d by (simp add: mini_exec_def)
  show ?thesis unfolding redis_strings_def get del fst_conv snd_conv mini_strs_erase set
    using inc mini_strs_put [OF v] by auto
qed

definition mini_node :: "(string, string) umap \<Rightarrow> (string, string) umap kv_store" where
  "mini_node d =
     \<lparr>ks_kv = \<lparr>kv_conns = [conn_new], kv_next = 0, kv_data = d\<rparr>, ks_cache = cache0, ks_cap = 16, ks_ttl = 5000, ks_dirty = (\<lambda>_. []),
      ks_inst = 0, ks_prefix = CHR ''0'', ks_hash = False, ks_buckets = 1, ks_rng = 0, ks_stop = False, ks_sweep_ms = None, ks_waited = 0,
      ks_mets = metrics0\<rparr>"

lemma mini_at_work: "at_work mini_exec mini_strs (byte_peer mini_exec) (mini_node d)"
  by (simp add: at_work_def byte_peer_ok [OF mini_exec_ok] mini_redis mini_node_def kv_ready_def leaves_def conn_ok_def rest_of_def conn_new_def)

lemma mini_node_fields [simp]:
  "kv_data (ks_kv (mini_node d)) = d" "ks_cache (mini_node d) = cache0" "ks_ttl (mini_node d) = 5000" "ks_dirty (mini_node d) = (\<lambda>_. [])"
  by (simp_all add: mini_node_def)

theorem kv_created_is_served_witness:
  "\<exists>s'. kv_shorten (byte_peer mini_exec) (\<lambda>_. 0) 5 ''http://x'' (Some ''ali'') 100 (mini_node []) = Some (Inr (Some ''ali''), s') \<and>
     fst (kv_resolve (byte_peer mini_exec) Map.empty (\<lambda>_. 50) 0 ''ali'' ((mini_node (um_put ''k'' ''v'' (kv_data (ks_kv s'))))
       \<lparr>ks_cache := cache_put 16 (- 6000) ''ali'' ''http://old'' 0 cache0\<rparr>)) = Inr (Some ''http://x'')"
proof -
  let ?peer = "byte_peer mini_exec"
  have n: "mini_strs (kv_data (ks_kv (mini_node []))) (lkey ''ali'') = None" by (simp add: mini_strs_def)
  have x: "105 = expiry 5 100" by code_simp
  have sh: "short ''ali''" "short ''http://x''" "in_i64 5" by (simp_all add: short_def in_i64_def)
  from kv_created_is_served [where draws = "\<lambda>_. 0" and ttl = 100 and env = Map.empty and clk = "\<lambda>_. 50" and us = 0 and u' = "[]" and now' = 0 and ttl' = 0,
    OF mini_at_work n sh x]
  obtain s' where s': "kv_shorten ?peer (\<lambda>_. 0) 5 ''http://x'' (Some ''ali'') 100 (mini_node []) = Some (Inr (Some ''ali''), s')"
    "\<And>t. at_work mini_exec mini_strs ?peer t \<Longrightarrow> cache_agrees (ks_ttl t) 50 ''ali'' ''http://x'' 105 (ks_cache t) \<Longrightarrow>
       mini_strs (kv_data (ks_kv t)) (lkey ''ali'') = mini_strs (kv_data (ks_kv s')) (lkey ''ali'') \<Longrightarrow>
       fst (kv_resolve ?peer Map.empty (\<lambda>_. 50) 0 ''ali'' t) = Inr (Some ''http://x'')"
    by auto
  let ?t = "(mini_node (um_put ''k'' ''v'' (kv_data (ks_kv s'))))\<lparr>ks_cache := cache_put 16 (- 6000) ''ali'' ''http://old'' 0 cache0\<rparr>"
  have "cached (cache_put 16 (- 6000) ''ali'' ''http://old'' 0 cache0) ''ali'' = Some \<lparr>ce_u = ''http://old'', ce_e = 0, ce_at = - 6000\<rparr>"
    by (simp add: cached_put_same)
  then have "cache_agrees (ks_ttl ?t) 50 ''ali'' ''http://x'' 105 (ks_cache ?t)" by (simp add: cache_agrees_def)
  moreover have "mini_strs (kv_data (ks_kv ?t)) (lkey ''ali'') = mini_strs (kv_data (ks_kv s')) (lkey ''ali'')"
    by (simp add: mini_strs_put lkey_def)
  ultimately show ?thesis using s'(1) s'(2) [OF at_work_other(2) [OF mini_at_work]] by blast
qed

theorem kv_shorten_generates_witness:
  "\<exists>s' j. kv_shorten (byte_peer mini_exec) (\<lambda>_. 0) 5 ''u'' None 0 (mini_node []) = Some (Inr (Some (nth_code (\<lambda>_. 0) (mini_node []) j)), s') \<and> j \<le> 0"
  using kv_shorten_generates [OF mini_at_work, of "''u''" "[]" "\<lambda>_. 0" 0 5 0] by (auto simp: short_def mini_strs_def)

theorem kv_shorten_spins_witness:
  "kv_shorten (byte_peer (\<lambda>_ d. (Resp (CHR ''-'') ''OOM'' 0 [], d))) (\<lambda>_. 0) 5 ''u'' None 0 (mini_node []) = None"
proof (rule kv_shorten_spins)
  show "resp_peer (\<lambda>_ d. (Resp (CHR ''-'') ''OOM'' 0 [], d)) (byte_peer (\<lambda>_ d. (Resp (CHR ''-'') ''OOM'' 0 [], d)) :: (string, string) umap peer)"
    by (rule byte_peer_ok) simp
  show "kv_ready (ks_kv (mini_node []))" "\<not> ks_hash (mini_node [])" using mini_at_work by (simp_all add: at_work_def)
qed (simp_all add: short_def)

lemma demo_shorts: "short ''a''" "short ''new''" "in_i64 0" "in_i64 1" "in_i64 41"
  by (simp_all add: short_def in_i64_def)

lemma demo_stored: "mini_strs [(lkey ''a'', enc 0 1 ''old'')] (lkey ''a'') = Some (enc 0 1 ''old'')"
proof -
  have "length (enc 0 1 ''old'') < 100" by code_simp
  then show ?thesis by (simp add: mini_strs_def)
qed

theorem kv_changes_show_witness:
  "\<exists>s s1 s2. cached (ks_cache s) ''a'' = Some \<lparr>ce_u = ''old'', ce_e = 0, ce_at = 8\<rparr> \<and>
     kv_update (byte_peer mini_exec) (\<lambda>_. 9) ''a'' ''new'' 0 False s = (Inr Ok, s1) \<and>
     fst (kv_resolve (byte_peer mini_exec) Map.empty (\<lambda>_. 10) 0 ''a'' s1) = Inr (Some ''new'') \<and>
     kv_remove (byte_peer mini_exec) ''a'' s = (Inr Ok, s2) \<and> fst (kv_resolve (byte_peer mini_exec) Map.empty (\<lambda>_. 11) 0 ''a'' s2) = Inr None"
proof -
  let ?s = "(mini_node [(lkey ''a'', enc 0 1 ''old'')])\<lparr>ks_cache := cache_put 16 8 ''a'' ''old'' 0 cache0\<rparr>"
  have w: "at_work mini_exec mini_strs (byte_peer mini_exec) ?s" using mini_at_work by (rule at_work_other)
  have c: "cached (ks_cache ?s) ''a'' = Some \<lparr>ce_u = ''old'', ce_e = 0, ce_at = 8\<rparr>"
    by (simp add: cached_put_same)
  have "mini_strs (kv_data (ks_kv ?s)) (lkey ''a'') = Some (enc 0 1 ''old'')" using demo_stored by simp
  from kv_changes_show [where clk = "\<lambda>_. 9" and ttl = 0 and has = False and ex = 0 and env = Map.empty and ?clk1.0 = "\<lambda>_. 10" and
      ?clk2.0 = "\<lambda>_. 11" and us = 0, OF w demo_shorts(1,2,3,4) this] c
  show ?thesis by - (rule exI [of _ ?s], auto)
qed

theorem kv_flush_counts_witness:
  "\<exists>s'. kv_flush (byte_peer mini_exec) ((mini_node [(hkey ''a'', ''41'')])\<lparr>ks_dirty := dirty_put ''a'' (\<lambda>_. [])\<rparr>) = (Inr (), s') \<and>
     pending_of (ks_dirty s') ''a'' = 0 \<and> count_of (mini_strs (kv_data (ks_kv s')) (hkey ''a'')) = Some 42"
proof -
  let ?s = "(mini_node [(hkey ''a'', ''41'')])\<lparr>ks_dirty := dirty_put ''a'' (\<lambda>_. [])\<rparr>"
  have w: "at_work mini_exec mini_strs (byte_peer mini_exec) ?s" using mini_at_work by (rule at_work_other)
  have "dirty_ok (\<lambda>_. [])" by (simp add: dirty_ok_def)
  from dirty_put_ok [OF this demo_shorts(1)] have ok: "dirty_ok (ks_dirty ?s)" by simp
  have p: "pending_of (ks_dirty ?s) c = (if c = ''a'' then 1 else 0)" for c
    using pending_of_put [of "''a''" "\<lambda>_. []"] by (simp add: pending_of_def um_get_def)
  have st: "stoll ''41'' = Some 41" by code_simp
  have c: "count_of (mini_strs (kv_data (ks_kv ?s)) (hkey c)) = Some (if c = ''a'' then 41 else 0)" for c
    by (simp add: mini_strs_def count_of_def st hkey_def)
  have r: "\<exists>m. count_of (mini_strs (kv_data (ks_kv ?s)) (hkey c)) = Some m \<and> in_i64 m \<and> in_i64 (m + pending_of (ks_dirty ?s) c)" for c
    unfolding c p by (simp add: in_i64_def)
  from kv_flush_counts [OF w ok r] obtain s' where s': "kv_flush (byte_peer mini_exec) ?s = (Inr (), s')" "pending_of (ks_dirty s') = (\<lambda>_. 0)"
    "\<forall>c. count_of (mini_strs (kv_data (ks_kv s')) (hkey c)) = map_option (\<lambda>m. m + pending_of (ks_dirty ?s) c) (count_of (mini_strs (kv_data (ks_kv ?s)) (hkey c)))"
    by blast
  from s'(3) have "count_of (mini_strs (kv_data (ks_kv s')) (hkey ''a'')) = Some 42" unfolding c p by simp
  with s'(1,2) show ?thesis by auto
qed

theorem kv_answers_fresh_witness:
  "\<exists>H s s' t e. runs (kv_holds (byte_peer mini_exec)) (kv_step (byte_peer mini_exec) Map.empty (\<lambda>_. 0)) (mini_node [(lkey ''a'', enc 0 1 ''old'')]) H s \<and>
     kv_data (ks_kv s) = [(lkey ''a'', enc 0 1 ''new'')] \<and>
     kv_resolve (byte_peer mini_exec) Map.empty (\<lambda>_. 20) 0 ''a'' s = (Inr (Some ''old''), s') \<and>
     (kv_holds (byte_peer mini_exec) s ''a'' = Some (''old'', e) \<or> (t, ''a'', ''old'', e) \<in> H \<and> 20 - t \<le> 5000)"
proof -
  let ?peer = "byte_peer mini_exec" and ?init = "mini_node [(lkey ''a'', enc 0 1 ''old'')]"
  let ?mid = "snd (kv_resolve ?peer Map.empty (\<lambda>_. 10) 0 ''a'' ?init)"
  let ?k = "ks_kv (mini_node [(lkey ''a'', enc 0 1 ''new'')])"
  let ?fin = "?mid\<lparr>ks_kv := ?k\<rparr>"
  let ?step = "kv_step ?peer Map.empty (\<lambda>_. 0)"
  have step1: "?step (\<lambda>_. 10) ?init ?mid" by (rule kv_step.look)
  have step2: "?step (\<lambda>_. 15) ?mid ?fin" by (rule kv_step.outside)
  obtain H where H: "runs (kv_holds ?peer) ?step ?init H ?fin"
    using runs.go [where step = ?step, OF runs.go [where step = ?step, OF runs.start step1] step2] by blast
  have w: "at_work mini_exec mini_strs ?peer (?init\<lparr>ks_mets := cache_miss metrics0\<rparr>)" using mini_at_work by (rule at_work_other)
  from fetch_redis [OF w demo_shorts(1)] demo_stored obtain k'
    where f: "fetch ?peer ''a'' (?init\<lparr>ks_mets := cache_miss metrics0\<rparr>) = (Inr (Some (enc 0 1 ''old'')), ?init\<lparr>ks_mets := cache_miss metrics0, ks_kv := k'\<rparr>)" by auto
  have m: "ks_mets ?init = metrics0" "?init\<lparr>ks_cache := cache0, ks_mets := x\<rparr> = ?init\<lparr>ks_mets := x\<rparr>" for x by (simp_all add: mini_node_def)
  have t: "ks_ttl ?mid = 5000" "cached (ks_cache ?mid) ''a'' = Some \<lparr>ce_u = ''old'', ce_e = 0, ce_at = 10\<rparr>"
    using f dec_enc [OF demo_shorts(3,4), of "''old''"] cached_put_same
    by (simp_all add: kv_resolve_def cache_get_def m Let_def kv_bump_def)
  then obtain s' where s': "kv_resolve ?peer Map.empty (\<lambda>_. 20) 0 ''a'' ?fin = (Inr (Some ''old''), s')"
    by (simp add: kv_resolve_def cache_get_def)
  have "0 < ks_ttl ?fin" using t(1) by simp
  from kv_answers_fresh [OF H _ this s'] t(1) H s' show ?thesis by fastforce
qed

end
