(* ===== verification/Rocks_Store.thy ===== *)
theory Rocks_Store
  imports Hot_Cache
begin

text \<open>
  The engine over an embedded database (\<^verbatim>\<open>src/src/store_rocks.cpp\<close>). The database is a parameter, the record
  \<open>'d rocks_db\<close> of the calls the source makes, with what is documented about them as the predicate \<open>rocks_ok\<close>; the merge operator
  and the compaction filter the source hands to it are defined here. The lemmas show that the merge
  operator adds, that the cache never shows through as long as calls do not overlap, what two pairs of calls do that overlap, and
  that a bulk creation can lose a link.
\<close>

section \<open>Definitions\<close>

text \<open>Eight bytes as a number, least significant first, as \<^verbatim>\<open>memcpy\<close> reads and writes them.\<close>

fun le_bytes :: "nat \<Rightarrow> nat \<Rightarrow> string" where
  "le_bytes 0 n = []"
| "le_bytes (Suc k) n = char_of (n mod 256) # le_bytes k (n div 256)"

fun le_val :: "string \<Rightarrow> nat" where
  "le_val [] = 0"
| "le_val (c # s) = of_char c + 256 * le_val s"

definition u64_of :: "string \<Rightarrow> 64 word" where
  "u64_of s = (if 8 \<le> length s then of_nat (le_val (take 8 s)) else 0)"

definition u64_bytes :: "64 word \<Rightarrow> string" where
  "u64_bytes w = le_bytes 8 (unat w)"

definition Merge :: "string option \<Rightarrow> string \<Rightarrow> string" where
  "Merge existing v = u64_bytes ((case existing of Some e \<Rightarrow> u64_of e | None \<Rightarrow> 0) + u64_of v)"

definition Filter :: "i64 \<Rightarrow> string \<Rightarrow> bool" where
  "Filter now v = (case dec v of None \<Rightarrow> False | Some (e, c, u) \<Rightarrow> e \<noteq> 0 \<and> e \<le> now)"

text \<open>What a write batch holds, and the calls on the database: point reads of the two column families, writes, iteration, compaction.\<close>

datatype wop = Put_link string string | Delete_link string | Delete_hits string | Merge_hits string string

record 'd rocks_db =
  rget :: "'d \<Rightarrow> string \<Rightarrow> string option"
  rhits :: "'d \<Rightarrow> string \<Rightarrow> string option"
  rput :: "string \<Rightarrow> string \<Rightarrow> 'd \<Rightarrow> bool \<times> 'd"
  rwrite :: "wop list \<Rightarrow> 'd \<Rightarrow> bool \<times> 'd"
  riter :: "'d \<Rightarrow> (string \<times> string) list"
  rcompact :: "(string \<Rightarrow> bool) \<Rightarrow> 'd \<Rightarrow> 'd"
  rprobe :: "'d \<Rightarrow> bool"

record 'd rocks =
  rk_db :: 'd
  rk_cache :: kv_cache
  rk_cap :: nat
  rk_ttl :: i64
  rk_dirty :: "nat \<Rightarrow> (string, i64) umap"
  rk_inst :: int
  rk_prefix :: char
  rk_rng :: nat
  rk_stop :: bool
  rk_mets :: metrics

text \<open>
  Opening the database: \<open>listed\<close> is what is known of the column families of an existing one, \<open>opened\<close> what opening it with the given families gives.
  Both families the engine uses must be among them.
\<close>

definition rk_families :: "string list option \<Rightarrow> string list" where
  "rk_families listed = (case listed of Some cfs \<Rightarrow> cfs | None \<Rightarrow> [''default'', ''links'', ''hits''])"

definition RocksInnerImpl ::
  "int \<Rightarrow> nat \<Rightarrow> i64 \<Rightarrow> metrics \<Rightarrow> string list option \<Rightarrow> (string list \<Rightarrow> string + 'd) \<Rightarrow> string + 'd rocks"
where
  "RocksInnerImpl i cache_entries cttl mets listed opened =
     (let cfs = rk_families listed
      in case opened cfs of
           Inl e \<Rightarrow> Inl (''rocksdb open: '' @ e)
         | Inr d \<Rightarrow>
             if \<not> (''links'' \<in> set cfs \<and> ''hits'' \<in> set cfs) then Inl ''rocksdb: missing CFs''
             else
               Inr \<lparr>rk_db = d, rk_cache = cache0, rk_cap = cap_per_shard cache_entries, rk_ttl = cttl, rk_dirty = (\<lambda>_. []),
                 rk_inst = kv_instance i, rk_prefix = ALPHABET ! nat (kv_instance i), rk_rng = 0, rk_stop = False, rk_mets = mets\<rparr>)"

definition rk_flush_hits :: "'d rocks_db \<Rightarrow> 'd rocks \<Rightarrow> 'd rocks" where
  "rk_flush_hits db s =
     (let wb = map (\<lambda>(code, n). Merge_hits code (u64_bytes (word_of_int n))) (concat (map (rk_dirty s) [0..<KV_SHARDS]));
          s = s\<lparr>rk_dirty := (\<lambda>i. if i < KV_SHARDS then [] else rk_dirty s i)\<rparr>
      in if wb \<noteq> [] then s\<lparr>rk_db := snd (rwrite db wb (rk_db s))\<rparr> else s)"

definition rk_flusher_turn :: "'d rocks_db \<Rightarrow> 'd rocks \<Rightarrow> 'd rocks" where
  "rk_flusher_turn db s = (if rk_stop s then s else rk_flush_hits db s)"

definition rk_close :: "'d rocks_db \<Rightarrow> 'd rocks \<Rightarrow> 'd rocks" where
  "rk_close db s = rk_flush_hits db (s\<lparr>rk_stop := True\<rparr>)"

definition rk_bump :: "environ \<Rightarrow> string \<Rightarrow> 'd rocks \<Rightarrow> 'd rocks" where
  "rk_bump env code s = (if track_hits env then s\<lparr>rk_dirty := dirty_put code (rk_dirty s)\<rparr> else s)"

definition rk_healthy :: "'d rocks_db \<Rightarrow> 'd rocks \<Rightarrow> bool" where
  "rk_healthy db s = rprobe db (rk_db s)"

definition rk_cached_put :: "i64 \<Rightarrow> string \<Rightarrow> string \<Rightarrow> i64 \<Rightarrow> 'd rocks \<Rightarrow> 'd rocks" where
  "rk_cached_put now code u e s = s\<lparr>rk_cache := cache_put (rk_cap s) now code u e (rk_cache s)\<rparr>"

definition db_hits :: "'d rocks_db \<Rightarrow> 'd rocks \<Rightarrow> string \<Rightarrow> i64" where
  "db_hits db s code =
     (case rhits db (rk_db s) code of None \<Rightarrow> 0 | Some v \<Rightarrow> if length v < 8 then 0 else sint (u64_of v))"

text \<open>
  A lookup has two halves that no lock joins: it looks in the cache and reads the database, and then puts what it has read into the cache.
\<close>

definition rk_look :: "'d rocks_db \<Rightarrow> i64 \<Rightarrow> i64 \<Rightarrow> string \<Rightarrow> 'd rocks \<Rightarrow> (string + string option) \<times> 'd rocks" where
  "rk_look db now us code s =
     (case cache_get (rk_ttl s) now code (rk_cache s) of
        (Some u, cache) \<Rightarrow> (Inl u, s\<lparr>rk_cache := cache, rk_mets := cache_hit (rk_mets s)\<rparr>)
      | (None, cache) \<Rightarrow>
          (Inr (rget db (rk_db s) code), s\<lparr>rk_cache := cache, rk_mets := store_read us (cache_miss (rk_mets s))\<rparr>))"

definition rk_fill :: "environ \<Rightarrow> (nat \<Rightarrow> i64) \<Rightarrow> string \<Rightarrow> string option \<Rightarrow> 'd rocks \<Rightarrow> string option \<times> 'd rocks" where
  "rk_fill env clk code v s =
     (case v of
        None \<Rightarrow> (None, s)
      | Some v \<Rightarrow>
          (case dec v of
             None \<Rightarrow> (None, s)
           | Some (e, c, u) \<Rightarrow>
               if e \<noteq> 0 \<and> e \<le> clk 1 then (None, s)
               else (Some u, rk_bump env code (rk_cached_put (clk 2) code u e s))))"

definition rk_resolve :: "'d rocks_db \<Rightarrow> environ \<Rightarrow> (nat \<Rightarrow> i64) \<Rightarrow> i64 \<Rightarrow> string \<Rightarrow> 'd rocks \<Rightarrow> string option \<times> 'd rocks" where
  "rk_resolve db env clk us code s =
     (case rk_look db (clk 0) us code s of
        (Inl u, s) \<Rightarrow> (Some u, rk_bump env code s)
      | (Inr v, s) \<Rightarrow> rk_fill env clk code v s)"

lemmas rk_resolve_parts = rk_resolve_def rk_look_def rk_fill_def

text \<open>
  A creation has two halves as well: the test that the code is not taken, and the store. Between them comes the loop that draws codes.
\<close>

definition rk_taken :: "'d rocks_db \<Rightarrow> string \<Rightarrow> 'd rocks \<Rightarrow> bool" where
  "rk_taken db code s \<longleftrightarrow> rget db (rk_db s) code \<noteq> None"

definition rk_store :: "'d rocks_db \<Rightarrow> i64 \<Rightarrow> i64 \<Rightarrow> i64 \<Rightarrow> string \<Rightarrow> string \<Rightarrow> 'd rocks \<Rightarrow> string option \<times> 'd rocks" where
  "rk_store db now now2 ex code url s =
     (let (ok, d) = rput db code (enc ex now url) (rk_db s); s = s\<lparr>rk_db := d\<rparr>
      in if \<not> ok then (None, s) else (Some code, rk_cached_put now2 code url ex s))"

partial_function (option) rk_new_code :: "'d rocks_db \<Rightarrow> (nat \<Rightarrow> nat) \<Rightarrow> 'd rocks \<Rightarrow> (string \<times> 'd rocks) option" where
  "rk_new_code db draws s =
     (let (c, n) = kv_gen_code draws (rk_prefix s) (rk_rng s); s = s\<lparr>rk_rng := n\<rparr>
      in if rk_taken db c s then rk_new_code db draws s else Some (c, s))"

definition rk_shorten ::
  "'d rocks_db \<Rightarrow> (nat \<Rightarrow> nat) \<Rightarrow> i64 \<Rightarrow> i64 \<Rightarrow> string \<Rightarrow> string option \<Rightarrow> i64 \<Rightarrow> 'd rocks \<Rightarrow> (string option \<times> 'd rocks) option"
where
  "rk_shorten db draws now now2 url alias ttl_ms s =
     (let s = s\<lparr>rk_mets := store_write (rk_mets s)\<rparr>; ex = expiry now ttl_ms
      in case alias of
           Some al \<Rightarrow> if rk_taken db al s then Some (None, s) else Some (rk_store db now now2 ex al url s)
         | None \<Rightarrow> (case rk_new_code db draws s of None \<Rightarrow> None | Some (c, s) \<Rightarrow> Some (rk_store db now now2 ex c url s)))"

text \<open>Bulk creation: draw a code for each URL, write the free ones in one batch, and store the others one by one. An empty code marks those.\<close>

fun rk_draw :: "'d rocks_db \<Rightarrow> (nat \<Rightarrow> nat) \<Rightarrow> char \<Rightarrow> 'd \<Rightarrow> nat \<Rightarrow> nat \<Rightarrow> string list \<times> nat" where
  "rk_draw db draws p d 0 n = ([], n)"
| "rk_draw db draws p d (Suc k) n =
     (let (c, n) = kv_gen_code draws p n; (cs, n) = rk_draw db draws p d k n
      in ((if rget db d c \<noteq> None then [] else c) # cs, n))"

fun rk_settle ::
  "'d rocks_db \<Rightarrow> (nat \<Rightarrow> nat) \<Rightarrow> (nat \<Rightarrow> i64) \<Rightarrow> i64 \<Rightarrow> i64 \<Rightarrow> bool \<Rightarrow> nat \<Rightarrow> (string \<times> string) list \<Rightarrow> 'd rocks \<Rightarrow> (string list \<times> 'd rocks) option"
where
  "rk_settle db draws clk ex ttl_ms ok i [] s = Some ([], s)"
| "rk_settle db draws clk ex ttl_ms ok i ((c, u) # ps) s =
     (if c = [] \<or> \<not> ok then
        (case rk_shorten db draws (clk i) (clk (Suc i)) u None ttl_ms s of
           None \<Rightarrow> None
         | Some (c2, s) \<Rightarrow>
             map_option (\<lambda>(cs, s). ((case c2 of Some c2 \<Rightarrow> c2 | None \<Rightarrow> c) # cs, s)) (rk_settle db draws clk ex ttl_ms ok (i + 2) ps s))
      else map_option (\<lambda>(cs, s). (c # cs, s)) (rk_settle db draws clk ex ttl_ms ok (i + 2) ps (rk_cached_put (clk i) c u ex s)))"

definition rk_shorten_many ::
  "'d rocks_db \<Rightarrow> (nat \<Rightarrow> nat) \<Rightarrow> (nat \<Rightarrow> i64) \<Rightarrow> string list \<Rightarrow> i64 \<Rightarrow> 'd rocks \<Rightarrow> (string list \<times> 'd rocks) option"
where
  "rk_shorten_many db draws clk urls ttl_ms s =
     (let now = clk 0; ex = expiry now ttl_ms;
          (codes, n) = rk_draw db draws (rk_prefix s) (rk_db s) (length urls) (rk_rng s);
          wb = map (\<lambda>(c, u). Put_link c (enc ex now u)) (filter (\<lambda>(c, u). c \<noteq> []) (zip codes urls));
          (ok, d) = rwrite db wb (rk_db s)
      in rk_settle db draws clk ex ttl_ms ok 1 (zip codes urls) (s\<lparr>rk_rng := n, rk_db := d\<rparr>))"

definition rk_update ::
  "'d rocks_db \<Rightarrow> i64 \<Rightarrow> string \<Rightarrow> string \<Rightarrow> i64 \<Rightarrow> bool \<Rightarrow> 'd rocks \<Rightarrow> mut_result \<times> 'd rocks"
where
  "rk_update db now code url ttl_ms has_ttl s =
     (case rget db (rk_db s) code of
        None \<Rightarrow> (Missing, s)
      | Some v \<Rightarrow>
          (case dec v of
             None \<Rightarrow> (Missing, s)
           | Some (e, c, us) \<Rightarrow>
               (let ex = (if \<not> has_ttl then e else expiry now ttl_ms);
                    (ok, d) = rput db code (enc ex c url) (rk_db s); s = s\<lparr>rk_db := d\<rparr>
                in if \<not> ok then (Missing, s) else (Ok, s\<lparr>rk_cache := cache_del code (rk_cache s)\<rparr>))))"

definition rk_remove :: "'d rocks_db \<Rightarrow> string \<Rightarrow> 'd rocks \<Rightarrow> mut_result \<times> 'd rocks" where
  "rk_remove db code s =
     (if rget db (rk_db s) code = None then (Missing, s)
      else (Ok, s\<lparr>rk_db := snd (rwrite db [Delete_link code, Delete_hits code] (rk_db s)), rk_cache := cache_del code (rk_cache s)\<rparr>))"

definition rk_list ::
  "'d rocks_db \<Rightarrow> ((link \<Rightarrow> link \<Rightarrow> bool) \<Rightarrow> link list \<Rightarrow> link list) \<Rightarrow> i64 \<Rightarrow> nat \<Rightarrow> nat \<Rightarrow> string \<Rightarrow> string \<Rightarrow> 'd rocks \<Rightarrow> link list \<times> nat"
where
  "rk_list db srt now limit offset ord q s =
     (let items = concat (map (\<lambda>(code, v).
            case dec v of
              None \<Rightarrow> []
            | Some (e, c, u) \<Rightarrow>
                if e \<noteq> 0 \<and> e \<le> now then []
                else if q \<noteq> [] \<and> \<not> contains code q \<and> \<not> contains u q then []
                else [\<lparr>l_code = code, l_url = u, l_hits = db_hits db s code, l_created_at = c, l_expires_at = e\<rparr>]) (riter db (rk_db s)));
          items = srt (by_sort ord) items
      in paginate limit offset items)"

text \<open>Reading the hits of a code not yet flushed inserts a zero for it.\<close>

definition rk_stats :: "'d rocks_db \<Rightarrow> i64 \<Rightarrow> string \<Rightarrow> 'd rocks \<Rightarrow> link option \<times> 'd rocks" where
  "rk_stats db now code s =
     (case rget db (rk_db s) code of
        None \<Rightarrow> (None, s)
      | Some v \<Rightarrow>
          (case dec v of
             None \<Rightarrow> (None, s)
           | Some (e, c, u) \<Rightarrow>
               if e \<noteq> 0 \<and> e \<le> now then (None, s)
               else
                 (let i = kv_shard_of code; m = um_emplace code 0 (rk_dirty s i)
                  in (Some \<lparr>l_code = code, l_url = u, l_hits = add64 (db_hits db s code) (um_get 0 m code), l_created_at = c, l_expires_at = e\<rparr>,
                      s\<lparr>rk_dirty := (rk_dirty s)(i := m)\<rparr>))))"

definition rk_seed :: "'d rocks_db \<Rightarrow> (nat \<Rightarrow> nat) \<Rightarrow> (nat \<Rightarrow> i64) \<Rightarrow> string list \<Rightarrow> 'd rocks \<Rightarrow> (nat \<times> 'd rocks) option" where
  "rk_seed db draws clk urls s =
     map_option (\<lambda>(codes, s). (length urls, rk_flush_hits db s)) (rk_shorten_many db draws clk urls 0 s)"

definition rk_empty :: "'d rocks_db \<Rightarrow> 'd rocks \<Rightarrow> bool" where
  "rk_empty db s = (riter db (rk_db s) = [])"

definition rk_compact :: "'d rocks_db \<Rightarrow> i64 \<Rightarrow> 'd rocks \<Rightarrow> 'd rocks" where
  "rk_compact db now s = s\<lparr>rk_db := rcompact db (Filter now) (rk_db s)\<rparr>"

section \<open>The merge operator adds\<close>

lemma le_val_bytes: "le_val (le_bytes k n) = n mod 256 ^ k"
proof (induction k arbitrary: n)
  case (Suc k)
  have "of_char (char_of (n mod 256) :: char) = n mod 256" by simp
  then show ?case using Suc mod_mult2_eq [of n 256 "256 ^ k"] by simp
qed simp

lemma length_le_bytes [simp]: "length (le_bytes k n) = k"
  by (induction k arbitrary: n) simp_all

lemma u64_of_bytes [simp]: "u64_of (u64_bytes w) = w"
proof -
  have "unat w < 256 ^ 8" using unsigned_less [where 'a = nat, of w] by simp
  then show ?thesis by (simp add: u64_of_def u64_bytes_def le_val_bytes)
qed

lemma u64_of_Merge: "u64_of (Merge e v) = (case e of Some e \<Rightarrow> u64_of e | None \<Rightarrow> 0) + u64_of v"
  by (simp add: Merge_def)

text \<open>
  The merge operator of the hit counters is associative, as its kind demands of it: the database may combine the
  deltas in any grouping. Whatever the counter held, merging deltas into it adds their sum, modulo \<open>2 ^ 64\<close>.
\<close>

lemma merge_adds:
  "Merge (Some (Merge e a)) b = Merge e (Merge (Some a) b) \<and>
   u64_of (fold (\<lambda>n v. Merge (Some v) (u64_bytes (word_of_int n))) ns v) = u64_of v + word_of_int (sum_list ns)"
proof
  show "Merge (Some (Merge e a)) b = Merge e (Merge (Some a) b)" by (simp add: Merge_def add.assoc split: option.split)
  show "u64_of (fold (\<lambda>n v. Merge (Some v) (u64_bytes (word_of_int n))) ns v) = u64_of v + word_of_int (sum_list ns)"
    by (induction ns arbitrary: v) (simp_all add: u64_of_Merge add.assoc)
qed

section \<open>The cache never shows through\<close>

text \<open>
  The documented behaviour of the database: a write that succeeds has its effect, in order and with the merge operator for
  the counters, one that fails has none; compaction drops nothing but links the filter condemns.
\<close>

fun wop_link :: "wop \<Rightarrow> (string \<rightharpoonup> string) \<Rightarrow> string \<rightharpoonup> string" where
  "wop_link (Put_link c v) m = m(c \<mapsto> v)"
| "wop_link (Delete_link c) m = m(c := None)"
| "wop_link _ m = m"

fun wop_hits :: "wop \<Rightarrow> (string \<rightharpoonup> string) \<Rightarrow> string \<rightharpoonup> string" where
  "wop_hits (Delete_hits c) m = m(c := None)"
| "wop_hits (Merge_hits c v) m = m(c \<mapsto> Merge (m c) v)"
| "wop_hits _ m = m"

definition rocks_ok :: "'d rocks_db \<Rightarrow> bool" where
  "rocks_ok db \<longleftrightarrow>
     (\<forall>k v d. rget db (snd (rput db k v d)) = (if fst (rput db k v d) then (rget db d)(k \<mapsto> v) else rget db d)) \<and>
     (\<forall>ops d. rget db (snd (rwrite db ops d)) = (if fst (rwrite db ops d) then fold wop_link ops (rget db d) else rget db d) \<and>
        rhits db (snd (rwrite db ops d)) = (if fst (rwrite db ops d) then fold wop_hits ops (rhits db d) else rhits db d)) \<and>
     (\<forall>P d k. rget db (rcompact db P d) k = rget db d k \<or>
        rget db (rcompact db P d) k = None \<and> (\<exists>v. rget db d k = Some v \<and> P v))"

lemma rocks_okD:
  assumes "rocks_ok db"
  shows "rput db k v d = (ok, d') \<Longrightarrow> rget db d' = (if ok then (rget db d)(k \<mapsto> v) else rget db d)"
    and "rwrite db ops d = (ok, d') \<Longrightarrow> rget db d' = (if ok then fold wop_link ops (rget db d) else rget db d)"
    and "rget db (rcompact db P d) k = rget db d k \<or> rget db (rcompact db P d) k = None \<and> (\<exists>v. rget db d k = Some v \<and> P v)"
proof -
  have a: "rget db (snd (rput db k v d)) = (if fst (rput db k v d) then (rget db d)(k \<mapsto> v) else rget db d)"
    "rget db (snd (rwrite db ops d)) = (if fst (rwrite db ops d) then fold wop_link ops (rget db d) else rget db d)"
    using assms unfolding rocks_ok_def by blast+
  show "rput db k v d = (ok, d') \<Longrightarrow> rget db d' = (if ok then (rget db d)(k \<mapsto> v) else rget db d)"
    "rwrite db ops d = (ok, d') \<Longrightarrow> rget db d' = (if ok then fold wop_link ops (rget db d) else rget db d)" using a by simp_all
  show "rget db (rcompact db P d) k = rget db d k \<or> rget db (rcompact db P d) k = None \<and> (\<exists>v. rget db d k = Some v \<and> P v)"
    using assms unfolding rocks_ok_def by blast
qed

definition rk_holds :: "'d rocks_db \<Rightarrow> 'd rocks \<Rightarrow> string \<Rightarrow> (string \<times> i64) option" where
  "rk_holds db s c =
     (case rget db (rk_db s) c of None \<Rightarrow> None | Some v \<Rightarrow> (case dec v of None \<Rightarrow> None | Some (e, k, u) \<Rightarrow> Some (u, e)))"

text \<open>Every entry of the cache, but for the codes \<open>X\<close>, is the link of the database, or it had expired by the time \<open>T\<close>.\<close>

definition coherent :: "'d rocks_db \<Rightarrow> i64 \<Rightarrow> string set \<Rightarrow> 'd rocks \<Rightarrow> bool" where
  "coherent db T X s \<longleftrightarrow>
     (\<forall>c it. c \<notin> X \<longrightarrow> cached (rk_cache s) c = Some it \<longrightarrow>
        rk_holds db s c = Some (ce_u it, ce_e it) \<or> ce_e it \<noteq> 0 \<and> ce_e it \<le> T)"

lemma coherentI:
  assumes "coherent db T X s" and "T \<le> T'"
    and "\<And>c it. c \<notin> X \<Longrightarrow> cached (rk_cache s') c = Some it \<Longrightarrow>
      cached (rk_cache s) c = Some it \<and> (rk_holds db s' c = rk_holds db s c \<or> ce_e it \<noteq> 0 \<and> ce_e it \<le> T') \<or>
      rk_holds db s' c = Some (ce_u it, ce_e it)"
  shows "coherent db T' X s'"
  unfolding coherent_def
proof (intro allI impI)
  fix c it
  assume c: "c \<notin> X" "cached (rk_cache s') c = Some it"
  from assms(3) [OF c] consider "cached (rk_cache s) c = Some it" "rk_holds db s' c = rk_holds db s c" | "ce_e it \<noteq> 0 \<and> ce_e it \<le> T'"
    | "rk_holds db s' c = Some (ce_u it, ce_e it)" by blast
  then show "rk_holds db s' c = Some (ce_u it, ce_e it) \<or> ce_e it \<noteq> 0 \<and> ce_e it \<le> T'"
    using c(1) assms(1,2) by cases (fastforce simp: coherent_def)+
qed

lemma coherent_frame: "coherent db T X s \<Longrightarrow> T \<le> T' \<Longrightarrow> rk_cache s' = rk_cache s \<Longrightarrow> rget db (rk_db s') = rget db (rk_db s) \<Longrightarrow> coherent db T' X s'"
  by (rule coherentI) (auto simp: rk_holds_def)

lemma rk_fields [simp]:
  "rk_cache (rk_bump env c s) = rk_cache s" "rk_db (rk_bump env c s) = rk_db s" "rk_db (rk_cached_put now c u e s) = rk_db s"
  by (simp_all add: rk_bump_def rk_cached_put_def)

lemma coherent_put:
  assumes "coherent db T X s" and "c \<notin> X \<Longrightarrow> rk_holds db s c = Some (u, e)"
  shows "coherent db T X (rk_cached_put now c u e s)"
proof (rule coherentI [OF assms(1) order_refl])
  fix x it
  assume X: "x \<notin> X" and "cached (rk_cache (rk_cached_put now c u e s)) x = Some it"
  from cached_put [OF this(2) [unfolded rk_cached_put_def, simplified]]
  show "cached (rk_cache s) x = Some it \<and> (rk_holds db (rk_cached_put now c u e s) x = rk_holds db s x \<or> ce_e it \<noteq> 0 \<and> ce_e it \<le> T) \<or>
      rk_holds db (rk_cached_put now c u e s) x = Some (ce_u it, ce_e it)"
    using assms(2) X by (auto simp: rk_holds_def split: if_splits)
qed

lemma coherent_resolve:
  assumes "coherent db T X s"
  shows "coherent db T X (snd (rk_resolve db env clk us c s))"
proof -
  obtain a cache where g: "cache_get (rk_ttl s) (clk 0) c (rk_cache s) = (a, cache)" by force
  have "cached cache x = Some it \<Longrightarrow> cached (rk_cache s) x = Some it" for x it using cached_get [of "rk_ttl s" "clk 0" c "rk_cache s" x it] g by simp
  then have c: "coherent db T X (s\<lparr>rk_cache := cache, rk_mets := m\<rparr>)" for m by (intro coherentI [OF assms]) (auto simp: rk_holds_def)
  have b: "coherent db T X t \<Longrightarrow> coherent db T X (rk_bump env c t)" for t by (erule coherent_frame) simp_all
  show ?thesis
  proof (cases a)
    case (Some u)
    then show ?thesis using g c b by (simp add: rk_resolve_parts)
  next
    case None
    let ?s = "s\<lparr>rk_cache := cache, rk_mets := store_read us (cache_miss (rk_mets s))\<rparr>"
    have "coherent db T X (rk_bump env c (rk_cached_put (clk 2) c u e ?s))" if "rget db (rk_db s) c = Some v" "dec v = Some (e, k, u)" for v e k u
      using b [OF coherent_put [OF c]] that by (simp add: rk_holds_def)
    then show ?thesis using g c None by (auto simp: rk_resolve_parts Let_def split: option.splits)
  qed
qed

lemma coherent_store:
  assumes "rocks_ok db" and "coherent db T X s" and "in_i64 now" and "in_i64 ex"
  shows "coherent db T X (snd (rk_store db now now2 ex c u s))"
proof -
  obtain ok d where p: "rput db c (enc ex now u) (rk_db s) = (ok, d)" by force
  have g: "rget db d = (if ok then (rget db (rk_db s))(c \<mapsto> enc ex now u) else rget db (rk_db s))"
    by (rule rocks_okD(1) [OF assms(1) p])
  show ?thesis
  proof (cases ok)
    case True
    have h: "rk_holds db (s\<lparr>rk_db := d\<rparr>) x = (if x = c then Some (u, ex) else rk_holds db s x)" for x
      using g True dec_enc [OF assms(4,3)] by (simp add: rk_holds_def)
    show ?thesis
    proof (rule coherentI [OF assms(2) order_refl])
      fix x it
      assume "cached (rk_cache (snd (rk_store db now now2 ex c u s))) x = Some it"
      then have "if x = c then it = \<lparr>ce_u = u, ce_e = ex, ce_at = now2\<rparr> else cached (rk_cache s) x = Some it"
        using True p cached_put [of "rk_cap s" now2 c u ex "rk_cache s" x it] by (simp add: rk_store_def rk_cached_put_def)
      moreover have "rk_holds db (snd (rk_store db now now2 ex c u s)) x = rk_holds db (s\<lparr>rk_db := d\<rparr>) x"
        using True p by (simp add: rk_store_def rk_holds_def)
      ultimately show "cached (rk_cache s) x = Some it \<and> (rk_holds db (snd (rk_store db now now2 ex c u s)) x = rk_holds db s x \<or> ce_e it \<noteq> 0 \<and> ce_e it \<le> T) \<or>
          rk_holds db (snd (rk_store db now now2 ex c u s)) x = Some (ce_u it, ce_e it)" using h [of x] by (auto split: if_splits)
    qed
  next
    case False
    then show ?thesis using assms(2) g p by (auto simp: rk_store_def intro: coherent_frame)
  qed
qed

lemma rk_new_code_free:
  assumes "rk_new_code db draws s = Some (c, s')"
  shows "rget db (rk_db s) c = None" "\<exists>n. s' = s\<lparr>rk_rng := n\<rparr>"
proof -
  let ?Q = "\<lambda>db (draws :: nat \<Rightarrow> nat) s y. rget db (rk_db s) (fst y) = None \<and> (\<exists>n. snd y = s\<lparr>rk_rng := n\<rparr>)"
  have "?Q db draws s (c, s')"
  proof (rule rk_new_code.raw_induct [where P = ?Q, OF _ assms])
    fix f db draws s y
    assume IH: "\<And>db draws s y. f db draws s = Some y \<Longrightarrow> ?Q db draws s y"
      and eq: "(let (c, n) = kv_gen_code draws (rk_prefix s) (rk_rng s); s = s\<lparr>rk_rng := n\<rparr>
        in if rk_taken db c s then f db draws s else Some (c, s)) = Some y"
    obtain c n where g: "kv_gen_code draws (rk_prefix s) (rk_rng s) = (c, n)" by force
    show "?Q db draws s y" using IH [of db draws "s\<lparr>rk_rng := n\<rparr>" y] eq g by (auto simp: rk_taken_def Let_def split: if_splits)
  qed
  then show "rget db (rk_db s) c = None" "\<exists>n. s' = s\<lparr>rk_rng := n\<rparr>" by simp_all
qed

lemma rk_shortenD:
  assumes "rk_shorten db draws now now2 u al ttl s = Some (r, s')"
  shows "\<exists>t c. rk_cache t = rk_cache s \<and> rk_db t = rk_db s \<and>
    (s' = t \<or> rget db (rk_db t) c = None \<and> s' = snd (rk_store db now now2 (expiry now ttl) c u t))"
proof (cases al)
  case None
  then obtain c t where n: "rk_new_code db draws (s\<lparr>rk_mets := store_write (rk_mets s)\<rparr>) = Some (c, t)"
    "s' = snd (rk_store db now now2 (expiry now ttl) c u t)" using assms by (auto simp: rk_shorten_def rk_taken_def Let_def split: option.splits)
  from rk_new_code_free [OF n(1)] n(2) show ?thesis by (intro exI [of _ t] exI [of _ c]) auto
next
  case (Some c)
  then show ?thesis using assms
    by (intro exI [of _ "s\<lparr>rk_mets := store_write (rk_mets s)\<rparr>"] exI [of _ c]) (auto simp: rk_shorten_def rk_taken_def Let_def split: if_splits)
qed

lemma coherent_shorten:
  assumes "rocks_ok db" and "coherent db T X s" and "in_i64 now" and "rk_shorten db draws now now2 u al ttl s = Some (r, s')"
  shows "coherent db T X s'" "rget db (rk_db s) x \<noteq> None \<Longrightarrow> rk_holds db s' x = rk_holds db s x"
proof -
  from rk_shortenD [OF assms(4)] obtain t c where t: "rk_cache t = rk_cache s" "rk_db t = rk_db s"
    "s' = t \<or> rget db (rk_db t) c = None \<and> s' = snd (rk_store db now now2 (expiry now ttl) c u t)" by blast
  have "coherent db T X t" using assms(2) by (rule coherent_frame) (use t in simp_all)
  then show "coherent db T X s'" using t(3) coherent_store [OF assms(1) _ assms(3) in_i64_expiry] by auto
  obtain ok d where p: "rput db c (enc (expiry now ttl) now u) (rk_db t) = (ok, d)" by force
  show "rk_holds db s' x = rk_holds db s x" if "rget db (rk_db s) x \<noteq> None"
  proof -
    have "rk_db (snd (rk_store db now now2 (expiry now ttl) c u t)) = d" using p by (simp add: rk_store_def Let_def)
    then have "rget db (rk_db s') x = rget db (rk_db s) x" using t that rocks_okD(1) [OF assms(1) p] by (auto split: if_splits)
    then show ?thesis by (simp add: rk_holds_def)
  qed
qed

text \<open>The codes a bulk creation wrote in its batch, with the URLs that have still to be put into the cache.\<close>

definition to_put :: "bool \<Rightarrow> (string \<times> string) list \<Rightarrow> (string \<times> string) list" where
  "to_put ok ps = (if ok then filter (\<lambda>(c, u). c \<noteq> []) ps else [])"

lemma coherent_insert:
  assumes "coherent db T (insert c X) s" and "cached (rk_cache s) c = Some it" and "rk_holds db s c = Some (ce_u it, ce_e it)"
  shows "coherent db T X s"
  unfolding coherent_def
proof (intro allI impI)
  fix x j
  assume x: "x \<notin> X" "cached (rk_cache s) x = Some j"
  show "rk_holds db s x = Some (ce_u j, ce_e j) \<or> ce_e j \<noteq> 0 \<and> ce_e j \<le> T"
  proof (cases "x = c")
    case True
    then show ?thesis using assms(2,3) x(2) by simp
  next
    case False
    then show ?thesis using assms(1) x unfolding coherent_def by blast
  qed
qed

lemma coherent_settle:
  assumes "rocks_ok db" and "\<And>i. in_i64 (clk i)"
    and "rk_settle db draws clk ex ttl ok i ps s = Some (codes, s')"
    and "coherent db T (fst ` set (to_put ok ps)) s"
    and "\<And>c u. map_of (rev (to_put ok ps)) c = Some u \<Longrightarrow> rk_holds db s c = Some (u, ex)"
  shows "coherent db T {} s'"
  using assms(3-5)
proof (induction ps arbitrary: i s codes)
  case Nil
  then show ?case by (simp add: to_put_def)
next
  case (Cons p ps)
  obtain c u where p: "p = (c, u)" by force
  show ?case
  proof (cases "c = [] \<or> \<not> ok")
    case True
    then obtain r s1 cs where sh: "rk_shorten db draws (clk i) (clk (Suc i)) u None ttl s = Some (r, s1)"
      and st: "rk_settle db draws clk ex ttl ok (i + 2) ps s1 = Some (cs, s')"
      using Cons.prems(1) by (auto simp: p split: option.splits)
    have tp: "to_put ok (p # ps) = to_put ok ps" using True by (auto simp: to_put_def p)
    note cs = coherent_shorten [OF assms(1) Cons.prems(2) [unfolded tp] assms(2) sh]
    have "rk_holds db s1 x = Some (v, ex)" if "map_of (rev (to_put ok ps)) x = Some v" for x v
    proof -
      have "rk_holds db s x = Some (v, ex)" using Cons.prems(3) that by (simp add: tp)
      moreover from this have "rget db (rk_db s) x \<noteq> None" by (auto simp: rk_holds_def split: option.splits)
      ultimately show ?thesis using cs(2) by simp
    qed
    from Cons.IH [OF st cs(1) this] show ?thesis .
  next
    case False
    let ?s = "rk_cached_put (clk i) c u ex s"
    obtain cs where st: "rk_settle db draws clk ex ttl ok (i + 2) ps ?s = Some (cs, s')" using False Cons.prems(1) by (auto simp: p)
    have tp: "to_put ok (p # ps) = (c, u) # to_put ok ps" using False by (auto simp: to_put_def p)
    have "coherent db T (fst ` set (to_put ok ps)) ?s"
    proof (cases "c \<in> fst ` set (to_put ok ps)")
      case True
      then have "coherent db T (fst ` set (to_put ok ps)) s" using Cons.prems(2) by (simp add: tp insert_absorb)
      then show ?thesis using True by (intro coherent_put) simp_all
    next
      case False
      then have n: "map_of (rev (to_put ok ps)) c = None" by (simp add: map_of_eq_None_iff)
      then have h: "rk_holds db s c = Some (u, ex)" using Cons.prems(3) [of c u] by (simp add: tp map_add_Some_iff)
      have "coherent db T (insert c (fst ` set (to_put ok ps))) ?s" using Cons.prems(2) by (intro coherent_put) (simp_all add: tp)
      moreover have "cached (rk_cache ?s) c = Some \<lparr>ce_u = u, ce_e = ex, ce_at = clk i\<rparr>" by (simp add: rk_cached_put_def cached_put_same)
      moreover have "rk_holds db ?s c = Some (u, ex)" using h by (simp add: rk_holds_def)
      ultimately show ?thesis using coherent_insert [where it = "\<lparr>ce_u = u, ce_e = ex, ce_at = clk i\<rparr>"] by simp
    qed
    moreover have "rk_holds db ?s x = Some (v, ex)" if "map_of (rev (to_put ok ps)) x = Some v" for x v
      using Cons.prems(3) [of x v] that by (simp add: tp rk_holds_def map_add_Some_iff)
    ultimately show ?thesis using Cons.IH [OF st] by blast
  qed
qed

lemma rk_draw_length: "length (fst (rk_draw db draws p d k n)) = k"
  by (induction k arbitrary: n) (simp_all add: Let_def case_prod_beta)

lemma put_links: "fold wop_link (map (\<lambda>(c, u). Put_link c (f u)) ps) m = m ++ (map_option f \<circ> map_of (rev ps))"
proof (induction ps arbitrary: m)
  case (Cons p ps)
  then show ?case by (cases p) (auto simp: fun_eq_iff map_add_def split: option.split)
qed (simp add: comp_def)

lemma coherent_shorten_many:
  assumes "rocks_ok db" and "coherent db T {} s" and "\<And>i. in_i64 (clk i)" and "rk_shorten_many db draws clk urls ttl s = Some (codes, s')"
  shows "coherent db T {} s'"
proof -
  obtain cs n where dr: "rk_draw db draws (rk_prefix s) (rk_db s) (length urls) (rk_rng s) = (cs, n)" by force
  let ?ex = "expiry (clk 0) ttl" and ?ps = "filter (\<lambda>(c, u). c \<noteq> []) (zip cs urls)"
  obtain ok d where w: "rwrite db (map (\<lambda>(c, u). Put_link c (enc ?ex (clk 0) u)) ?ps) (rk_db s) = (ok, d)" by force
  let ?s = "s\<lparr>rk_rng := n, rk_db := d\<rparr>"
  have st: "rk_settle db draws clk ?ex ttl ok 1 (zip cs urls) ?s = Some (codes, s')"
    using assms(4) dr w by (simp add: rk_shorten_many_def Let_def)
  have g: "rget db d = (if ok then rget db (rk_db s) ++ (map_option (enc ?ex (clk 0)) \<circ> map_of (rev ?ps)) else rget db (rk_db s))"
    using rocks_okD(2) [OF assms(1) w] by (simp only: put_links)
  have h: "rk_holds db ?s c = (case map_of (rev (to_put ok (zip cs urls))) c of Some u \<Rightarrow> Some (u, ?ex) | None \<Rightarrow> rk_holds db s c)" for c
    using dec_enc [OF in_i64_expiry assms(3), of "clk 0" ttl 0] by (simp add: rk_holds_def g to_put_def map_add_def split: option.split)
  show ?thesis
  proof (rule coherent_settle [OF assms(1,3) st])
    show "coherent db T (fst ` set (to_put ok (zip cs urls))) ?s"
      unfolding coherent_def
    proof (intro allI impI)
      fix c it
      assume c: "c \<notin> fst ` set (to_put ok (zip cs urls))" "cached (rk_cache ?s) c = Some it"
      then have "map_of (rev (to_put ok (zip cs urls))) c = None" by (simp add: map_of_eq_None_iff)
      then have "rk_holds db ?s c = rk_holds db s c" using h by simp
      then show "rk_holds db ?s c = Some (ce_u it, ce_e it) \<or> ce_e it \<noteq> 0 \<and> ce_e it \<le> T"
        using assms(2) c(2) by (auto simp: coherent_def)
    qed
    show "rk_holds db ?s c = Some (u, ?ex)" if "map_of (rev (to_put ok (zip cs urls))) c = Some u" for c u using h that by simp
  qed
qed

lemma coherent_update:
  assumes "rocks_ok db" and "coherent db T {} s"
  shows "coherent db T {} (snd (rk_update db now c u ttl has s))"
proof -
  have u: "coherent db T {} (s\<lparr>rk_db := d\<rparr>)" if "rput db c v (rk_db s) = (False, d)" for v d
    using assms(2) rocks_okD(1) [OF assms(1) that] by (auto simp: coherent_def rk_holds_def)
  have d: "coherent db T {} (s\<lparr>rk_db := d, rk_cache := cache_del c (rk_cache s)\<rparr>)" if "rput db c v (rk_db s) = (True, d)" for v d
    using assms(2) rocks_okD(1) [OF assms(1) that] by (auto simp: coherent_def rk_holds_def cached_del)
  show ?thesis using assms(2) u d by (auto simp: rk_update_def Let_def split: option.split prod.split)
qed

lemma coherent_remove:
  assumes "rocks_ok db" and "coherent db T {} s"
  shows "coherent db T {} (snd (rk_remove db c s))"
proof -
  obtain ok d where w: "rwrite db [Delete_link c, Delete_hits c] (rk_db s) = (ok, d)" by force
  show ?thesis using assms(2) rocks_okD(2) [OF assms(1) w] w by (auto simp: rk_remove_def coherent_def rk_holds_def cached_del split: if_splits)
qed

lemma flush_keeps_links:
  assumes "rocks_ok db"
  shows "rget db (rk_db (rk_flush_hits db s)) = rget db (rk_db s)"
proof -
  let ?wb = "map (\<lambda>(code, n). Merge_hits code (u64_bytes (word_of_int n))) (concat (map (rk_dirty s) [0..<KV_SHARDS]))"
  obtain ok d where w: "rwrite db ?wb (rk_db s) = (ok, d)" by force
  have "fold wop_link (map (\<lambda>(code, n). Merge_hits code (u64_bytes (word_of_int n))) ps) m = m" for ps :: "(string \<times> i64) list" and m
    by (induction ps) auto
  then have "rget db d = rget db (rk_db s)" using rocks_okD(2) [OF assms(1) w] by simp
  then show ?thesis using w by (simp add: rk_flush_hits_def Let_def)
qed

lemma coherent_flush: "rocks_ok db \<Longrightarrow> coherent db T {} s \<Longrightarrow> coherent db T {} (rk_flush_hits db s)"
  by (erule coherent_frame) (simp_all add: flush_keeps_links, simp add: rk_flush_hits_def Let_def)

lemma coherent_compact:
  assumes "rocks_ok db" and "coherent db T {} s" and "T \<le> now"
  shows "coherent db now {} (rk_compact db now s)"
proof (rule coherentI [OF assms(2,3)])
  fix c it
  assume "cached (rk_cache (rk_compact db now s)) c = Some it"
  then have it: "cached (rk_cache s) c = Some it" by (simp add: rk_compact_def)
  from rocks_okD(3) [OF assms(1), of "Filter now" "rk_db s" c]
  have "rk_holds db (rk_compact db now s) c = rk_holds db s c \<or> (\<exists>u e. rk_holds db s c = Some (u, e) \<and> e \<noteq> 0 \<and> e \<le> now)"
    by (auto simp: rk_compact_def rk_holds_def Filter_def split: option.splits)
  then have "rk_holds db (rk_compact db now s) c = rk_holds db s c \<or> ce_e it \<noteq> 0 \<and> ce_e it \<le> now"
    using assms(2,3) it unfolding coherent_def by force
  with it show "cached (rk_cache s) c = Some it \<and> (rk_holds db (rk_compact db now s) c = rk_holds db s c \<or> ce_e it \<noteq> 0 \<and> ce_e it \<le> now) \<or>
      rk_holds db (rk_compact db now s) c = Some (ce_u it, ce_e it)" by blast
qed

text \<open>The states of an engine over time, \<open>T\<close> being a time no clock reading so far is after.\<close>

inductive rk_reach :: "'d rocks_db \<Rightarrow> environ \<Rightarrow> (nat \<Rightarrow> nat) \<Rightarrow> i64 \<Rightarrow> 'd rocks \<Rightarrow> bool" for db env draws where
  opened: "rk_reach db env draws T s" if "rk_cache s = cache0"
| wait: "rk_reach db env draws T' s" if "rk_reach db env draws T s" and "T \<le> T'"
| look: "rk_reach db env draws T' (snd (rk_resolve db env clk us c s))" if "rk_reach db env draws T s" and "times T clk T'"
| make: "rk_reach db env draws T' s'" if "rk_reach db env draws T s" and "times T clk T'" and "rk_shorten db draws (clk 0) (clk 1) u al ttl s = Some (r, s')"
| many: "rk_reach db env draws T' s'" if "rk_reach db env draws T s" and "times T clk T'" and "rk_shorten_many db draws clk urls ttl s = Some (codes, s')"
| upd: "rk_reach db env draws T' (snd (rk_update db (clk 0) c u ttl has s))" if "rk_reach db env draws T s" and "times T clk T'"
| del: "rk_reach db env draws T (snd (rk_remove db c s))" if "rk_reach db env draws T s"
| flush: "rk_reach db env draws T (rk_flush_hits db s)" if "rk_reach db env draws T s"
| stat: "rk_reach db env draws T (snd (rk_stats db now c s))" if "rk_reach db env draws T s"
| compact: "rk_reach db env draws now (rk_compact db now s)" if "rk_reach db env draws T s" and "T \<le> now"

lemma coherent_later: "coherent db T X s \<Longrightarrow> T \<le> T' \<Longrightarrow> coherent db T' X s"
  by (erule coherent_frame) simp_all

lemma rk_reach_coherent: "rk_reach db env draws T s \<Longrightarrow> rocks_ok db \<Longrightarrow> coherent db T {} s"
proof (induction rule: rk_reach.induct)
  case (opened s T)
  then show ?case by (simp add: coherent_def)
next
  case (wait T s T')
  from wait.IH [OF wait.prems] wait(2) show ?case by (rule coherent_later)
next
  case (look T s clk T' us c)
  have "T \<le> T'" using look(2) by (simp add: times_def)
  with coherent_resolve [OF look.IH [OF look.prems]] show ?case by (rule coherent_later)
next
  case (make T s clk T' u al ttl r s')
  have i: "in_i64 (clk 0)" and t: "T \<le> T'" using make(2) by (simp_all add: times_def)
  from coherent_shorten(1) [OF make.prems make.IH [OF make.prems] i make(3)] t show ?case by (rule coherent_later)
next
  case (many T s clk T' urls ttl codes s')
  have i: "in_i64 (clk j)" and t: "T \<le> T'" for j using many(2) by (simp_all add: times_def)
  from coherent_shorten_many [OF many.prems many.IH [OF many.prems] i many(3)] t show ?case by (rule coherent_later)
next
  case (upd T s clk T' c u ttl has)
  have "T \<le> T'" using upd(2) by (simp add: times_def)
  with coherent_update [OF upd.prems upd.IH [OF upd.prems]] show ?case by (rule coherent_later)
next
  case (stat T s now c)
  show ?case by (rule coherent_frame [OF stat.IH [OF stat.prems] order_refl]) (auto simp: rk_stats_def Let_def split: option.split)
qed (simp_all add: coherent_remove coherent_flush coherent_compact)

lemma resolve_database:
  assumes "coherent db T {} s" and "T \<le> clk 0"
  shows "fst (rk_resolve db env clk us c s) = Some u \<Longrightarrow> clk 0 \<le> clk 1 \<Longrightarrow> \<exists>e. rk_holds db s c = Some (u, e) \<and> (e = 0 \<or> clk 0 < e)"
    and "rk_holds db s c = Some (u, e) \<Longrightarrow> e = 0 \<or> clk 1 < e \<Longrightarrow> fst (rk_resolve db env clk us c s) = Some u"
proof -
  obtain a cache where g: "cache_get (rk_ttl s) (clk 0) c (rk_cache s) = (a, cache)" by force
  have "(fst (rk_resolve db env clk us c s) = Some u \<longrightarrow> clk 0 \<le> clk 1 \<longrightarrow> (\<exists>e. rk_holds db s c = Some (u, e) \<and> (e = 0 \<or> clk 0 < e))) \<and>
    (rk_holds db s c = Some (u, e) \<longrightarrow> e = 0 \<or> clk 1 < e \<longrightarrow> fst (rk_resolve db env clk us c s) = Some u)"
  proof (cases a)
    case (Some v)
    then obtain it where it: "cached (rk_cache s) c = Some it" "v = ce_u it" "ce_e it = 0 \<or> clk 0 < ce_e it"
      using g by (auto simp: cache_get_def split: option.splits if_splits)
    then have "rk_holds db s c = Some (ce_u it, ce_e it)" using assms by (fastforce simp: coherent_def)
    then show ?thesis using g Some it by (auto simp: rk_resolve_parts)
  next
    case None
    then show ?thesis using g by (auto simp: rk_resolve_parts rk_holds_def Let_def split: option.splits)
  qed
  then show "fst (rk_resolve db env clk us c s) = Some u \<Longrightarrow> clk 0 \<le> clk 1 \<Longrightarrow> \<exists>e. rk_holds db s c = Some (u, e) \<and> (e = 0 \<or> clk 0 < e)"
    "rk_holds db s c = Some (u, e) \<Longrightarrow> e = 0 \<or> clk 1 < e \<Longrightarrow> fst (rk_resolve db env clk us c s) = Some u" by blast+
qed

text \<open>
  C15: The cache of the embedded engine never shows through as long as calls do not overlap. However the engine got where it is, by lookups, creations, updates, removals,
  flushes and compactions as time went on, a lookup answers an address only if the database holds it for the code
  and it has not expired, and it does answer every link the database holds that has not expired.
\<close>

theorem rocks_answers_database:
  assumes "rk_reach db env draws T s" and "rocks_ok db" and "times T clk T'" and "clk 0 \<le> clk 1"
  shows "(fst (rk_resolve db env clk us c s) = Some u \<longrightarrow> (\<exists>e. rk_holds db s c = Some (u, e) \<and> (e = 0 \<or> clk 0 < e))) \<and>
    (\<forall>e. rk_holds db s c = Some (u, e) \<longrightarrow> e = 0 \<or> clk 1 < e \<longrightarrow> fst (rk_resolve db env clk us c s) = Some u)"
proof -
  have "T \<le> clk 0" using assms(3) by (simp add: times_def)
  note answer = resolve_database [where clk = clk, OF rk_reach_coherent [OF assms(1,2)] this]
  show ?thesis using answer(1) assms(4) answer(2) by blast
qed

section \<open>Calls that overlap\<close>

text \<open>
  Two creations of one alias at the same time. Both find it free before either has stored its link; both are answered with the alias, and the
  second takes the place of the first.
\<close>

lemma rocks_alias_race:
  assumes "rocks_ok db" and "\<not> rk_taken db c s" and "\<And>k v d. fst (rput db k v d)" and "in_i64 now" and "in_i64 ex"
  shows "rk_shorten db draws now now2 u (Some c) ttl s = Some (rk_store db now now2 (expiry now ttl) c u (s\<lparr>rk_mets := store_write (rk_mets s)\<rparr>)) \<and>
    fst (rk_store db now now2 ex0 c u0 s) = Some c \<and>
    fst (rk_store db now now2 ex c u (snd (rk_store db now now2 ex0 c u0 s))) = Some c \<and>
    rk_holds db (snd (rk_store db now now2 ex c u (snd (rk_store db now now2 ex0 c u0 s)))) c = Some (u, ex)"
proof -
  have st: "fst (rk_store db now now2 x c y t) = Some c \<and> rget db (rk_db (snd (rk_store db now now2 x c y t))) c = Some (enc x now y)" for x y t
  proof -
    obtain d where "rput db c (enc x now y) (rk_db t) = (True, d)" using assms(3) by (metis prod.collapse)
    then show ?thesis using rocks_okD(1) [OF assms(1)] by (simp add: rk_store_def rk_cached_put_def)
  qed
  have "rk_shorten db draws now now2 u (Some c) ttl s = Some (rk_store db now now2 (expiry now ttl) c u (s\<lparr>rk_mets := store_write (rk_mets s)\<rparr>))"
    using assms(2) by (simp add: rk_shorten_def rk_taken_def)
  then show ?thesis using st dec_enc [OF assms(5,4)] by (simp add: rk_holds_def)
qed

text \<open>
  An update during a lookup. The lookup has read the old link; the update stores the new one and empties the cache; the lookup then puts
  the old link into the cache, and until the entry is too old the engine answers an address the database no longer holds.
\<close>

lemma rocks_stale_race:
  assumes "rocks_ok db" and "rk_look db (clk 0) us c s = (Inr (Some v), s1)" and "dec v = Some (0, a, u0)" and "in_i64 a"
    and "rk_update db now c u ttl False s1 = (Ok, s2)" and "clk' 0 - clk 2 \<le> rk_ttl s"
  shows "fst (rk_fill env clk c (Some v) s2) = Some u0 \<and>
    fst (rk_resolve db env' clk' us' c (snd (rk_fill env clk c (Some v) s2))) = Some u0 \<and>
    rk_holds db (snd (rk_fill env clk c (Some v) s2)) c = Some (u, 0)"
proof -
  have s1: "rget db (rk_db s1) c = Some v" "rk_ttl s1 = rk_ttl s" using assms(2) by (auto simp: rk_look_def split: prod.splits option.splits)
  obtain d where d: "rput db c (enc 0 a u) (rk_db s1) = (True, d)" "s2 = s1\<lparr>rk_db := d, rk_cache := cache_del c (rk_cache s1)\<rparr>"
    using assms(3,5) s1(1) by (auto simp: rk_update_def Let_def split: prod.splits if_splits)
  have "rget db d c = Some (enc 0 a u)" using rocks_okD(1) [OF assms(1) d(1)] by simp
  then have h: "rk_holds db s2 c = Some (u, 0)" using d(2) dec_enc [OF _ assms(4), of 0 u] by (simp add: rk_holds_def in_i64_def)
  let ?s3 = "rk_bump env c (rk_cached_put (clk 2) c u0 0 s2)"
  have f: "rk_fill env clk c (Some v) s2 = (Some u0, ?s3)" using assms(3) by (simp add: rk_fill_def)
  have "cached (rk_cache ?s3) c = Some \<lparr>ce_u = u0, ce_e = 0, ce_at = clk 2\<rparr>" by (simp add: rk_cached_put_def cached_put_same)
  moreover have "rk_ttl ?s3 = rk_ttl s" using s1(2) d(2) by (simp add: rk_bump_def rk_cached_put_def)
  ultimately have "fst (rk_resolve db env' clk' us' c ?s3) = Some u0" using assms(6) by (simp add: rk_resolve_parts cache_get_def)
  moreover have "rk_holds db ?s3 c = Some (u, 0)" using h by (simp add: rk_holds_def)
  ultimately show ?thesis unfolding f by simp
qed

text \<open>A database in memory: two maps, writes that always succeed.\<close>

definition mem_db :: "((string, string) umap \<times> (string \<rightharpoonup> string)) rocks_db" where
  "mem_db =
     \<lparr>rget = (\<lambda>d. um_find (fst d)), rhits = snd, rput = (\<lambda>k v d. (True, (um_put k v (fst d), snd d))),
      rwrite = (\<lambda>ops d. (True,
        (fold (\<lambda>x m. case x of Put_link c v \<Rightarrow> um_put c v m | Delete_link c \<Rightarrow> um_erase c m | _ \<Rightarrow> m) ops (fst d), fold wop_hits ops (snd d)))),
      riter = fst, rcompact = (\<lambda>P d. (filter (\<lambda>(k, v). \<not> (\<exists>v \<in> set_option (um_find (fst d) k). P v)) (fst d), snd d)), rprobe = (\<lambda>d. True)\<rparr>"

lemma mem_fold: "um_find (fold (\<lambda>x m. case x of Put_link c v \<Rightarrow> um_put c v m | Delete_link c \<Rightarrow> um_erase c m | _ \<Rightarrow> m) ops m) = fold wop_link ops (um_find m)"
proof (induction ops arbitrary: m)
  case (Cons x ops)
  then show ?case by (cases x) (simp_all add: um_find_put um_find_erase fun_upd_def)
qed simp

lemma mem_filter: "um_find (filter (\<lambda>(k, v). Q k) m) k = (if Q k then um_find m k else None)"
  by (induction m) auto

lemma mem_db_ok: "rocks_ok mem_db"
  unfolding rocks_ok_def mem_db_def by (auto simp: um_find_put mem_fold mem_filter elem_set)

definition mem_store :: "(string, string) umap \<Rightarrow> ((string, string) umap \<times> (string \<rightharpoonup> string)) rocks" where
  "mem_store m =
     \<lparr>rk_db = (m, Map.empty), rk_cache = cache0, rk_cap = 16, rk_ttl = 5000, rk_dirty = (\<lambda>_. []), rk_inst = 0, rk_prefix = CHR ''0'',
      rk_rng = 0, rk_stop = False, rk_mets = metrics0\<rparr>"

theorem rocks_answers_database_witness:
  "fst (rk_resolve mem_db Map.empty (\<lambda>_. 7) 0 ''a'' (rk_compact mem_db 6 (mem_store [(''a'', enc 0 1 ''u''), (''b'', enc 5 1 ''v'')]))) = Some ''u''"
proof -
  let ?s = "rk_compact mem_db 6 (mem_store [(''a'', enc 0 1 ''u''), (''b'', enc 5 1 ''v'')])"
  have "rk_reach mem_db Map.empty (\<lambda>_. 0) 0 (mem_store [(''a'', enc 0 1 ''u''), (''b'', enc 5 1 ''v'')])" by (rule rk_reach.opened) (simp add: mem_store_def)
  then have r: "rk_reach mem_db Map.empty (\<lambda>_. 0) 6 ?s" by (rule rk_reach.compact) simp
  have t: "times 6 (\<lambda>_. 7) 8" by (simp add: times_def in_i64_def)
  have d: "dec (enc 0 1 ''u'') = Some (0, 1, ''u'')" by (rule dec_enc) (simp_all add: in_i64_def)
  then have "rk_holds mem_db ?s ''a'' = Some (''u'', 0)" by (simp add: rk_holds_def rk_compact_def mem_db_def mem_store_def mem_filter Filter_def)
  with rocks_answers_database [OF r mem_db_ok t, of 0 "''a''" "''u''"] show ?thesis by simp
qed

text \<open>
  C39: A bulk creation of the embedded engine can lose a link. If the generator draws one free code twice in a batch, both
  URLs are answered with that code, and only the second is stored.
\<close>

theorem rocks_bulk_loses_link:
  assumes "rocks_ok db" and "kv_gen_code draws (rk_prefix s) (rk_rng s) = (c, n)" and "kv_gen_code draws (rk_prefix s) n = (c, n')"
    and "rget db (rk_db s) c = None" and "\<And>ops. fst (rwrite db ops (rk_db s))"
  shows "\<exists>s'. rk_shorten_many db draws clk [u, v] ttl s = Some ([c, c], s') \<and>
    rget db (rk_db s') = (rget db (rk_db s))(c \<mapsto> enc (expiry (clk 0) ttl) (clk 0) v)"
proof -
  let ?ex = "expiry (clk 0) ttl"
  have c: "c \<noteq> []" using assms(2) by (auto simp: kv_gen_code_def)
  obtain d where w: "rwrite db [Put_link c (enc ?ex (clk 0) u), Put_link c (enc ?ex (clk 0) v)] (rk_db s) = (True, d)"
    using assms(5) [of "[Put_link c (enc ?ex (clk 0) u), Put_link c (enc ?ex (clk 0) v)]"] by (metis prod.collapse)
  have "rget db d = (rget db (rk_db s))(c \<mapsto> enc ?ex (clk 0) v)" using rocks_okD(2) [OF assms(1) w] by simp
  then show ?thesis using c w assms(2-4) by (simp add: rk_shorten_many_def Let_def)
qed

theorem rocks_bulk_loses_link_witness:
  "\<exists>s'. rk_shorten_many mem_db (\<lambda>_. 0) (\<lambda>_. 9) [''u'', ''v''] 0 (mem_store []) = Some ([''00000000'', ''00000000''], s') \<and>
     rget mem_db (rk_db s') = [''00000000'' \<mapsto> enc 0 9 ''v'']"
proof -
  have g: "kv_gen_code (\<lambda>_. 0) (CHR ''0'') n = (''00000000'', n + 7)" for n by (simp add: kv_gen_code_def ALPHABET_def upt_rec)
  have "expiry 9 0 = 0" by code_simp
  with rocks_bulk_loses_link [OF mem_db_ok, where s = "mem_store []" and draws = "\<lambda>_. 0" and c = "''00000000''" and n = 7 and n' = 14 and
      clk = "\<lambda>_. 9" and u = "''u''" and v = "''v''" and ttl = 0] g [of 0] g [of 7]
  show ?thesis by (simp add: mem_store_def mem_db_def)
qed

end
