(* ===== verification/Rocks_Service.thy ===== *)
theory Rocks_Service
  imports Service Rocks_Store
begin

text \<open>
  The request handler on the embedded engine. The handler is the one of \<^verbatim>\<open>App\<close>, its store the embedded engine as
  \<^verbatim>\<open>Store\<close> calls it (\<^verbatim>\<open>src/src/store.cpp\<close>, the branches for \<^verbatim>\<open>rkin\<close>). A first part says what the handler does to any store, as a contract
  that the engine then meets; together they give what a client of the service can rely on.
\<close>

section \<open>Any store behind the handler\<close>

text \<open>
  A request calls at most one method of the store, the changing ones only with the admin token. So what holds of
  the store before it and after every such call holds after the request.
\<close>

lemma route_get_store:
  assumes "Q (the_store w)" and "Q (snd (so_healthy ops (the_store w)))"
    and "\<And>l k ord q. Q (snd (so_list ops l k ord q (the_store w)))"
    and "\<And>c. Q (snd (so_stats ops c (the_store w)))" and "\<And>c. Q (snd (so_resolve ops c (the_store w)))"
    and "route_get ops html clk pathname query w = Inr (r, w')"
  shows "Q (the_store w')"
proof -
  have "\<forall>x. route_get ops html clk pathname query w = Inr x \<longrightarrow> Q (the_store (snd x))"
    unfolding route_get_def using assms(1-5) by (simp add: list_reply_def Let_def case_prod_beta)
  then show ?thesis using assms(6) by fastforce
qed

lemma route_post_store:
  assumes "route_post ops env clk pathname bdy client w = Inr (r, w')" and "Q (the_store w)"
    and "\<And>u al ttl a s. so_shorten ops u al ttl (the_store w) = Some (a, s) \<Longrightarrow> Q s"
    and "\<And>us ttl a s. so_shorten_many ops us ttl (the_store w) = Some (a, s) \<Longrightarrow> Q s"
  shows "Q (the_store w')"
proof -
  have one: "Q (the_store y)" if "shorten_one ops env p x = Inr (r, y)" "the_store x = the_store w" for p x y
    using that assms(2,3) by (auto simp: shorten_one_def split: option.splits J.splits if_splits sum.splits)
  have bulk: "Q (the_store y)" if "shorten_bulk ops env p x = Inr (r, y)" "the_store x = the_store w" for p x y
    using that assms(2,4) by (auto simp: shorten_bulk_def Let_def split: option.splits J.splits if_splits)
  show ?thesis using assms(1,2)
    by (auto simp: route_post_def Let_def split: option.splits if_splits prod.splits dest!: one bulk)
qed

lemma route_mutate_store:
  assumes "route_mutate ops env mthd pathname bdy token w = Inr (r, w')" and "Q (the_store w)"
    and "\<And>c. admin_ok env token \<Longrightarrow> Q (snd (so_remove ops c (the_store w)))"
    and "\<And>c u ttl has. admin_ok env token \<Longrightarrow> Q (snd (so_update ops c u ttl has (the_store w)))"
  shows "Q (the_store w')"
proof (cases "admin_ok env token")
  case True
  then show ?thesis using assms(1,2) assms(3) [OF True] assms(4) [OF True]
    by (auto simp: route_mutate_def Let_def case_prod_beta split: option.splits J.splits if_splits sum.splits)
next
  case False
  then show ?thesis using assms(1,2) by (simp add: route_mutate_def)
qed

lemma handle_store:
  assumes "handle ops env html clk mthd path bdy token client w = Inr (r, w')" and "Q (the_store w)"
    and "Q (snd (so_healthy ops (the_store w)))" and "\<And>l k ord q. Q (snd (so_list ops l k ord q (the_store w)))"
    and "\<And>c. Q (snd (so_stats ops c (the_store w)))" and "\<And>c. Q (snd (so_resolve ops c (the_store w)))"
    and "\<And>u al ttl a s. so_shorten ops u al ttl (the_store w) = Some (a, s) \<Longrightarrow> Q s"
    and "\<And>us ttl a s. so_shorten_many ops us ttl (the_store w) = Some (a, s) \<Longrightarrow> Q s"
    and "\<And>c. admin_ok env token \<Longrightarrow> Q (snd (so_remove ops c (the_store w)))"
    and "\<And>c u ttl has. admin_ok env token \<Longrightarrow> Q (snd (so_update ops c u ttl has (the_store w)))"
  shows "Q (the_store w')"
proof -
  let ?p = "takeWhile (\<lambda>c. c \<noteq> CHR ''?'') path" and ?w = "w\<lparr>mets := tick (clk 0) (mets w)\<rparr>"
  have st: "the_store ?w = the_store w" by simp
  obtain w1 where r: "route ops env html clk mthd path bdy token client w = Inr (r, w1)" "the_store w' = the_store w1"
    using assms(1) by (auto simp: handle_def split: sum.splits prod.splits)
  consider (get) "route_get ops html clk ?p (drop (length ?p + 1) path) ?w = Inr (r, w1)"
    | (post) "route_post ops env clk ?p bdy client ?w = Inr (r, w1)"
    | (mut) "route_mutate ops env mthd ?p bdy token ?w = Inr (r, w1)"
    | (other) "the_store w1 = the_store w"
    using r(1) by (auto simp: route_def Let_def split: if_splits)
  then have "Q (the_store w1)"
  proof cases
    case get
    show ?thesis by (rule route_get_store [OF _ _ _ _ _ get]) (simp_all only: st assms(2-6))
  next
    case post
    then show ?thesis by (rule route_post_store) (simp_all only: st assms(2,7,8))
  next
    case mut
    then show ?thesis by (rule route_mutate_store) (simp_all only: st assms(2,9,10))
  qed (use assms(2) in simp)
  then show ?thesis by (simp add: r(2))
qed

text \<open>A creation that is answered with status 201.\<close>

lemma post_made:
  assumes "handle ops env html clk ''POST'' ''/api/shorten'' bdy token client w = Inr (r, w')" and "status r = 201"
  obtains p u al ttl c where "jparse bdy = Some p" "j_find ''url'' p = Some (J_STR u)" "req_alias p = Inr al" "req_ttl env p = Inr ttl"
    "so_shorten ops u al ttl (the_store w) = Some (Some c, the_store w')" "r = created c"
proof -
  have path: "takeWhile (\<lambda>c. c \<noteq> CHR ''?'') ''/api/shorten'' = ''/api/shorten''" by simp
  obtain p x y where p: "jparse bdy = Some p" "shorten_one ops env p x = Inr (r, y)" "the_store x = the_store w" "the_store y = the_store w'"
    using assms unfolding handle_def route_def route_post_def path
    by (auto simp: Let_def mk_def bad_def split: sum.splits option.splits if_splits prod.splits)
  from p(2) assms(2) obtain u al ttl c where "j_find ''url'' p = Some (J_STR u)" "req_alias p = Inr al" "req_ttl env p = Inr ttl"
    "so_shorten ops u al ttl (the_store w) = Some (Some c, the_store w')" "r = created c"
    using p(3,4) unfolding shorten_one_def req_alias_def req_ttl_def
    by (auto simp: mk_def bad_def split: option.splits J.splits if_splits sum.splits)
  with p(1) show ?thesis by (rule that)
qed

text \<open>
  The promises of a store whose links only the changing methods touch. \<open>good T s\<close> says that \<open>s\<close> is a
  state of the store at which no clock reading so far is after \<open>T\<close>; \<open>inp\<close> is what a call gets from outside besides the clock, and
  \<open>bg\<close> is what happens to the store between requests. A link may disappear once it has expired.
\<close>

definition keeps :: "i64 \<Rightarrow> (string \<rightharpoonup> string \<times> i64) \<Rightarrow> (string \<rightharpoonup> string \<times> i64) \<Rightarrow> bool" where
  "keeps T v v' \<longleftrightarrow> (\<forall>c u ex. v c = Some (u, ex) \<longrightarrow> ex = 0 \<or> T < ex \<longrightarrow> v' c = Some (u, ex))"

lemma keeps_refl [simp]: "keeps T v v"
  by (simp add: keeps_def)

lemma keeps_trans: "keeps T u v \<Longrightarrow> keeps T' v w \<Longrightarrow> T \<le> T' \<Longrightarrow> keeps T' u w"
  by (fastforce simp: keeps_def)

text \<open>Requests with tokens that \<open>A\<close> admits, and what happens between them; that may be a restart, which resets the rest of the process too.\<close>

inductive steady_run ::
  "('x \<Rightarrow> (nat \<Rightarrow> i64) \<Rightarrow> 's store_ops) \<Rightarrow> (i64 \<Rightarrow> 's \<Rightarrow> i64 \<Rightarrow> 's \<Rightarrow> bool) \<Rightarrow> environ \<Rightarrow> (string \<Rightarrow> bool) \<Rightarrow>
     i64 \<Rightarrow> 's world \<Rightarrow> i64 \<Rightarrow> 's world \<Rightarrow> bool"
  for ops bg env A T w where
  idle: "steady_run ops bg env A T w T w"
| request: "steady_run ops bg env A T w T2 w2"
    if "steady_run ops bg env A T w T1 w1" and "handle (ops inp ck) env html clk mthd path bdy token client w1 = Inr (r, w2)"
      and "A token" and "times T1 ck T2"
| background: "steady_run ops bg env A T w T2 w2"
    if "steady_run ops bg env A T w T1 w1" and "bg T1 (the_store w1) T2 (the_store w2)"

locale steady_store =
  fixes ops :: "'x \<Rightarrow> (nat \<Rightarrow> i64) \<Rightarrow> 's store_ops"
    and good :: "i64 \<Rightarrow> 's \<Rightarrow> bool"
    and bg :: "i64 \<Rightarrow> 's \<Rightarrow> i64 \<Rightarrow> 's \<Rightarrow> bool"
    and view :: "'s \<Rightarrow> string \<Rightarrow> (string \<times> i64) option"
  assumes good_later: "good T s \<Longrightarrow> T \<le> T' \<Longrightarrow> good T' s"
    and good_shorten: "good T s \<Longrightarrow> times T ck T' \<Longrightarrow> so_shorten (ops inp ck) u al ttl s = Some (a, s') \<Longrightarrow>
      good T' s' \<and> keeps T' (view s) (view s') \<and>
      (\<forall>c. a = Some c \<longrightarrow> view s' c = Some (u, expiry (ck 0) ttl) \<and> (\<forall>x. al = Some x \<longrightarrow> c = x))"
    and good_many: "good T s \<Longrightarrow> times T ck T' \<Longrightarrow> so_shorten_many (ops inp ck) us ttl s = Some (codes, s') \<Longrightarrow>
      good T' s' \<and> keeps T' (view s) (view s')"
    and good_update: "good T s \<Longrightarrow> times T ck T' \<Longrightarrow> good T' (snd (so_update (ops inp ck) c u ttl has s))"
    and good_remove: "good T s \<Longrightarrow> times T ck T' \<Longrightarrow> good T' (snd (so_remove (ops inp ck) c s))"
    and good_resolve: "good T s \<Longrightarrow> times T ck T' \<Longrightarrow> so_resolve (ops inp ck) c s = (a, s') \<Longrightarrow>
      good T' s' \<and> keeps T' (view s) (view s') \<and> (\<forall>u ex. view s c = Some (u, ex) \<longrightarrow> ex = 0 \<or> T' < ex \<longrightarrow> a = Some u)"
    and good_stats: "good T s \<Longrightarrow> times T ck T' \<Longrightarrow> so_stats (ops inp ck) c s = (x, s') \<Longrightarrow> good T' s' \<and> keeps T' (view s) (view s')"
    and reads_keep: "snd (so_healthy (ops inp ck) s) = s" "snd (so_list (ops inp ck) l k ord q s) = s"
    and good_background: "good T s \<Longrightarrow> bg T s T' s' \<Longrightarrow> T \<le> T' \<and> good T' s' \<and> keeps T' (view s) (view s')"
begin

lemma handle_keeps:
  assumes "handle (ops inp ck) env html clk mthd path bdy token client w = Inr (r, w')" and "good T (the_store w)" and "times T ck T'"
  shows "good T' (the_store w') \<and> (\<not> admin_ok env token \<longrightarrow> keeps T' (view (the_store w)) (view (the_store w')))"
proof -
  have g: "good T' (the_store w)" using good_later assms(2,3) by (simp add: times_def)
  show ?thesis
    using assms(1)
  proof (rule handle_store [where Q = "\<lambda>s. good T' s \<and> (\<not> admin_ok env token \<longrightarrow> keeps T' (view (the_store w)) (view s))"], goal_cases)
    case (4 c)
    then show ?case using good_stats [OF assms(2,3) prod.collapse [symmetric]] by blast
  next
    case (5 c)
    then show ?case using good_resolve [OF assms(2,3) prod.collapse [symmetric]] by blast
  next
    case (6 u al ttl a s)
    then show ?case using good_shorten [OF assms(2,3)] by blast
  next
    case (7 us ttl a s)
    then show ?case using good_many [OF assms(2,3)] by blast
  qed (simp_all add: g reads_keep good_remove [OF assms(2,3)] good_update [OF assms(2,3)])
qed

lemma run_keeps:
  assumes "steady_run ops bg env (\<lambda>t. \<not> admin_ok env t) T w T' w'" and "good T (the_store w)"
  shows "T \<le> T' \<and> good T' (the_store w') \<and> keeps T' (view (the_store w)) (view (the_store w'))"
  using assms
proof (induction rule: steady_run.induct)
  case (request T1 w1 inp ck html clk mthd path bdy token client r w2 T2)
  then have t: "T1 \<le> T2" by (simp add: times_def)
  from handle_keeps [OF request(2) _ request(4)] request show ?case using t by (auto intro: keeps_trans)
next
  case (background T1 w1 T2 w2)
  from good_background [OF _ background(2)] background show ?case by (auto intro: keeps_trans)
qed simp

lemma get_served:
  assumes "good T (the_store w)" and "times T ck T'" and "view (the_store w) c = Some (u, ex)" and "ex = 0 \<or> T' < ex"
    and "code_ok c" and "c \<noteq> ''metrics''"
  shows "\<exists>w'. handle (ops inp ck) env html clk ''GET'' (CHR ''/'' # c) bdy token client w = Inr (redirect u, w')"
proof -
  have "fst (so_resolve (ops inp ck) c (the_store w)) = Some u"
    using good_resolve [OF assms(1,2) prod.collapse [symmetric]] assms(3,4) by blast
  then show ?thesis by (simp add: handle_def route_def Let_def code_path(1) [OF assms(5)] route_get_code [OF assms(5,6)])
qed

end

section \<open>The embedded engine behind the handler\<close>

text \<open>
  What \<^verbatim>\<open>Store\<close> does when its engine is the embedded one: it passes the call on and keeps the number of links. The
  counters the engine changes are those of the process.
\<close>

record 'd rocks_front =
  rf_rocks :: "'d rocks"
  rf_links :: i64

definition rocks_shorten ::
  "'d rocks_db \<Rightarrow> (nat \<Rightarrow> nat) \<Rightarrow> i64 \<Rightarrow> i64 \<Rightarrow> string \<Rightarrow> string option \<Rightarrow> i64 \<Rightarrow> 'd rocks_front \<Rightarrow> (string option \<times> 'd rocks_front) option"
where
  "rocks_shorten db draws now now2 url al ttl s =
     (case rk_shorten db draws now now2 url al ttl (rf_rocks s) of
        None \<Rightarrow> None
      | Some (r, k) \<Rightarrow> Some (r, s\<lparr>rf_rocks := k, rf_links := (if r \<noteq> None then add64 (rf_links s) 1 else rf_links s)\<rparr>))"

definition rocks_shorten_many ::
  "'d rocks_db \<Rightarrow> (nat \<Rightarrow> nat) \<Rightarrow> (nat \<Rightarrow> i64) \<Rightarrow> string list \<Rightarrow> i64 \<Rightarrow> 'd rocks_front \<Rightarrow> (string list \<times> 'd rocks_front) option"
where
  "rocks_shorten_many db draws ck urls ttl s =
     (case rk_shorten_many db draws ck urls ttl (rf_rocks s) of
        None \<Rightarrow> None
      | Some (r, k) \<Rightarrow> Some (r, s\<lparr>rf_rocks := k, rf_links := add64 (rf_links s) (int (length r))\<rparr>))"

definition rocks_remove :: "'d rocks_db \<Rightarrow> string \<Rightarrow> 'd rocks_front \<Rightarrow> mut_result \<times> 'd rocks_front" where
  "rocks_remove db code s =
     (let (r, k) = rk_remove db code (rf_rocks s)
      in (r, s\<lparr>rf_rocks := k, rf_links := (if r = Ok then add64 (rf_links s) (- 1) else rf_links s)\<rparr>))"

definition on_rocks :: "('d rocks \<Rightarrow> 'a \<times> 'd rocks) \<Rightarrow> 'd rocks_front \<Rightarrow> 'a \<times> 'd rocks_front" where
  "on_rocks f s = (let (a, k) = f (rf_rocks s) in (a, s\<lparr>rf_rocks := k\<rparr>))"

definition rocks_ops ::
  "'d rocks_db \<Rightarrow> (nat \<Rightarrow> nat) \<Rightarrow> environ \<Rightarrow> ((link \<Rightarrow> link \<Rightarrow> bool) \<Rightarrow> link list \<Rightarrow> link list) \<times> i64 \<Rightarrow> (nat \<Rightarrow> i64) \<Rightarrow> 'd rocks_front store_ops"
where
  "rocks_ops db draws env inp ck =
     \<lparr>so_healthy = (\<lambda>s. (rk_healthy db (rf_rocks s), s)),
      so_list = (\<lambda>limit offset ord q s. (rk_list db (fst inp) (ck 0) limit offset ord q (rf_rocks s), s)),
      so_stats = (\<lambda>c. on_rocks (rk_stats db (ck 0) c)),
      so_resolve = (\<lambda>c. on_rocks (rk_resolve db env ck (snd inp) c)),
      so_shorten = rocks_shorten db draws (ck 0) (ck 1),
      so_shorten_many = rocks_shorten_many db draws ck,
      so_update = (\<lambda>c u ttl has. on_rocks (rk_update db (ck 0) c u ttl has)),
      so_remove = rocks_remove db,
      so_links = rf_links,
      so_mets = (\<lambda>s m. let k = rk_mets (rf_rocks s)
        in m\<lparr>CACHE_HIT := CACHE_HIT k, CACHE_MISS := CACHE_MISS k, STORE_READS := STORE_READS k, STORE_READ_US := STORE_READ_US k,
             STORE_WRITES := STORE_WRITES k\<rparr>)\<rparr>"

text \<open>
  Between requests the engine sends hits to the database, compacts it, or is opened again, after it was closed or after the process
  ended without closing it, as an exception that nobody catches makes it; a database that is opened again holds what was written to it.
\<close>

inductive rocks_work :: "'d rocks_db \<Rightarrow> i64 \<Rightarrow> 'd rocks_front \<Rightarrow> i64 \<Rightarrow> 'd rocks_front \<Rightarrow> bool" for db T s where
  flush: "rocks_work db T s T (s\<lparr>rf_rocks := rk_flusher_turn db (rf_rocks s)\<rparr>)"
| compact: "rocks_work db T s now (s\<lparr>rf_rocks := rk_compact db now (rf_rocks s)\<rparr>)" if "T \<le> now"
| restart: "rocks_work db T s T \<lparr>rf_rocks = k, rf_links = 0\<rparr>"
    if "RocksInnerImpl i entries cttl metrics0 listed opened = Inr k" and "opened (rk_families listed) = Inr d"
      and "rget db d = rget db (rk_db (rk_close db (rf_rocks s)))"
| crash: "rocks_work db T s T \<lparr>rf_rocks = k, rf_links = 0\<rparr>"
    if "RocksInnerImpl i entries cttl metrics0 listed opened = Inr k" and "opened (rk_families listed) = Inr d"
      and "rget db d = rget db (rk_db (rf_rocks s))"

subsection \<open>What the database keeps\<close>

lemma rk_db_resolve [simp]: "rk_db (snd (rk_resolve db env ck us c s)) = rk_db s"
  by (simp add: rk_resolve_parts Let_def split: option.split prod.split)

lemma rk_db_stats [simp]: "rk_db (snd (rk_stats db now c s)) = rk_db s"
  by (simp add: rk_stats_def Let_def split: option.split)

lemma rk_holds_db: "rget db (rk_db s') = rget db (rk_db s) \<Longrightarrow> rk_holds db s' = rk_holds db s"
  by (simp add: rk_holds_def fun_eq_iff)

lemma rk_holds_rget: "rk_holds db s c = Some x \<Longrightarrow> rget db (rk_db s) c \<noteq> None"
  by (auto simp: rk_holds_def split: option.splits)

lemma rk_store_made:
  assumes "rocks_ok db" and "in_i64 now" and "in_i64 ex" and "rk_store db now now2 ex c u s = (Some x, s')"
  shows "x = c" "rk_holds db s' c = Some (u, ex)"
proof -
  obtain ok d where put: "rput db c (enc ex now u) (rk_db s) = (ok, d)" by force
  then have p: "rput db c (enc ex now u) (rk_db s) = (True, d)" "s' = rk_cached_put now2 c u ex (s\<lparr>rk_db := d\<rparr>)" "x = c"
    using assms(4) by (cases ok; simp add: rk_store_def)+
  show "x = c" by (rule p(3))
  show "rk_holds db s' c = Some (u, ex)" using rocks_okD(1) [OF assms(1) p(1)] p(2) dec_enc [OF assms(3,2)] by (simp add: rk_holds_def)
qed

lemma rk_shorten_made:
  assumes "rocks_ok db" and "in_i64 now" and "rk_shorten db draws now now2 u al ttl s = Some (Some c, s')"
  shows "rk_holds db s' c = Some (u, expiry now ttl)" "al = Some x \<Longrightarrow> c = x"
proof -
  note made = rk_store_made [OF assms(1,2) in_i64_expiry [of now ttl]]
  from assms(3) show "rk_holds db s' c = Some (u, expiry now ttl)"
    by (cases al) (auto simp: rk_shorten_def rk_taken_def Let_def split: option.splits if_splits dest: made)
  show "al = Some x \<Longrightarrow> c = x" using assms(3) by (auto simp: rk_shorten_def rk_taken_def Let_def split: if_splits dest: made)
qed

lemma rk_shorten_keeps:
  assumes "rocks_ok db" and "in_i64 now" and "rk_shorten db draws now now2 u al ttl s = Some (r, s')" and "rk_holds db s x = Some v"
  shows "rk_holds db s' x = Some v"
  using coherent_shorten(2) [OF assms(1) _ assms(2,3), of _ UNIV] rk_holds_rget [OF assms(4)] assms(4) by (simp add: coherent_def)

lemma rk_settle_keeps:
  assumes "rocks_ok db" and "\<And>i. in_i64 (ck i)" and "rk_settle db draws ck ex ttl ok i ps s = Some (codes, s')" and "rk_holds db s x = Some v"
  shows "rk_holds db s' x = Some v"
  using assms(3,4)
proof (induction ps arbitrary: i s codes)
  case (Cons p ps)
  obtain c u where p: "p = (c, u)" by force
  have put: "rk_holds db (rk_cached_put now c u ex s) x = Some v" for now using Cons.prems(2) by (simp add: rk_holds_def)
  show ?case using Cons.prems(1) Cons.IH [OF _ put] Cons.IH [OF _ rk_shorten_keeps [OF assms(1,2) _ Cons.prems(2)]]
    by (auto simp: p split: option.splits if_splits)
qed simp

lemma rk_draw_free: "(c, u) \<in> set (zip (fst (rk_draw db draws p d k n)) us) \<Longrightarrow> c \<noteq> [] \<Longrightarrow> rget db d c = None"
proof (induction k arbitrary: n us)
  case (Suc k)
  then show ?case by (cases us) (auto simp: Let_def case_prod_beta split: if_splits)
qed simp

lemma rk_shorten_many_keeps:
  assumes "rocks_ok db" and "\<And>i. in_i64 (ck i)" and "rk_shorten_many db draws ck urls ttl s = Some (codes, s')" and "rk_holds db s x = Some v"
  shows "rk_holds db s' x = Some v"
proof -
  obtain cs n where dr: "rk_draw db draws (rk_prefix s) (rk_db s) (length urls) (rk_rng s) = (cs, n)" by force
  let ?ps = "filter (\<lambda>(c, u). c \<noteq> []) (zip cs urls)"
  obtain ok d where w: "rwrite db (map (\<lambda>(c, u). Put_link c (enc (expiry (ck 0) ttl) (ck 0) u)) ?ps) (rk_db s) = (ok, d)" by force
  have "x \<notin> fst ` set ?ps" using rk_draw_free [of x _ db draws "rk_prefix s" "rk_db s" "length urls" "rk_rng s" urls] dr rk_holds_rget [OF assms(4)] by auto
  then have "map_of (rev ?ps) x = None" by (simp add: map_of_eq_None_iff)
  then have "rget db d x = rget db (rk_db s) x" using rocks_okD(2) [OF assms(1) w] by (simp only: put_links map_add_def comp_def split: if_split) simp
  then have "rk_holds db (s\<lparr>rk_rng := n, rk_db := d\<rparr>) x = Some v" using assms(4) by (simp add: rk_holds_def)
  moreover have "rk_settle db draws ck (expiry (ck 0) ttl) ttl ok 1 (zip cs urls) (s\<lparr>rk_rng := n, rk_db := d\<rparr>) = Some (codes, s')"
    using assms(3) dr w by (simp add: rk_shorten_many_def Let_def)
  ultimately show ?thesis by (rule rk_settle_keeps [OF assms(1,2), rotated])
qed

lemma rk_compact_keeps:
  assumes "rocks_ok db"
  shows "keeps now (rk_holds db s) (rk_holds db (rk_compact db now s))"
  unfolding keeps_def
proof (intro allI impI)
  fix c u ex
  assume h: "rk_holds db s c = Some (u, ex)" and ex: "ex = 0 \<or> now < ex"
  then obtain v k where v: "rget db (rk_db s) c = Some v" "dec v = Some (ex, k, u)" by (auto simp: rk_holds_def split: option.splits)
  then have "\<not> Filter now v" using ex by (auto simp: Filter_def)
  then have "rget db (rcompact db (Filter now) (rk_db s)) c = Some v" using rocks_okD(3) [OF assms, of "Filter now" "rk_db s" c] v(1) by auto
  then show "rk_holds db (rk_compact db now s) c = Some (u, ex)" using v(2) by (simp add: rk_holds_def rk_compact_def)
qed

definition rocks_good :: "'d rocks_db \<Rightarrow> environ \<Rightarrow> (nat \<Rightarrow> nat) \<Rightarrow> i64 \<Rightarrow> 'd rocks_front \<Rightarrow> bool" where
  "rocks_good db env draws T s \<longleftrightarrow> rocks_ok db \<and> rk_reach db env draws T (rf_rocks s)"

definition rocks_view :: "'d rocks_db \<Rightarrow> 'd rocks_front \<Rightarrow> string \<Rightarrow> (string \<times> i64) option" where
  "rocks_view db s = rk_holds db (rf_rocks s)"

lemma keeps_all: "(\<And>c x. v c = Some x \<Longrightarrow> v' c = Some x) \<Longrightarrow> keeps T v v'"
  by (simp add: keeps_def)

lemma on_rocksD: "on_rocks f s = (a, s') \<Longrightarrow> f (rf_rocks s) = (a, rf_rocks s')"
  by (auto simp: on_rocks_def split: prod.splits)

lemma rocks_shortenD:
  assumes "so_shorten (rocks_ops db draws env inp ck) u al ttl s = Some (a, s')"
  shows "rk_shorten db draws (ck 0) (ck 1) u al ttl (rf_rocks s) = Some (a, rf_rocks s')"
  using assms by (auto simp: rocks_ops_def rocks_shorten_def split: option.splits)

lemma rocks_reopened:
  assumes "rocks_good db env draws T s" and "RocksInnerImpl i entries cttl metrics0 listed opened = Inr k"
    and "opened (rk_families listed) = Inr d" and "rget db d = rget db (rk_db (rf_rocks s))"
  shows "rocks_good db env draws T \<lparr>rf_rocks = k, rf_links = 0\<rparr> \<and> keeps T (rocks_view db s) (rocks_view db \<lparr>rf_rocks = k, rf_links = 0\<rparr>)"
proof -
  have k: "rk_cache k = cache0" "rk_db k = d" using assms(2,3) by (auto simp: RocksInnerImpl_def Let_def split: if_splits)
  have "rk_holds db k = rk_holds db (rf_rocks s)" using k(2) assms(4) by (intro rk_holds_db) simp
  then show ?thesis using k(1) assms(1) by (auto simp: rocks_good_def rocks_view_def intro: rk_reach.opened)
qed

lemma rocks_work_good:
  assumes "rocks_good db env draws T s" and "rocks_work db T s T' s'"
  shows "T \<le> T' \<and> rocks_good db env draws T' s' \<and> keeps T' (rocks_view db s) (rocks_view db s')"
  using assms(2)
proof (cases rule: rocks_work.cases)
  case flush
  have ok: "rocks_ok db" and r: "rk_reach db env draws T (rf_rocks s)" using assms(1) by (simp_all add: rocks_good_def)
  have "rk_holds db (rk_flush_hits db (rf_rocks s)) = rk_holds db (rf_rocks s)" by (rule rk_holds_db [OF flush_keeps_links [OF ok]])
  then show ?thesis using flush ok r rk_reach.flush [OF r] by (simp add: rocks_good_def rocks_view_def rk_flusher_turn_def)
next
  case compact
  then show ?thesis using assms(1) rk_compact_keeps by (auto simp: rocks_good_def rocks_view_def intro: rk_reach.compact)
next
  case (restart i entries cttl listed opened k d)
  have "rget db d = rget db (rk_db (rf_rocks s))"
    using assms(1) restart(5) flush_keeps_links [of db] by (simp add: rocks_good_def rk_close_def)
  with restart(1-4) show ?thesis using rocks_reopened [OF assms(1)] by blast
next
  case (crash i entries cttl listed opened k d)
  then show ?thesis using rocks_reopened [OF assms(1)] by blast
qed

text \<open>The embedded engine is such a store.\<close>

interpretation rocks: steady_store "rocks_ops db draws env" "rocks_good db env draws" "rocks_work db" "rocks_view db" for db draws env
proof unfold_locales
  fix T s ck T' inp u al ttl a s'
  assume g: "rocks_good db env draws T s" and t: "times T ck T'" and sho: "so_shorten (rocks_ops db draws env inp ck) u al ttl s = Some (a, s')"
  note sh = rocks_shortenD [OF sho]
  have ok: "rocks_ok db" "in_i64 (ck 0)" using g t by (simp_all add: rocks_good_def times_def)
  show "rocks_good db env draws T' s' \<and> keeps T' (rocks_view db s) (rocks_view db s') \<and>
      (\<forall>c. a = Some c \<longrightarrow> rocks_view db s' c = Some (u, expiry (ck 0) ttl) \<and> (\<forall>x. al = Some x \<longrightarrow> c = x))"
    using g rk_reach.make [OF _ t sh] rk_shorten_keeps [OF ok sh] rk_shorten_made [OF ok] sh
    by (auto simp: rocks_good_def rocks_view_def intro: keeps_all)
next
  fix T s ck T' inp us ttl codes s'
  assume g: "rocks_good db env draws T s" and t: "times T ck T'" and "so_shorten_many (rocks_ops db draws env inp ck) us ttl s = Some (codes, s')"
  then have sh: "rk_shorten_many db draws ck us ttl (rf_rocks s) = Some (codes, rf_rocks s')"
    by (auto simp: rocks_ops_def rocks_shorten_many_def split: option.splits)
  have ok: "rocks_ok db" "in_i64 (ck i)" for i using g t by (simp_all add: rocks_good_def times_def)
  show "rocks_good db env draws T' s' \<and> keeps T' (rocks_view db s) (rocks_view db s')"
    using g rk_reach.many [OF _ t sh] rk_shorten_many_keeps [OF ok sh] by (auto simp: rocks_good_def rocks_view_def intro: keeps_all)
next
  fix T s T'
  assume "rocks_good db env draws T s" and "T \<le> T'"
  then show "rocks_good db env draws T' s" by (auto simp: rocks_good_def intro: rk_reach.wait)
next
  fix T s ck T' inp c u ttl has
  assume g: "rocks_good db env draws T s" and t: "times T ck T'"
  obtain a s' where o: "on_rocks (rk_update db (ck 0) c u ttl has) s = (a, s')" by force
  then show "rocks_good db env draws T' (snd (so_update (rocks_ops db draws env inp ck) c u ttl has s))"
    using g rk_reach.upd [OF _ t, of db env draws "rf_rocks s" c u ttl has] on_rocksD [OF o] by (simp add: rocks_ops_def rocks_good_def)
next
  fix T s ck T' inp c
  assume g: "rocks_good db env draws T s" and t: "times T ck T'"
  obtain r k where o: "rk_remove db c (rf_rocks s) = (r, k)" by force
  have "rk_reach db env draws T' (snd (rk_remove db c (rf_rocks s)))"
    using g t rk_reach.wait [OF rk_reach.del] by (auto simp: rocks_good_def times_def)
  then show "rocks_good db env draws T' (snd (so_remove (rocks_ops db draws env inp ck) c s))"
    using g o by (simp add: rocks_ops_def rocks_remove_def rocks_good_def)
next
  fix T s ck T' inp c a s'
  assume g: "rocks_good db env draws T s" and t: "times T ck T'" and "so_resolve (rocks_ops db draws env inp ck) c s = (a, s')"
  then have o: "rk_resolve db env ck (snd inp) c (rf_rocks s) = (a, rf_rocks s')" by (simp add: rocks_ops_def on_rocksD)
  have "rk_reach db env draws T' (rf_rocks s')" using rk_reach.look [OF _ t, of db env draws "rf_rocks s" "snd inp" c] g o by (simp add: rocks_good_def)
  moreover have "rk_holds db (rf_rocks s') = rk_holds db (rf_rocks s)"
    using rk_db_resolve [of db env ck "snd inp" c "rf_rocks s"] o by (intro rk_holds_db) simp
  moreover have "a = Some u" if h: "rk_holds db (rf_rocks s) c = Some (u, ex)" and ex: "ex = 0 \<or> T' < ex" for u ex
  proof -
    have co: "coherent db T {} (rf_rocks s)" using g rk_reach_coherent by (auto simp: rocks_good_def)
    have "T \<le> ck 0" "ck 1 \<le> T'" using t by (simp_all add: times_def)
    then show ?thesis using resolve_database(2) [where clk = ck and env = env and us = "snd inp", OF co _ h] ex o by auto
  qed
  ultimately show "rocks_good db env draws T' s' \<and> keeps T' (rocks_view db s) (rocks_view db s') \<and>
      (\<forall>u ex. rocks_view db s c = Some (u, ex) \<longrightarrow> ex = 0 \<or> T' < ex \<longrightarrow> a = Some u)"
    using g by (simp add: rocks_good_def rocks_view_def)
next
  fix T s ck T' inp c x s'
  assume g: "rocks_good db env draws T s" and t: "times T ck T'" and "so_stats (rocks_ops db draws env inp ck) c s = (x, s')"
  then have o: "rk_stats db (ck 0) c (rf_rocks s) = (x, rf_rocks s')" by (simp add: rocks_ops_def on_rocksD)
  have "rk_reach db env draws T' (snd (rk_stats db (ck 0) c (rf_rocks s)))"
    using g t rk_reach.wait [OF rk_reach.stat] by (auto simp: rocks_good_def times_def)
  moreover have "rk_holds db (rf_rocks s') = rk_holds db (rf_rocks s)"
    using rk_db_stats [of db "ck 0" c "rf_rocks s"] o by (intro rk_holds_db) simp
  ultimately show "rocks_good db env draws T' s' \<and> keeps T' (rocks_view db s) (rocks_view db s')"
    using g o by (simp add: rocks_good_def rocks_view_def)
qed (simp_all add: rocks_ops_def rocks_work_good)

section \<open>A request, the database and back\<close>

lemma gen_code_ok:
  assumes "code_ok [p]" and "\<And>n. draws n < 62"
  shows "code_ok (fst (kv_gen_code draws p n))"
proof -
  have "list_all isalnum ALPHABET" by code_simp
  then have "isalnum (ALPHABET ! draws m)" for m using assms(2) [of m] by (simp add: list_all_length ALPHABET_def)
  then show ?thesis using assms(1) by (simp add: kv_gen_code_def code_ok_def list_all_iff)
qed

lemma rk_new_code_ok:
  assumes "rk_new_code db draws s = Some (c, s')" and "code_ok [rk_prefix s]" and "\<And>n. draws n < 62"
  shows "code_ok c"
proof -
  let ?Q = "\<lambda>db (draws :: nat \<Rightarrow> nat) s y. code_ok [rk_prefix s] \<longrightarrow> (\<forall>n. draws n < 62) \<longrightarrow> code_ok (fst y)"
  have "?Q db draws s (c, s')"
  proof (rule rk_new_code.raw_induct [where P = ?Q, OF _ assms(1)])
    fix f db draws s y
    assume IH: "\<And>db draws s y. f db draws s = Some y \<Longrightarrow> ?Q db draws s y"
      and eq: "(let (c, n) = kv_gen_code draws (rk_prefix s) (rk_rng s); s = s\<lparr>rk_rng := n\<rparr>
        in if rk_taken db c s then f db draws s else Some (c, s)) = Some y"
    obtain c n where g: "kv_gen_code draws (rk_prefix s) (rk_rng s) = (c, n)" by force
    show "?Q db draws s y"
      using IH [of db draws "s\<lparr>rk_rng := n\<rparr>" y] eq g gen_code_ok [of "rk_prefix s" draws "rk_rng s"] by (auto simp: Let_def split: if_splits)
  qed
  then show ?thesis using assms(2,3) by simp
qed

lemma rocks_code_ok:
  assumes "rk_shorten db draws now now2 u al ttl s = Some (Some c, s')" and "pred_option code_ok al" and "code_ok [rk_prefix s]"
    and "\<And>n. draws n < 62"
  shows "code_ok c"
proof -
  have st: "rk_store db now now2 ex x u t = (Some c, s') \<Longrightarrow> c = x" for ex x t
    by (cases "rput db x (enc ex now u) (rk_db t)") (auto simp: rk_store_def Let_def split: if_splits)
  show ?thesis
  proof (cases al)
    case None
    let ?t = "s\<lparr>rk_mets := store_write (rk_mets s)\<rparr>"
    obtain x t where n: "rk_new_code db draws ?t = Some (x, t)" "rk_store db now now2 (expiry now ttl) x u t = (Some c, s')"
      using assms(1) None by (auto simp: rk_shorten_def rk_taken_def Let_def split: option.splits)
    have "code_ok x" by (rule rk_new_code_ok [OF n(1) _ assms(4)]) (use assms(3) in simp)
    then show ?thesis using st [OF n(2)] by simp
  next
    case (Some x)
    then show ?thesis using assms(1,2) by (auto simp: rk_shorten_def rk_taken_def Let_def split: if_splits dest: st)
  qed
qed

text \<open>
  C16: The service on the embedded engine keeps what it answers, as long as it handles requests one after another, as the event loop does.
  If a request to create a link is answered with status 201, then after any requests without the admin token that are
  answered, flushes of the hit counters, compactions and restarts, also after the process has died, a lookup of the answered code is
  redirected to the address of the request, at every time before the expiry; and the code is the alias if one was asked for.
  With one thread for each connection, two creations of one alias can overlap, and the first is then lost (\<open>rocks_alias_race\<close>).
\<close>

theorem rocks_posted_is_served:
  assumes "rocks_ok db" and "rk_reach db env draws T (rf_rocks (the_store w))" and "code_ok [rk_prefix (rf_rocks (the_store w))]"
    and "\<And>n. draws n < 62" and "times T ck T1"
    and "handle (rocks_ops db draws env inp ck) env html clk ''POST'' ''/api/shorten'' bdy token client w = Inr (r, w1)" and "status r = 201"
    and "steady_run (rocks_ops db draws env) (rocks_work db) env (\<lambda>t. \<not> admin_ok env t) T1 w1 T2 w2" and "times T2 ck' T3"
  shows "\<exists>p u ttl c. jparse bdy = Some p \<and> j_find ''url'' p = Some (J_STR u) \<and> req_ttl env p = Inr ttl \<and> r = created c \<and>
    (\<forall>a. j_find ''alias'' p = Some (J_STR a) \<longrightarrow> c = a) \<and>
    (c \<noteq> ''metrics'' \<longrightarrow> expiry (ck 0) ttl = 0 \<or> T3 < expiry (ck 0) ttl \<longrightarrow>
      (\<exists>w3. handle (rocks_ops db draws env inp' ck') env html' clk' ''GET'' (CHR ''/'' # c) bdy' token' client' w2 = Inr (redirect u, w3)))"
proof -
  obtain p u al ttl c where m: "jparse bdy = Some p" "j_find ''url'' p = Some (J_STR u)" "req_alias p = Inr al" "req_ttl env p = Inr ttl"
      "so_shorten (rocks_ops db draws env inp ck) u al ttl (the_store w) = Some (Some c, the_store w1)" "r = created c"
    using assms(6,7) by (rule post_made)
  have g: "rocks_good db env draws T (the_store w)" using assms(1,2) by (simp add: rocks_good_def)
  from rocks.good_shorten [OF g assms(5) m(5)]
  have v: "rocks_good db env draws T1 (the_store w1)" "rocks_view db (the_store w1) c = Some (u, expiry (ck 0) ttl)" "\<And>x. al = Some x \<Longrightarrow> c = x"
    by simp_all
  have al: "pred_option code_ok al" "\<And>a. j_find ''alias'' p = Some (J_STR a) \<Longrightarrow> al = Some a"
    using m(3) by (auto simp: req_alias_def split: option.splits J.splits if_splits)
  have c: "code_ok c" using rocks_shortenD [OF m(5)] al(1) assms(3,4) by (rule rocks_code_ok)
  note k = rocks.run_keeps [OF assms(8) v(1)]
  have "\<exists>w3. handle (rocks_ops db draws env inp' ck') env html' clk' ''GET'' (CHR ''/'' # c) bdy' token' client' w2 = Inr (redirect u, w3)"
    if "c \<noteq> ''metrics''" and ex: "expiry (ck 0) ttl = 0 \<or> T3 < expiry (ck 0) ttl"
  proof (rule rocks.get_served [OF _ assms(9) _ ex c that(1)])
    show "rocks_good db env draws T2 (the_store w2)" using k by blast
    have "T2 \<le> T3" using assms(9) by (simp add: times_def)
    then have "expiry (ck 0) ttl = 0 \<or> T2 < expiry (ck 0) ttl" using ex by auto
    then show "rocks_view db (the_store w2) c = Some (u, expiry (ck 0) ttl)" using k v(2) unfolding keeps_def by blast
  qed
  then show ?thesis using m(1,2,4,6) v(3) al(2) by blast
qed

definition demo_rocks :: "((string, string) umap \<times> (string \<rightharpoonup> string)) rocks_front world" where
  "demo_rocks =
     \<lparr>the_store = \<lparr>rf_rocks = mem_store [], rf_links = 0\<rparr>, mets = metrics0,
      limit_of = \<lparr>rl_shards = (\<lambda>_. []), rate = Fin 0, burst = Fin 0\<rparr>, rate_limited = 0\<rparr>"

theorem rocks_posted_is_served_witness:
  "\<exists>w1 w2 w3. handle (rocks_ops mem_db (\<lambda>_. 0) Map.empty (isort, 0) (\<lambda>_. 5)) Map.empty [] (\<lambda>_. 5) ''POST'' ''/api/shorten'' demo_body [] ''1.2.3.4''
      demo_rocks = Inr (created ''ali'', w1) \<and>
    rocks_work mem_db 5 (the_store w1) 5 (the_store w2) \<and> rk_cache (rf_rocks (the_store w2)) = cache0 \<and>
    handle (rocks_ops mem_db (\<lambda>_. 0) Map.empty (isort, 0) (\<lambda>_. 9)) Map.empty [] (\<lambda>_. 9) ''GET'' ''/ali'' [] [] ''5.6.7.8'' w2 = Inr (redirect ''http://x'', w3)"
proof -
  let ?p = "J_OBJ [(''url'', J_STR ''http://x''), (''alias'', J_STR ''ali'')]" and ?o = "\<lambda>n. rocks_ops mem_db (\<lambda>_. 0) Map.empty (isort, 0) (\<lambda>_. n)"
  have j: "j_find ''url'' ?p = Some (J_STR ''http://x'')" "j_find ''alias'' ?p = Some (J_STR ''ali'')" by (simp_all add: j_find_def)
  have a: "fst (allow ((\<lambda>_. 5) (1::nat)) ''1.2.3.4'' (Fin 1) (limit_of demo_rocks))" by (simp add: demo_rocks_def allow_def)
  obtain s where "so_shorten (?o 5) ''http://x'' (Some ''ali'') 86400000 (the_store demo_rocks) = Some (Some ''ali'', s)"
    by (simp add: rocks_ops_def rocks_shorten_def rk_shorten_def rk_taken_def rk_store_def demo_rocks_def mem_store_def mem_db_def)
  from post_shortens [where clk = "\<lambda>_. 5" and html = "[]" and token = "[]", OF demo_parse j(1) demo_checks(1) j(2) demo_checks(2,4) a this]
  obtain w1 where w1: "handle (?o 5) Map.empty [] (\<lambda>_. 5) ''POST'' ''/api/shorten'' demo_body [] ''1.2.3.4'' demo_rocks = Inr (created ''ali'', w1)"
    by blast
  let ?d = "rk_db (rk_close mem_db (rf_rocks (the_store w1)))"
  obtain k where k: "RocksInnerImpl 0 100000 5000 metrics0 None (\<lambda>_. Inr ?d) = Inr k" "rk_cache k = cache0"
    by (simp add: RocksInnerImpl_def rk_families_def)
  let ?w = "demo_rocks\<lparr>the_store := \<lparr>rf_rocks = k, rf_links = 0\<rparr>\<rparr>"
  have work: "rocks_work mem_db 5 (the_store w1) 5 (the_store ?w)" using rocks_work.restart [OF k(1), of ?d] by simp
  have run: "steady_run (rocks_ops mem_db (\<lambda>_. 0) Map.empty) (rocks_work mem_db) Map.empty (\<lambda>t. \<not> admin_ok Map.empty t) 5 w1 5 ?w"
    using steady_run.background [where bg = "rocks_work mem_db", OF steady_run.idle] work by blast
  have h: "rk_reach mem_db Map.empty (\<lambda>_. 0) 5 (rf_rocks (the_store demo_rocks))" "code_ok [rk_prefix (rf_rocks (the_store demo_rocks))]"
    "times 5 (\<lambda>_. 5) 5" "times 5 (\<lambda>_. 9) 9" "(0::nat) < 62" "status (created ''ali'') = 201"
    by (auto simp: demo_rocks_def mem_store_def code_ok_def isalnum_def digit_val_def times_def in_i64_def created_def mk_def intro: rk_reach.opened)
  have ex: "expiry 5 86400000 = 86400005" by code_simp
  from rocks_posted_is_served [where ck = "\<lambda>_. 5" and clk = "\<lambda>_. 5" and ck' = "\<lambda>_. 9" and inp = "(isort, 0)" and inp' = "(isort, 0)" and
      html' = "[]" and clk' = "\<lambda>_. 9" and bdy' = "[]" and token' = "[]" and client' = "''5.6.7.8''", OF mem_db_ok h(1,2) h(5) h(3) w1 h(6) run h(4)]
  obtain w3 where "handle (?o 9) Map.empty [] (\<lambda>_. 9) ''GET'' (CHR ''/'' # ''ali'') [] [] ''5.6.7.8'' ?w = Inr (redirect ''http://x'', w3)"
    using j demo_parse demo_checks(4) ex by auto
  then show ?thesis using w1 work k(2) by (intro exI [of _ w1] exI [of _ ?w] exI [of _ w3]) simp
qed

end
