(* ===== verification/Spec2Isabelle.thy ===== *)
theory Spec2Isabelle
  imports Boot Kv_Store Rocks_Service
begin

text \<open>
  Verification of the URL shortener \<^verbatim>\<open>shrt\<close> (\<^verbatim>\<open>src/src\<close>).

  \<^bold>\<open>The program.\<close> A server answers HTTP requests: it creates short codes for web addresses, redirects lookups of a
  code, counts hits, and lets the holder of an admin token change and delete links. The links live in one of three
  engines: in memory with an append-only log on disk that several processes share (the default), in an external server
  that speaks the RESP protocol, or in an embedded database. A front end, one thread per connection or one event loop, reads
  requests off sockets, calls the handler and writes its replies; the handler calls the store, the rate limiter and the
  metrics. A supervisor may start several worker processes on one data directory.

  \<^bold>\<open>What models what.\<close> Every theory has a section of definitions in the order of the source, then lemmas.

  \<^item> \<^verbatim>\<open>Prelude\<close>: signed 64-bit integers, searches in byte strings, \<^verbatim>\<open>std::unordered_map\<close> as an association list with distinct
    keys (\<open>umap\<close>), the interface \<open>finmap_iface\<close>, the simplification collections.
  \<^item> \<^verbatim>\<open>Common\<close>: \<^verbatim>\<open>common.hpp\<close>, \<^verbatim>\<open>base62.hpp\<close>, and the number readers of the C library they use.
  \<^item> \<^verbatim>\<open>Codec\<close>: \<^verbatim>\<open>codec.cpp\<close>. Log lines are printed by \<open>row_line\<close>, \<open>hit_line\<close>, \<open>del_line\<close> and read by \<open>parse_op\<close>.
  \<^item> \<^verbatim>\<open>Aof\<close>: \<^verbatim>\<open>aof.cpp\<close>. The record \<open>aof\<close> is the buffer and descriptor, \<open>disk\<close> the files; \<open>os\<close> answers the system calls, with
    short and failing writes. Interface \<open>append_log\<close>.
  \<^item> \<^verbatim>\<open>Index\<close> and \<^verbatim>\<open>Store\<close>: \<^verbatim>\<open>store.cpp\<close>. The record \<open>proc\<close> is \<^verbatim>\<open>Inner\<close> with the disk it sees; \<open>open_store\<close>, \<open>shorten\<close>,
    \<open>shorten_many\<close>, \<open>resolve\<close>, \<open>update\<close>, \<open>remove\<close>, \<open>list_links\<close>, \<open>stats\<close>, \<open>flush_public\<close>, \<open>poll_tails\<close>, \<open>compact\<close>, \<open>close_store\<close> are
    its operations. An operation that changes the index under a lock and logs after releasing it is also given as two halves.
  \<^item> \<^verbatim>\<open>Durability\<close>, \<^verbatim>\<open>Recovery\<close>, \<^verbatim>\<open>Cluster\<close>: no code; the step relation of the default engine and what it promises.
  \<^item> \<^verbatim>\<open>Double\<close>: binary64 arithmetic with rounding to nearest even, \<^verbatim>\<open>strtod\<close>, \<^verbatim>\<open>atof\<close>, \<^verbatim>\<open>%g\<close>.
  \<^item> \<^verbatim>\<open>Json\<close>, \<^verbatim>\<open>App\<close>: \<^verbatim>\<open>app.cpp\<close>. \<open>jparse\<close> is the JSON reader, \<open>handle\<close> the handler; its store is a record of methods
    (\<open>store_ops\<close>), so it is one definition for every engine. Interface \<open>link_store\<close>.
  \<^item> \<^verbatim>\<open>Metrics\<close>: \<^verbatim>\<open>metrics.cpp\<close>. \<^verbatim>\<open>Rate_Limit\<close>: \<^verbatim>\<open>ratelimit.cpp\<close>.
  \<^item> \<^verbatim>\<open>Service\<close>: the handler on the default engine (\<open>aof_ops\<close>), which meets \<open>link_store\<close>.
  \<^item> \<^verbatim>\<open>Server\<close>: the request parser, the reply writer and \<^verbatim>\<open>conn_loop\<close> of \<^verbatim>\<open>server.cpp\<close>. \<^verbatim>\<open>Event_Loop\<close>: its \<^verbatim>\<open>serve_kq\<close>, one step per event.
  \<^item> \<^verbatim>\<open>Boot\<close>: \<^verbatim>\<open>main.cpp\<close> and \<^verbatim>\<open>Store::open_env\<close>.
  \<^item> \<^verbatim>\<open>Kv\<close>: the RESP client \<^verbatim>\<open>kv.cpp\<close>. The server is the parameter \<open>peer\<close>, which takes bytes and returns pieces of bytes.
  \<^item> \<^verbatim>\<open>Hot_Cache\<close>: the cache, the value codec and the code generator that \<^verbatim>\<open>store_kv.cpp\<close> and \<^verbatim>\<open>store_rocks.cpp\<close> both contain.
    Interface \<open>cached_engine\<close>.
  \<^item> \<^verbatim>\<open>Kv_Store\<close>: \<^verbatim>\<open>store_kv.cpp\<close>, both layouts (\<open>kv_store\<close>). \<^verbatim>\<open>Rocks_Store\<close>: \<^verbatim>\<open>store_rocks.cpp\<close> (\<open>rocks\<close>), over a parameter
    \<open>rocks_db\<close> with the calls the source makes.
  \<^item> \<^verbatim>\<open>Rocks_Service\<close>: the handler on the embedded engine (\<open>rocks_ops\<close>, the branches of \<^verbatim>\<open>Store\<close> for it). Interface \<open>steady_store\<close>.

  \<^bold>\<open>What is shown.\<close>

  \<^item> The default engine: every reachable state is the replay of its log, so a restart keeps every link, a crash at any byte keeps
    a prefix that covers the last flush, compaction loses nothing of its own, replay refines a map of rows, siblings see flushed links
    with generated codes, generated codes of different instances differ, a claim never takes the lock of a living process, and claims
    that do not overlap never share an instance.
  \<^item> Its operations: what creation, lookup and listing return on every branch, and that code generation ends once a free code is drawn.
  \<^item> The external engines: pipelines return the reply of each command however the answer bytes arrive, commands cannot be injected; in the key
    layout, a link created on one node is served by the nodes whose caches hold nothing newer than their limit of age allows, changes show at once on
    the node that makes them and flushed hits are counted once; in both layouts an answer is at most one cache lifetime old; the cache of the
    embedded engine never shows through while calls do not overlap; the cache is bounded.
  \<^item> The service: a posted link is redirected until it expires through any answered requests without the token and any background work,
    on the default engine while the process lives, on the embedded one through restarts as well; redirects go to web addresses; JSON values are read back; the limiter grants no more than its burst; the
    request window counts right.
  \<^item> The front ends: pipelined requests are answered once each in order, the way the bytes are cut does not matter, the event loop forgets
    no unsent byte and behaves as the threads do.
  \<^item> Where the code does not do what it means to, a theorem says exactly what happens: links served by the default server process never reach
    the disk, updates reset hits on replay, a delete can be undone by a race, compaction hides links from siblings, creation spins
    on error replies, the cache queue grows, a batch loses a link, a redirect can carry a second reply, a request with an empty path ends the
    process, two claims that overlap share an instance. Lemmas do the same for two races of the embedded engine (\<open>rocks_alias_race\<close>,
    \<open>rocks_stale_race\<close>).

  \<^bold>\<open>Parameters and hypotheses.\<close> Clock readings are arguments (\<open>now\<close>, or \<open>clk i\<close> for the \<open>i\<close>-th of a call); \<open>times T clk T'\<close> says they lie
  between two times. The system calls (\<open>os_ok\<close>, \<open>write_ok\<close>, \<open>send_ok\<close>), sorting (\<open>std_sort\<close>), the RESP server (\<open>resp_peer\<close>,
  \<open>redis_strings\<close>) and the database (\<open>rocks_ok\<close>) are parameters with their documented behaviour; each hypothesis has a concrete instance
  that the witnesses use (\<open>demo_os\<close>, \<open>byte_sender\<close>, \<open>isort\<close>, \<open>byte_peer\<close> with \<open>mini_exec\<close>, \<open>mem_db\<close>).

  \<^bold>\<open>Faults.\<close> The handler and the loops return \<open>Inl\<close> of a \<open>fault\<close> where the process does not get to a reply: \<open>Loops\<close> for a loop that never ends,
  \<open>Undefined\<close> for undefined behaviour, \<open>Uncaught\<close> for an exception that nobody catches, which ends the process. Runs of the service consist
  of the requests that are answered.

  \<^bold>\<open>Loops.\<close> Loops that may not end (drawing codes, sending, scanning) are partial functions into an option, \<open>None\<close> being a loop that never
  ends, and theorems that they return are stated as such. The JSON reader and the reply reader recurse on fuel taken from the length of
  their input; \<open>jparse_total\<close> and \<open>read_one_total\<close> show that it never runs out.

  \<^bold>\<open>Atomicity.\<close> A call is one step in the runs and step relations. Where the code does not hold a lock over the whole of a call, its halves are
  definitions of their own: index and log of the default engine (\<open>shorten_insert\<close>, \<open>shorten_log\<close>, \<open>remove_index\<close>, \<open>remove_log\<close>), reading and
  stealing a lock file (\<open>lock_stale\<close>, \<open>lock_steal\<close>), test and store, read and cache fill of the embedded engine (\<open>rk_taken\<close>, \<open>rk_store\<close>,
  \<open>rk_look\<close>, \<open>rk_fill\<close>); theorems and lemmas about overlapping calls interleave them. The lost race of the metrics ring is \<open>tick_loaded\<close>.

  \<^bold>\<open>Not modelled.\<close> The reading of the clock (\<^verbatim>\<open>now_ms\<close>); \<^verbatim>\<open>listen_socket\<close>, \<^verbatim>\<open>peer_ip\<close>, the accept loop of \<^verbatim>\<open>serve_mini\<close>, dialling in
  \<^verbatim>\<open>kv.cpp\<close>, \<^verbatim>\<open>posix_spawn\<close>, waiting and signal installation in \<^verbatim>\<open>main.cpp\<close>, which are system calls and nothing else; the pauses of
  background threads and blocking on locks; the options of the database; a number of hash buckets that is zero after cutting to 32 bits; the random device and generator of the external engines,
  whose draws are a parameter; the branches of \<^verbatim>\<open>Store\<close> for the key-value engine, because its exceptions pass through a handler that does not
  catch them; memory exhaustion; \<^verbatim>\<open>bench.cpp\<close>, the scripts, the tests and the web page, which are not part of the server.
\<close>

end
